(* ===== verification/Reflux_Prelude.thy ===== *)
theory Reflux_Prelude
  imports
    Main
    "HOL-Library.AList"
    "HOL-Library.Multiset"
    "HOL-Library.Signed_Division"
begin

text \<open>
  Shared vocabulary of the development: what the Rust code uses of its language and standard
  library. Results and panics as sums, the 64-bit integers of the release profile (which wraps,
  no \<open>overflow-checks\<close> in Cargo.toml), and the two keyed collections of the program:
  insertion-ordered maps (\<open>IndexMap\<close>/\<open>SerdeVecMap\<close>, and \<open>HashMap\<close> with its unspecified
  iteration order fixed to insertion order) and key-ordered maps (\<open>BTreeMap\<close>).
\<close>

named_theorems int64 \<open>exactness and bounds of the 64-bit operations\<close>
named_theorems entry_simps \<open>lookups in the keyed collections after an entry update\<close>

section \<open>Results and panics\<close>

text \<open>
  A function that may panic returns \<open>panic + 'a\<close>; a fallible one returns \<open>error + 'a\<close> with the
  module's own error type. \<open>bind_res\<close> is the \<open>?\<close> operator.
\<close>

datatype panic = Panic string

type_synonym 'a panicking = "panic + 'a"

definition bind_res :: "'e + 'a \<Rightarrow> ('a \<Rightarrow> 'e + 'b) \<Rightarrow> 'e + 'b" where
  "bind_res r f = (case r of Inl e \<Rightarrow> Inl e | Inr x \<Rightarrow> f x)"

lemma bind_res_simps [simp]:
  "bind_res (Inl e) f = Inl e"
  "bind_res (Inr x) f = f x"
  by (simp_all add: bind_res_def)

lemma bind_res_eq_Inr: "bind_res r f = Inr y \<longleftrightarrow> (\<exists>x. r = Inr x \<and> f x = Inr y)"
  by (cases r) auto

lemma bind_res_cong [fundef_cong]:
  "r = r' \<Longrightarrow> (\<And>x. r' = Inr x \<Longrightarrow> f x = g x) \<Longrightarrow> bind_res r f = bind_res r' g"
  by (cases r') auto

definition the_or :: "'a \<Rightarrow> 'a option \<Rightarrow> 'a" where
  "the_or d x = (case x of None \<Rightarrow> d | Some v \<Rightarrow> v)"

lemma the_or_simps [simp]: "the_or d None = d" "the_or d (Some v) = v"
  by (simp_all add: the_or_def)

text \<open>A loop whose body can fail.\<close>

primrec fold_res :: "('a \<Rightarrow> 's \<Rightarrow> 'e + 's) \<Rightarrow> 'a list \<Rightarrow> 's \<Rightarrow> 'e + 's" where
  "fold_res f [] s = Inr s"
| "fold_res f (x # xs) s = bind_res (f x s) (fold_res f xs)"

lemma fold_res_append [simp]: "fold_res f (xs @ ys) s = bind_res (fold_res f xs s) (fold_res f ys)"
  by (induction xs arbitrary: s) (auto simp: bind_res_def split: sum.splits)

text \<open>A loop keeps what every turn of it keeps and does not fail when no turn does.\<close>

lemma fold_res_holds:
  assumes "P [] s"
    and "\<And>ys x todo s. xs = ys @ x # todo \<Longrightarrow> P ys s \<Longrightarrow> \<exists>s'. f x s = Inr s' \<and> P (ys @ [x]) s'"
  shows "\<exists>s'. fold_res f xs s = Inr s' \<and> P xs s'"
proof -
  have "\<exists>s'. fold_res f todo s = Inr s' \<and> P xs s'" if "xs = ys @ todo" "P ys s" for ys todo s
    using that
  proof (induction todo arbitrary: ys s)
    case (Cons x todo)
    then obtain s1 where 1: "f x s = Inr s1" "P (ys @ [x]) s1" using assms(2) by blast
    with Cons.IH [of "ys @ [x]" s1] Cons.prems(1) show ?case by simp
  qed simp
  from this [of "[]" xs s] assms(1) show ?thesis by simp
qed

section \<open>64-bit integers\<close>

text \<open>
  An \<open>i64\<close> is an \<open>int\<close> in \<open>i64_min .. i64_max\<close>, a \<open>u64\<close> or \<open>usize\<close> a \<open>nat\<close> below \<open>2 ^ 64\<close>.
  Plain operators wrap (the release build); \<open>checked_*\<close> return an option; \<open>%\<close> and \<open>/\<close> truncate
  towards zero (\<open>smod\<close>, \<open>sdiv\<close>).
\<close>

definition i64_min :: int where "i64_min = - (2 ^ 63)"
definition i64_max :: int where "i64_max = 2 ^ 63 - 1"

definition in_i64 :: "int \<Rightarrow> bool" where
  "in_i64 x \<longleftrightarrow> i64_min \<le> x \<and> x \<le> i64_max"

definition i64_wrap :: "int \<Rightarrow> int" where
  "i64_wrap x = (x + 2 ^ 63) mod 2 ^ 64 - 2 ^ 63"

definition u64_max :: nat where "u64_max = 2 ^ 64 - 1"

definition in_u64 :: "nat \<Rightarrow> bool" where
  "in_u64 n \<longleftrightarrow> n \<le> u64_max"

definition u64_add :: "nat \<Rightarrow> nat \<Rightarrow> nat" where
  "u64_add a b = (a + b) mod 2 ^ 64"

definition u64_sub :: "nat \<Rightarrow> nat \<Rightarrow> nat" where
  "u64_sub a b = (a + 2 ^ 64 - b) mod 2 ^ 64"

definition checked_i64 :: "int \<Rightarrow> int option" where
  "checked_i64 x = (if in_i64 x then Some x else None)"

definition saturating_i64 :: "int \<Rightarrow> int" where
  "saturating_i64 x = max i64_min (min i64_max x)"

lemmas i64_defs = i64_min_def i64_max_def in_i64_def

lemma i64_wrap_exact [int64]: "in_i64 x \<Longrightarrow> i64_wrap x = x"
  by (simp add: i64_defs i64_wrap_def)

lemma i64_wrap_range [int64]: "in_i64 (i64_wrap x)"
proof -
  have "0 \<le> (x + 2 ^ 63) mod 2 ^ 64" "(x + 2 ^ 63) mod 2 ^ 64 < 2 ^ 64"
    by simp_all
  then show ?thesis by (simp add: i64_defs i64_wrap_def)
qed

lemma u64_add_exact [int64]: "a + b \<le> u64_max \<Longrightarrow> u64_add a b = a + b"
  by (simp add: u64_add_def u64_max_def)

lemma u64_add_range [int64]: "u64_add a b \<le> u64_max"
proof -
  have "(a + b) mod 2 ^ 64 < (2::nat) ^ 64" by simp
  then show ?thesis by (simp add: u64_add_def u64_max_def)
qed

lemma add_modulus_sub: "b \<le> a \<Longrightarrow> a < N \<Longrightarrow> (a + N - b) mod N = a - (b::nat)"
proof -
  assume "b \<le> a" "a < N"
  then have "a + N - b = (a - b) + N" "a - b < N" by linarith+
  then show ?thesis by (metis mod_add_self2 mod_less)
qed

lemma u64_sub_exact [int64]: "b \<le> a \<Longrightarrow> a \<le> u64_max \<Longrightarrow> u64_sub a b = a - b"
  unfolding u64_sub_def by (rule add_modulus_sub) (simp_all add: u64_max_def)

lemma u64_sub_range [int64]: "u64_sub a b \<le> u64_max"
proof -
  have "(a + 2 ^ 64 - b) mod 2 ^ 64 < (2::nat) ^ 64" by simp
  then show ?thesis by (simp add: u64_sub_def u64_max_def)
qed

lemma checked_i64_Some [int64]: "checked_i64 x = Some y \<longleftrightarrow> y = x \<and> in_i64 x"
  by (auto simp: checked_i64_def)

subsection \<open>Rounding towards zero\<close>

text \<open>
  \<open>t - t % d\<close> is the rounding every chunk-time computation of the program uses. It rounds towards
  zero: for a negative \<open>t\<close> upwards.
\<close>

definition trunc_to :: "int \<Rightarrow> int \<Rightarrow> int" where
  "trunc_to d t = t - t smod d"

lemma smod_eq: "0 < d \<Longrightarrow> (t :: int) smod d = (if 0 \<le> t then t mod d else - (- t mod d))"
  by (auto simp: signed_modulo_int_def sgn_if)

lemma trunc_to_nonneg: "0 < d \<Longrightarrow> 0 \<le> t \<Longrightarrow> trunc_to d t = d * (t div d)"
  using minus_mod_eq_mult_div [of t d] by (simp add: trunc_to_def smod_eq)

lemma trunc_to_neg: "0 < d \<Longrightarrow> t < 0 \<Longrightarrow> trunc_to d t = - (d * (- t div d))"
  using minus_mod_eq_mult_div [of "- t" d] by (simp add: trunc_to_def smod_eq)

lemma trunc_to_sdiv: "0 < d \<Longrightarrow> t sdiv d * d = trunc_to d t"
proof (cases "0 \<le> t")
  case True
  assume "0 < d"
  with True show ?thesis
    by (cases "t = 0") (simp_all add: trunc_to_nonneg signed_divide_int_def sgn_mult)
next
  case False
  assume "0 < d"
  with False show ?thesis
    by (simp add: trunc_to_neg signed_divide_int_def sgn_mult)
qed

lemma trunc_to_bounds:
  assumes "0 < d"
  shows "\<bar>t - trunc_to d t\<bar> < d" "\<bar>trunc_to d t\<bar> \<le> \<bar>t\<bar>"
proof -
  have "0 \<le> \<bar>t\<bar> mod d" "\<bar>t\<bar> mod d < d" "\<bar>t\<bar> mod d \<le> \<bar>t\<bar>"
    using assms by (simp_all add: zmod_le_nonneg_dividend)
  then show "\<bar>t - trunc_to d t\<bar> < d" "\<bar>trunc_to d t\<bar> \<le> \<bar>t\<bar>"
    using assms by (auto simp: trunc_to_def smod_eq)
qed

lemma trunc_to_mono: "0 < d \<Longrightarrow> s \<le> t \<Longrightarrow> trunc_to d s \<le> trunc_to d t"
proof -
  assume d: "0 < d" and st: "s \<le> t"
  consider "0 \<le> s" | "s < 0" "0 \<le> t" | "t < 0" by linarith
  then show ?thesis
  proof cases
    case 1
    then have "s div d \<le> t div d" using d st by (simp add: zdiv_mono1)
    with 1 d st show ?thesis by (simp add: trunc_to_nonneg)
  next
    case 2
    then have "trunc_to d s \<le> 0" "0 \<le> trunc_to d t"
      using d by (simp_all add: trunc_to_nonneg trunc_to_neg pos_imp_zdiv_nonneg_iff)
    then show ?thesis by simp
  next
    case 3
    then have "- t div d \<le> - s div d" using d st by (simp add: zdiv_mono1)
    with 3 d st show ?thesis by (simp add: trunc_to_neg)
  qed
qed

lemma trunc_to_dvd: "0 < d \<Longrightarrow> d dvd trunc_to d t"
  by (cases "0 \<le> t") (simp_all add: trunc_to_nonneg trunc_to_neg)

lemma trunc_to_idem: "0 < d \<Longrightarrow> trunc_to d (trunc_to d t) = trunc_to d t"
proof -
  assume d: "0 < d"
  then have "d dvd trunc_to d t" by (rule trunc_to_dvd)
  then have "trunc_to d t mod d = 0" "- trunc_to d t mod d = 0" by simp_all
  then show ?thesis using d by (auto simp: trunc_to_def [of d "trunc_to d t"] smod_eq)
qed

section \<open>Strictly increasing lists\<close>

lemma increasing_le_last: "sorted_wrt (<) xs \<Longrightarrow> (x :: 'a::linorder) \<in> set xs \<Longrightarrow> x \<le> last xs"
  by (induction xs) (auto simp: less_imp_le)

lemma increasing_hd_le: "sorted_wrt (<) xs \<Longrightarrow> (x :: 'a::linorder) \<in> set xs \<Longrightarrow> hd xs \<le> x"
  by (cases xs) (auto simp: less_imp_le)

lemma filter_above_prefix:
  assumes "sorted_wrt (<) (map f (xs @ ys))" "xs \<noteq> []"
  shows "filter (\<lambda>x. (f (last xs) :: 'b::linorder) < f x) (xs @ ys) = ys"
proof -
  have "f x \<le> f (last xs)" if "x \<in> set xs" for x
    using increasing_le_last [of "map f xs" "f x"] assms that by (simp add: sorted_wrt_append last_map)
  moreover have "f (last xs) < f y" if "y \<in> set ys" for y
    using assms that by (auto simp: sorted_wrt_append)
  ultimately show ?thesis
    by (auto simp: filter_empty_conv not_less intro: filter_True)
qed

section \<open>Keyed collections\<close>

text \<open>
  \<open>entry_upd k d f m\<close> is \<open>*m.entry(k).or_insert(d) = f(..)\<close> on an insertion-ordered map, and
  \<open>btree_upd\<close> the same on a key-ordered map. Both are association lists with distinct keys.
\<close>

fun entry_upd :: "'k \<Rightarrow> 'v \<Rightarrow> ('v \<Rightarrow> 'v) \<Rightarrow> ('k \<times> 'v) list \<Rightarrow> ('k \<times> 'v) list" where
  "entry_upd k d f [] = [(k, f d)]"
| "entry_upd k d f ((k', v) # m) =
     (if k = k' then (k', f v) # m else (k', v) # entry_upd k d f m)"

fun btree_upd :: "'k::linorder \<Rightarrow> 'v \<Rightarrow> ('v \<Rightarrow> 'v) \<Rightarrow> ('k \<times> 'v) list \<Rightarrow> ('k \<times> 'v) list" where
  "btree_upd k d f [] = [(k, f d)]"
| "btree_upd k d f ((k', v) # m) =
     (if k < k' then (k, f d) # (k', v) # m
      else if k = k' then (k', f v) # m
      else (k', v) # btree_upd k d f m)"

definition keys_distinct :: "('k \<times> 'v) list \<Rightarrow> bool" where
  "keys_distinct m \<longleftrightarrow> distinct (map fst m)"

definition keys_sorted :: "('k::linorder \<times> 'v) list \<Rightarrow> bool" where
  "keys_sorted m \<longleftrightarrow> sorted_wrt (<) (map fst m)"

lemma keys_entry_upd [entry_simps]: "fst ` set (entry_upd k d f m) = insert k (fst ` set m)"
  by (induction k d f m rule: entry_upd.induct) auto

lemma keys_btree_upd [entry_simps]: "fst ` set (btree_upd k d f m) = insert k (fst ` set m)"
  by (induction k d f m rule: btree_upd.induct) auto

lemma map_of_entry_upd [entry_simps]:
  "map_of (entry_upd k d f m) = (map_of m)(k \<mapsto> f (the_or d (map_of m k)))"
  by (induction k d f m rule: entry_upd.induct) (auto simp: fun_eq_iff)

lemma keys_distinct_entry_upd: "keys_distinct m \<Longrightarrow> keys_distinct (entry_upd k d f m)"
  unfolding keys_distinct_def
proof (induction k d f m rule: entry_upd.induct)
  case (2 k d f k' v m)
  have "k \<noteq> k' \<Longrightarrow> k' \<notin> fst ` set m \<Longrightarrow> k' \<notin> fst ` set (entry_upd k d f m)"
    by (simp add: keys_entry_upd)
  with 2 show ?case by auto
qed simp

lemma map_of_btree_upd [entry_simps]:
  "keys_sorted m \<Longrightarrow>
   map_of (btree_upd k d f m) = (map_of m)(k \<mapsto> f (the_or d (map_of m k)))"
  unfolding keys_sorted_def
proof (induction k d f m rule: btree_upd.induct)
  case (2 k d f k' v m)
  have "k < k' \<Longrightarrow> map_of m k = None"
    using "2.prems" by (force simp: map_of_eq_None_iff)
  with 2 show ?case by (auto simp: fun_eq_iff)
qed simp

lemma keys_sorted_btree_upd: "keys_sorted m \<Longrightarrow> keys_sorted (btree_upd k d f m)"
  unfolding keys_sorted_def
proof (induction k d f m rule: btree_upd.induct)
  case (2 k d f k' v m)
  have "k' < k \<Longrightarrow> \<forall>x \<in> set (map fst (btree_upd k d f m)). k' < x"
    using "2.prems" keys_btree_upd [of k d f m] by auto
  with 2 show ?case by auto
qed simp

lemma list_all_entry_upd:
  "list_all (\<lambda>(_, v). P v) m \<Longrightarrow> P d \<Longrightarrow> (\<And>v. P v \<Longrightarrow> P (f v)) \<Longrightarrow>
   list_all (\<lambda>(_, v). P v) (entry_upd k d f m)"
  by (induction k d f m rule: entry_upd.induct) auto

lemma set_AList_update: "x \<in> set (AList.update k v al) \<Longrightarrow> x = (k, v) \<or> x \<in> set al"
  by (induction al) (auto split: if_splits)

text \<open>All values of a map in one bag: an entry update that adds \<open>M\<close> to one value adds \<open>M\<close> overall.\<close>

definition flat_vals :: "('v \<Rightarrow> 'a list) \<Rightarrow> ('k \<times> 'v) list \<Rightarrow> 'a list" where
  "flat_vals g m = concat (map (\<lambda>(_, v). g v) m)"

lemma flat_vals_simps [simp]:
  "flat_vals g [] = []" "flat_vals g ((k, v) # m) = g v @ flat_vals g m"
  by (simp_all add: flat_vals_def)

lemma flat_vals_entry_upd:
  assumes "\<And>v. (k, v) \<in> set m \<or> v = d \<Longrightarrow> mset (g (f v)) = mset (g v) + M" "g d = []"
  shows "mset (flat_vals g (entry_upd k d f m)) = mset (flat_vals g m) + M"
  using assms by (induction k d f m rule: entry_upd.induct) auto

lemma flat_vals_mem: "map_of m k = Some v \<Longrightarrow> set (g v) \<subseteq> set (flat_vals g m)"
  by (force simp: flat_vals_def dest: map_of_SomeD)

text \<open>
  What a client relies on of either map: the entry it touched changed as asked, every other key
  is untouched, and the shape invariant is kept. Grouping (the \<open>entry(..).or_default().push(..)\<close>
  loops of the program) is proved once against this contract.
\<close>

locale entry_map =
  fixes lookup :: "'m \<Rightarrow> 'k \<Rightarrow> 'v list option"
    and upd :: "'k \<Rightarrow> 'v list \<Rightarrow> ('v list \<Rightarrow> 'v list) \<Rightarrow> 'm \<Rightarrow> 'm"
    and wf :: "'m \<Rightarrow> bool"
  assumes lookup_upd: "wf m \<Longrightarrow> lookup (upd k d f m) = (lookup m)(k \<mapsto> f (the_or d (lookup m k)))"
    and wf_upd: "wf m \<Longrightarrow> wf (upd k d f m)"
begin

lemma wf_group: "wf m \<Longrightarrow> wf (foldl (\<lambda>m x. upd (key x) [] (\<lambda>ys. ys @ [x]) m) m xs)"
  by (induction xs arbitrary: m) (simp_all add: wf_upd)

lemma lookup_group:
  "wf m \<Longrightarrow>
   lookup (foldl (\<lambda>m x. upd (key x) [] (\<lambda>ys. ys @ [x]) m) m xs) k =
     (if lookup m k = None \<and> filter (\<lambda>x. key x = k) xs = [] then None
      else Some (the_or [] (lookup m k) @ filter (\<lambda>x. key x = k) xs))"
proof (induction xs arbitrary: m)
  case Nil
  then show ?case by (cases "lookup m k") simp_all
next
  case (Cons x xs)
  then show ?case by (simp add: wf_upd lookup_upd)
qed

end

interpretation index_map: entry_map map_of entry_upd keys_distinct
  by unfold_locales (simp_all add: map_of_entry_upd keys_distinct_entry_upd)

interpretation btree_map: entry_map map_of btree_upd keys_sorted
  by unfold_locales (simp_all add: map_of_btree_upd keys_sorted_btree_upd)

definition group_into :: "('a \<Rightarrow> 'k) \<Rightarrow> 'a list \<Rightarrow> ('k \<times> 'a list) list" where
  "group_into key xs = foldl (\<lambda>m x. entry_upd (key x) [] (\<lambda>ys. ys @ [x]) m) [] xs"

definition btree_group :: "('a \<Rightarrow> 'k::linorder) \<Rightarrow> 'a list \<Rightarrow> ('k \<times> 'a list) list" where
  "btree_group key xs = foldl (\<lambda>m x. btree_upd (key x) [] (\<lambda>ys. ys @ [x]) m) [] xs"

lemma lookup_group_into:
  "map_of (group_into key xs) k =
     (let ys = filter (\<lambda>x. key x = k) xs in if ys = [] then None else Some ys)"
  using index_map.lookup_group [of "[]" key xs k]
  by (simp add: group_into_def keys_distinct_def Let_def)

lemma lookup_btree_group:
  "map_of (btree_group key xs) k =
     (let ys = filter (\<lambda>x. key x = k) xs in if ys = [] then None else Some ys)"
  using btree_map.lookup_group [of "[]" key xs k]
  by (simp add: btree_group_def keys_sorted_def Let_def)

lemma keys_distinct_group_into: "keys_distinct (group_into key xs)"
  using index_map.wf_group [of "[]"] by (simp add: group_into_def keys_distinct_def)

lemma keys_sorted_btree_group: "keys_sorted (btree_group key xs)"
  using btree_map.wf_group [of "[]"] by (simp add: btree_group_def keys_sorted_def)

lemma keys_sorted_imp_distinct: "keys_sorted m \<Longrightarrow> keys_distinct m"
  by (simp add: keys_sorted_def keys_distinct_def strict_sorted_iff)

lemma btree_group_mem:
  "(k, ys) \<in> set (btree_group key xs) \<longleftrightarrow> ys \<noteq> [] \<and> ys = filter (\<lambda>x. key x = k) xs"
proof -
  have "(k, ys) \<in> set (btree_group key xs) \<longleftrightarrow> map_of (btree_group key xs) k = Some ys"
    using keys_sorted_imp_distinct [OF keys_sorted_btree_group, of key xs]
    by (simp add: keys_distinct_def)
  then show ?thesis by (auto simp: lookup_btree_group Let_def)
qed

end
