(* ===== verification/Rust_Strings.thy ===== *)
theory Rust_Strings
  imports
    Reflux_Prelude
    "HOL-Library.Char_ord"
    "HOL-Library.List_Lexorder"
    "HOL-Library.Sublist"
begin

text \<open>
  The \<open>str\<close> functions of the Rust standard library that the program builds and parses its object
  names with. A string is a list of bytes, and \<open><\<close> on strings is the byte-lexicographic order of
  \<open>str\<close> (and of \<open>object_store::path::Path\<close>, which orders by its string). The lemmas give what the
  object layouts rely on: zero-padded decimals parse back and sort numerically.
\<close>

section \<open>Decimal numbers\<close>

definition digit_char :: "nat \<Rightarrow> char" where
  "digit_char d = char_of (48 + d)"

definition is_digit :: "char \<Rightarrow> bool" where
  "is_digit c \<longleftrightarrow> 48 \<le> (of_char c :: nat) \<and> (of_char c :: nat) \<le> 57"

definition digit_val :: "char \<Rightarrow> nat" where
  "digit_val c = of_char c - 48"

text \<open>\<open>format!("{n}")\<close> and \<open>format!("{n:0w$}")\<close>.\<close>

fun show_nat :: "nat \<Rightarrow> string" where
  "show_nat n = (if n < 10 then [digit_char n] else show_nat (n div 10) @ [digit_char (n mod 10)])"

declare show_nat.simps [simp del]

definition pad0 :: "nat \<Rightarrow> nat \<Rightarrow> string" where
  "pad0 w n = replicate (w - length (show_nat n)) (digit_char 0) @ show_nat n"

definition digits_val :: "string \<Rightarrow> nat" where
  "digits_val s = foldl (\<lambda>a c. 10 * a + digit_val c) 0 s"

text \<open>
  \<open>str::parse\<close> for an unsigned type with greatest value \<open>mx\<close>: an optional leading plus sign, at
  least one digit, nothing else, and no overflow.
\<close>

definition parse_digits :: "nat \<Rightarrow> string \<Rightarrow> nat option" where
  "parse_digits mx s =
     (if s \<noteq> [] \<and> list_all is_digit s \<and> digits_val s \<le> mx then Some (digits_val s) else None)"

definition parse_uint :: "nat \<Rightarrow> string \<Rightarrow> nat option" where
  "parse_uint mx s =
     (case s of [] \<Rightarrow> None
      | c # s' \<Rightarrow> if c = CHR ''+'' then parse_digits mx s' else parse_digits mx s)"

lemma of_char_digit [simp]: "d < 10 \<Longrightarrow> (of_char (digit_char d) :: nat) = 48 + d"
  by (simp add: digit_char_def)

lemma is_digit_digit_char [simp]: "d < 10 \<Longrightarrow> is_digit (digit_char d)"
  by (simp add: is_digit_def)

lemma digit_val_digit_char [simp]: "d < 10 \<Longrightarrow> digit_val (digit_char d) = d"
  by (simp add: digit_val_def)

lemma digit_val_less: "is_digit c \<Longrightarrow> digit_val c < 10"
  unfolding is_digit_def digit_val_def by linarith

lemma digit_val_mono: "is_digit c \<Longrightarrow> is_digit c' \<Longrightarrow> c < c' \<longleftrightarrow> digit_val c < digit_val c'"
  by (auto simp: is_digit_def digit_val_def less_char_def)

lemma digit_val_inj: "is_digit c \<Longrightarrow> is_digit c' \<Longrightarrow> digit_val c = digit_val c' \<Longrightarrow> c = c'"
  using digit_val_mono [of c c'] digit_val_mono [of c' c] by (metis less_irrefl linorder_neqE)

lemma digits_val_foldl:
  "foldl (\<lambda>a c. 10 * a + digit_val c) x s = x * 10 ^ length s + digits_val s"
  unfolding digits_val_def
proof (induction s arbitrary: x)
  case Nil
  then show ?case by simp
next
  case (Cons c s)
  from Cons [of "10 * x + digit_val c"] Cons [of "digit_val c"] show ?case
    by (simp add: algebra_simps)
qed

lemma digits_val_Nil [simp]: "digits_val [] = 0"
  by (simp add: digits_val_def)

lemma digits_val_Cons [simp]:
  "digits_val (c # s) = digit_val c * 10 ^ length s + digits_val s"
  using digits_val_foldl [of "digit_val c" s] by (simp add: digits_val_def)

lemma digits_val_snoc [simp]: "digits_val (s @ [c]) = 10 * digits_val s + digit_val c"
  by (simp add: digits_val_def)

lemma digits_val_zeros [simp]: "digits_val (replicate k (digit_char 0) @ s) = digits_val s"
  by (induction k) simp_all

lemma digits_val_bound: "list_all is_digit s \<Longrightarrow> digits_val s < 10 ^ length s"
proof (induction s)
  case (Cons c s)
  then have "digit_val c \<le> 9" "digits_val s < 10 ^ length s"
    using digit_val_less [of c] by auto
  then have "digit_val c * 10 ^ length s + digits_val s < 9 * 10 ^ length s + 10 ^ length s"
    by (intro add_le_less_mono mult_right_mono) auto
  then show ?case by simp
qed simp

lemma digits_lex_mono:
  "length s = length t \<Longrightarrow> list_all is_digit s \<Longrightarrow> list_all is_digit t \<Longrightarrow>
   s < t \<longleftrightarrow> digits_val s < digits_val t"
proof (induction s t rule: list_induct2)
  case (Cons c s d t)
  let ?p = "10 ^ length t :: nat"
  have b: "digits_val s < ?p" "digits_val t < ?p"
    using Cons digits_val_bound by fastforce+
  have lt: "x < y \<Longrightarrow> x * ?p + u < y * ?p + v" if "u < ?p" for x y u v :: nat
  proof -
    assume "x < y"
    then have "(x + 1) * ?p \<le> y * ?p" by (intro mult_right_mono) auto
    with that show ?thesis by simp
  qed
  consider "c = d" | "c < d" "digit_val c < digit_val d" | "d < c" "digit_val d < digit_val c"
    using Cons.prems digit_val_mono [of c d] digit_val_mono [of d c] by (cases c d rule: linorder_cases) auto
  then show ?case
    using Cons b lt [of "digits_val s" "digit_val c" "digit_val d" "digits_val t"]
      lt [of "digits_val t" "digit_val d" "digit_val c" "digits_val s"]
    by cases (auto simp: Cons_less_Cons)
qed simp

lemma show_nat_digits: "list_all is_digit (show_nat n)"
proof (induction n rule: show_nat.induct)
  case (1 n)
  then show ?case by (subst show_nat.simps) simp
qed

lemma show_nat_nonempty [simp]: "show_nat n \<noteq> []"
  by (subst show_nat.simps) simp

lemma digits_val_show_nat [simp]: "digits_val (show_nat n) = n"
proof (induction n rule: show_nat.induct)
  case (1 n)
  then show ?case by (subst show_nat.simps) simp
qed

lemma length_show_nat: "n < 10 ^ w \<Longrightarrow> 0 < w \<Longrightarrow> length (show_nat n) \<le> w"
proof (induction w arbitrary: n)
  case (Suc w)
  show ?case
  proof (cases "n < 10")
    case True
    then show ?thesis by (subst show_nat.simps) simp
  next
    case False
    with Suc.prems have "w \<noteq> 0" by (cases w) auto
    moreover have "n div 10 < 10 ^ w" using Suc.prems by (simp add: less_mult_imp_div_less mult.commute)
    ultimately have "length (show_nat (n div 10)) \<le> w" using Suc.IH by simp
    with False show ?thesis by (subst show_nat.simps) simp
  qed
qed simp

lemma pad0_digits: "list_all is_digit (pad0 w n)"
  using show_nat_digits [of n] by (auto simp: pad0_def list_all_iff)

lemma pad0_nonempty [simp]: "pad0 w n \<noteq> []"
  by (simp add: pad0_def)

lemma digits_val_pad0 [simp]: "digits_val (pad0 w n) = n"
  by (simp add: pad0_def)

lemma length_pad0: "n < 10 ^ w \<Longrightarrow> 0 < w \<Longrightarrow> length (pad0 w n) = w"
  using length_show_nat [of n w] by (simp add: pad0_def)

lemma pad0_less:
  "m < 10 ^ w \<Longrightarrow> n < 10 ^ w \<Longrightarrow> 0 < w \<Longrightarrow> pad0 w m < pad0 w n \<longleftrightarrow> m < n"
  by (simp add: digits_lex_mono length_pad0 pad0_digits)

lemma pad0_inj: "pad0 w m = pad0 w n \<longleftrightarrow> m = n"
  by (metis digits_val_pad0)

lemma show_nat_inj: "show_nat m = show_nat n \<longleftrightarrow> m = n"
  by (metis digits_val_show_nat)

lemma parse_uint_digits:
  "s \<noteq> [] \<Longrightarrow> list_all is_digit s \<Longrightarrow>
   parse_uint mx s = (if digits_val s \<le> mx then Some (digits_val s) else None)"
  by (cases s) (auto simp: parse_uint_def parse_digits_def is_digit_def)

lemma parse_uint_pad0 [simp]: "n \<le> mx \<Longrightarrow> parse_uint mx (pad0 w n) = Some n"
  by (simp add: parse_uint_digits pad0_digits)

lemma parse_uint_show_nat [simp]: "n \<le> mx \<Longrightarrow> parse_uint mx (show_nat n) = Some n"
  by (simp add: parse_uint_digits show_nat_digits)

lemma parse_uint_bound: "parse_uint mx s = Some n \<Longrightarrow> n \<le> mx"
  by (auto simp: parse_uint_def parse_digits_def split: list.splits if_splits)

section \<open>Splitting and trimming\<close>

text \<open>\<open>str::split(c)\<close>, \<open>strip_suffix\<close>, \<open>trim_end_matches\<close>, \<open>split_once\<close>, \<open>find\<close>, \<open>contains\<close>.\<close>

fun split_on :: "char \<Rightarrow> string \<Rightarrow> string list" where
  "split_on c [] = [[]]"
| "split_on c (x # s) =
     (if x = c then [] # split_on c s
      else case split_on c s of [] \<Rightarrow> [[x]] | p # ps \<Rightarrow> (x # p) # ps)"

definition strip_suffix :: "string \<Rightarrow> string \<Rightarrow> string option" where
  "strip_suffix suf s =
     (if suffix suf s then Some (take (length s - length suf) s) else None)"

function trim_end_matches :: "string \<Rightarrow> string \<Rightarrow> string" where
  "trim_end_matches suf s =
     (if suf \<noteq> [] \<and> suffix suf s then trim_end_matches suf (take (length s - length suf) s) else s)"
  by pat_completeness auto
termination
proof (relation "measure (\<lambda>(suf, s). length s)")
  fix suf s :: string
  assume "suf \<noteq> [] \<and> suffix suf s"
  then have "0 < length suf" "length suf \<le> length s" by (auto simp: suffix_length_le)
  then have "length s - length suf < length s" by linarith
  then show "((suf, take (length s - length suf) s), (suf, s)) \<in> measure (\<lambda>(suf, s). length s)"
    by simp
qed simp

declare trim_end_matches.simps [simp del]

fun split_once :: "char \<Rightarrow> string \<Rightarrow> (string \<times> string) option" where
  "split_once c [] = None"
| "split_once c (x # s) =
     (if x = c then Some ([], s)
      else map_option (\<lambda>(a, b). (x # a, b)) (split_once c s))"

fun find_sub :: "string \<Rightarrow> string \<Rightarrow> nat option" where
  "find_sub pat s =
     (if prefix pat s then Some 0
      else case s of [] \<Rightarrow> None | _ # s' \<Rightarrow> map_option Suc (find_sub pat s'))"

declare find_sub.simps [simp del]

definition contains_sub :: "string \<Rightarrow> string \<Rightarrow> bool" where
  "contains_sub pat s \<longleftrightarrow> find_sub pat s \<noteq> None"

lemma split_on_nonempty [simp]: "split_on c s \<noteq> []"
  by (induction c s rule: split_on.induct) (auto split: list.splits)

lemma split_on_none: "c \<notin> set s \<Longrightarrow> split_on c s = [s]"
  by (induction s) auto

lemma split_on_append: "c \<notin> set a \<Longrightarrow> split_on c (a @ c # b) = a # split_on c b"
  by (induction a) auto

lemma split_on_pieces: "p \<in> set (split_on c s) \<Longrightarrow> c \<notin> set p"
proof (induction c s arbitrary: p rule: split_on.induct)
  case (2 c x s)
  then show ?case by (cases "split_on c s") (auto split: if_splits)
qed simp

lemma hd_split_on: "hd (split_on c s) = takeWhile (\<lambda>x. x \<noteq> c) s"
proof (induction c s rule: split_on.induct)
  case (2 c x s)
  then show ?case by (cases "split_on c s") (use split_on_nonempty in auto)
qed simp

lemma length_split_on: "length (split_on c s) = Suc (count_list s c)"
proof (induction c s rule: split_on.induct)
  case (2 c x s)
  then show ?case by (cases "split_on c s") (auto simp del: split_on_nonempty)
qed simp

lemma last_split_on: "c \<notin> set b \<Longrightarrow> last (split_on c (a @ c # b)) = b"
proof (induction a)
  case Nil
  then show ?case by (simp add: split_on_none)
next
  case (Cons x a)
  have "2 \<le> length (split_on c (a @ c # b))" by (simp add: length_split_on)
  then obtain p q ps where "split_on c (a @ c # b) = p # q # ps"
    by (cases "split_on c (a @ c # b)" rule: remdups_adj.cases) auto
  with Cons show ?case by simp
qed

lemma suffix_append_self [simp]: "suffix suf (s @ suf)"
  by (auto simp: suffix_def)

lemma strip_suffix_append [simp]: "strip_suffix suf (s @ suf) = Some s"
  by (simp add: strip_suffix_def)

lemma strip_suffix_Some: "strip_suffix suf s = Some r \<longleftrightarrow> s = r @ suf"
  by (auto simp: strip_suffix_def suffix_def split: if_splits)

lemma trim_end_matches_append:
  "suf \<noteq> [] \<Longrightarrow> \<not> suffix suf s \<Longrightarrow> trim_end_matches suf (s @ suf) = s"
  by (subst trim_end_matches.simps, simp) (subst trim_end_matches.simps, simp)

lemma digits_no_suffix:
  "list_all is_digit s \<Longrightarrow> suf \<noteq> [] \<Longrightarrow> \<not> is_digit (last suf) \<Longrightarrow> \<not> suffix suf s"
  by (auto simp: suffix_def list_all_iff)

lemma trim_digits:
  "list_all is_digit s \<Longrightarrow> suf \<noteq> [] \<Longrightarrow> \<not> is_digit (last suf) \<Longrightarrow>
   trim_end_matches suf (s @ suf) = s"
  by (simp add: trim_end_matches_append digits_no_suffix)

lemma split_once_append: "c \<notin> set a \<Longrightarrow> split_once c (a @ c # b) = Some (a, b)"
  by (induction a) auto

lemma split_once_none: "c \<notin> set s \<Longrightarrow> split_once c s = None"
  by (induction s) auto

lemma digits_not_in: "list_all is_digit s \<Longrightarrow> \<not> is_digit c \<Longrightarrow> c \<notin> set s"
  by (auto simp: list_all_iff)

lemma contains_sub_iff: "contains_sub pat s \<longleftrightarrow> sublist pat s"
proof (induction s)
  case Nil
  then show ?case by (simp add: contains_sub_def find_sub.simps [of pat "[]"])
next
  case (Cons x s)
  then show ?case
    by (auto simp: contains_sub_def find_sub.simps [of pat "x # s"] sublist_Cons_right)
qed

lemma find_sub_Some:
  "find_sub pat s = Some i \<Longrightarrow> i \<le> length s \<and> prefix pat (drop i s)"
proof (induction s arbitrary: i)
  case Nil
  then show ?case by (simp add: find_sub.simps [of pat "[]"] split: if_splits)
next
  case (Cons x s)
  then show ?case
    by (auto simp: find_sub.simps [of pat "x # s"] split: if_splits)
qed

lemma find_sub_first:
  "find_sub pat s = Some i \<Longrightarrow> j < i \<Longrightarrow> \<not> prefix pat (drop j s)"
proof (induction s arbitrary: i j)
  case Nil
  then show ?case by (simp add: find_sub.simps [of pat "[]"] split: if_splits)
next
  case (Cons x s)
  then show ?case
    by (cases j) (auto simp: find_sub.simps [of pat "x # s"] split: if_splits)
qed

section \<open>Order of concatenations\<close>

lemma append_less_same: "(a @ s :: string) < a @ t \<longleftrightarrow> s < t"
  by (induction a) simp_all

lemma less_append_same_length:
  "length a = length b \<Longrightarrow> (a @ s :: string) < b @ s \<longleftrightarrow> a < b"
  by (induction a b rule: list_induct2) auto

end
