(* ===== verification/Gen1_Duration.thy ===== *)
theory Gen1_Duration
  imports Rust_Strings
begin

text \<open>
  \<open>Gen1Duration\<close> of influxdb3_wal/src/lib.rs: the width of the time chunks that data is persisted
  in. A \<open>std::time::Duration\<close> is its number of nanoseconds. The rounding contract that the chunk
  times of the WAL, of the snapshot tracker and of the compactor share is the locale \<open>time_bucket\<close>.
\<close>

type_synonym duration = nat

definition nanos_per_sec :: nat where "nanos_per_sec = 1000000000"

definition from_secs :: "nat \<Rightarrow> duration" where "from_secs s = s * nanos_per_sec"
definition as_secs :: "duration \<Rightarrow> nat" where "as_secs d = d div nanos_per_sec"
definition as_millis :: "duration \<Rightarrow> nat" where "as_millis d = d div 1000000"

datatype gen1_duration = Gen1Duration duration

datatype gen1_error = InvalidGen1Duration string

fun gen1_as_duration :: "gen1_duration \<Rightarrow> duration" where
  "gen1_as_duration (Gen1Duration d) = d"

definition gen1_as_nanos :: "gen1_duration \<Rightarrow> int" where
  "gen1_as_nanos g = i64_wrap (int (gen1_as_duration g))"

definition duration_seconds :: "gen1_duration \<Rightarrow> int" where
  "duration_seconds g = i64_wrap (int (as_secs (gen1_as_duration g)))"

definition chunk_time_for_timestamp :: "gen1_duration \<Rightarrow> int \<Rightarrow> int" where
  "chunk_time_for_timestamp g t = i64_wrap (t - t smod gen1_as_nanos g)"

text \<open>\<open>from_timestamp\<close> stands for \<open>Time::from_timestamp(_, 0)\<close>, whose range is the time library's.\<close>

definition start_time :: "(int \<Rightarrow> 'time option) \<Rightarrow> gen1_duration \<Rightarrow> int \<Rightarrow> 'time panicking" where
  "start_time from_timestamp g timestamp_seconds =
     (let ds = duration_seconds g;
          rounded = i64_wrap (timestamp_seconds sdiv ds * ds)
      in case from_timestamp rounded of
           None \<Rightarrow> Inl (Panic ''called Option::unwrap() on a None value'')
         | Some t \<Rightarrow> Inr t)"

definition gen1_names :: "(string \<times> nat) list" where
  "gen1_names =
     [(''1m'', 60), (''5m'', 300), (''10m'', 600), (''30m'', 1800), (''1h'', 3600),
      (''6h'', 21600), (''12h'', 43200), (''1d'', 86400), (''7d'', 604800),
      (''30d'', 2592000), (''90d'', 7776000), (''365d'', 31536000)]"

definition gen1_from_str :: "string \<Rightarrow> gen1_error + gen1_duration" where
  "gen1_from_str s =
     (case map_of gen1_names s of
        Some secs \<Rightarrow> Inr (Gen1Duration (from_secs secs))
      | None \<Rightarrow> Inl (InvalidGen1Duration s))"

definition gen1_try_from :: "duration \<Rightarrow> gen1_error + gen1_duration" where
  "gen1_try_from dur =
     (if as_secs dur \<in> set [60, 300, 600, 1800, 3600, 21600, 43200, 86400, 604800, 2592000,
                             7776000, 31536000]
      then Inr (Gen1Duration dur)
      else Inl (InvalidGen1Duration (show_nat (as_secs dur))))"

definition gen1_default :: gen1_duration where
  "gen1_default = Gen1Duration (from_secs 600)"

text \<open>A duration that a constructor of the type can produce.\<close>

definition gen1_valid :: "gen1_duration \<Rightarrow> bool" where
  "gen1_valid g \<longleftrightarrow>
     60 \<le> as_secs (gen1_as_duration g) \<and> as_secs (gen1_as_duration g) \<le> 31536000"

lemma as_secs_bounds: "as_secs d * nanos_per_sec \<le> d" "d < (as_secs d + 1) * nanos_per_sec"
  by (simp_all add: as_secs_def nanos_per_sec_def dividend_less_div_times)

lemma gen1_valid_nanos:
  assumes "gen1_valid g"
  shows "gen1_as_nanos g = int (gen1_as_duration g)"
    and "60000000000 \<le> gen1_as_nanos g" and "gen1_as_nanos g < 31536001000000000"
proof -
  let ?d = "gen1_as_duration g"
  have "60 * nanos_per_sec \<le> ?d" "?d < 31536001 * nanos_per_sec"
    using assms as_secs_bounds [of ?d] by (auto simp: gen1_valid_def nanos_per_sec_def)
  then have b: "60000000000 \<le> ?d" "?d < 31536001000000000"
    by (simp_all add: nanos_per_sec_def)
  then show e: "gen1_as_nanos g = int ?d"
    unfolding gen1_as_nanos_def by (intro i64_wrap_exact) (simp add: i64_defs)
  from b show "60000000000 \<le> gen1_as_nanos g" "gen1_as_nanos g < 31536001000000000"
    by (simp_all add: e)
qed

lemma gen1_from_str_valid: "gen1_from_str s = Inr g \<Longrightarrow> gen1_valid g"
  by (auto simp: gen1_from_str_def gen1_names_def gen1_valid_def from_secs_def as_secs_def
      nanos_per_sec_def split: if_splits)

lemma gen1_try_from_valid: "gen1_try_from d = Inr g \<Longrightarrow> gen1_valid g"
  by (auto simp: gen1_try_from_def gen1_valid_def split: if_splits)

lemma gen1_default_valid: "gen1_valid gen1_default"
  by (simp add: gen1_valid_def gen1_default_def from_secs_def as_secs_def nanos_per_sec_def)

lemma gen1_default_nanos: "gen1_as_nanos gen1_default = 600000000000"
  by (simp add: gen1_as_nanos_def gen1_default_def from_secs_def nanos_per_sec_def i64_wrap_def)

section \<open>The rounding contract\<close>

locale time_bucket =
  fixes bucket :: "'d \<Rightarrow> int \<Rightarrow> int"
    and width :: "'d \<Rightarrow> int"
    and valid :: "'d \<Rightarrow> bool"
  assumes width_pos: "valid d \<Longrightarrow> 0 < width d"
    and bucket_dvd: "valid d \<Longrightarrow> in_i64 t \<Longrightarrow> width d dvd bucket d t"
    and bucket_close: "valid d \<Longrightarrow> in_i64 t \<Longrightarrow> \<bar>t - bucket d t\<bar> < width d"
    and bucket_to_zero: "valid d \<Longrightarrow> in_i64 t \<Longrightarrow> \<bar>bucket d t\<bar> \<le> \<bar>t\<bar> \<and> 0 \<le> t * bucket d t"
begin

lemma bucket_covers:
  assumes "valid d" "in_i64 t" "0 \<le> t"
  shows "bucket d t \<le> t" "t < bucket d t + width d" "0 \<le> bucket d t"
  using bucket_close [OF assms(1,2)] bucket_to_zero [OF assms(1,2)] assms(3)
  by (auto simp: zero_le_mult_iff)

lemma bucket_neg:
  assumes "valid d" "in_i64 t" "t < 0"
  shows "t \<le> bucket d t" "bucket d t - width d < t" "bucket d t \<le> 0"
  using bucket_close [OF assms(1,2)] bucket_to_zero [OF assms(1,2)] assms(3)
  by (auto simp: zero_le_mult_iff)

lemma bucket_zero_iff: "valid d \<Longrightarrow> in_i64 t \<Longrightarrow> bucket d t = 0 \<longleftrightarrow> \<bar>t\<bar> < width d"
proof
  assume a: "valid d" "in_i64 t"
  { assume "bucket d t = 0"
    with bucket_close [OF a] show "\<bar>t\<bar> < width d" by simp }
  assume "\<bar>t\<bar> < width d"
  then have "\<bar>bucket d t\<bar> < width d" using bucket_to_zero [OF a] by linarith
  with bucket_dvd [OF a] show "bucket d t = 0"
    by (metis abs_dvd_iff dvd_abs_iff zdvd_not_zless zero_less_abs_iff)
qed

lemma bucket_range: "valid d \<Longrightarrow> in_i64 t \<Longrightarrow> in_i64 (bucket d t)"
  using bucket_to_zero [of d t] by (cases "0 \<le> t") (auto simp: i64_defs zero_le_mult_iff)

lemma bucket_unique:
  assumes "valid d" "in_i64 t" "0 \<le> t" "width d dvd b" "b \<le> t" "t < b + width d"
  shows "bucket d t = b"
proof -
  have "\<bar>bucket d t - b\<bar> < width d" using bucket_covers [OF assms(1-3)] assms(5,6) by linarith
  moreover have "width d dvd bucket d t - b" using assms(1,2,4) bucket_dvd by auto
  ultimately show ?thesis
    by (metis abs_dvd_iff dvd_abs_iff eq_iff_diff_eq_0 zdvd_not_zless zero_less_abs_iff)
qed

end

lemma trunc_to_contract:
  assumes "0 < d"
  shows "d dvd trunc_to d t" "\<bar>t - trunc_to d t\<bar> < d" "\<bar>trunc_to d t\<bar> \<le> \<bar>t\<bar>"
    "0 \<le> t * trunc_to d t" "in_i64 t \<Longrightarrow> in_i64 (trunc_to d t)"
proof -
  show "d dvd trunc_to d t" using assms by (rule trunc_to_dvd)
  show c: "\<bar>t - trunc_to d t\<bar> < d" "\<bar>trunc_to d t\<bar> \<le> \<bar>t\<bar>" using assms by (rule trunc_to_bounds)+
  show z: "0 \<le> t * trunc_to d t"
    using assms
    by (cases "0 \<le> t")
       (auto simp: trunc_to_nonneg trunc_to_neg zero_le_mult_iff mult_le_0_iff
          pos_imp_zdiv_nonneg_iff)
  show "in_i64 t \<Longrightarrow> in_i64 (trunc_to d t)"
    using c z by (cases "0 \<le> t") (auto simp: i64_defs zero_le_mult_iff)
qed

lemma chunk_time_eq:
  "gen1_valid g \<Longrightarrow> in_i64 t \<Longrightarrow> chunk_time_for_timestamp g t = trunc_to (gen1_as_nanos g) t"
  using gen1_valid_nanos [of g] trunc_to_contract(5) [of "gen1_as_nanos g" t]
  by (simp add: chunk_time_for_timestamp_def trunc_to_def i64_wrap_exact)

interpretation gen1_bucket: time_bucket chunk_time_for_timestamp gen1_as_nanos gen1_valid
proof
  fix g t
  assume v: "gen1_valid g"
  then show pos: "0 < gen1_as_nanos g" using gen1_valid_nanos [of g] by simp
  assume "in_i64 t"
  with v have e: "chunk_time_for_timestamp g t = trunc_to (gen1_as_nanos g) t"
    by (rule chunk_time_eq)
  note trunc_to_contract [OF pos, of t]
  then show "gen1_as_nanos g dvd chunk_time_for_timestamp g t"
    "\<bar>t - chunk_time_for_timestamp g t\<bar> < gen1_as_nanos g"
    "\<bar>chunk_time_for_timestamp g t\<bar> \<le> \<bar>t\<bar> \<and> 0 \<le> t * chunk_time_for_timestamp g t"
    unfolding e by simp_all
qed

section \<open>Properties\<close>

text \<open>
  Chunk times tile the non-negative time axis: for a duration any constructor accepts and a
  non-negative timestamp, the chunk time is the unique multiple of the duration whose half-open
  window contains the timestamp.
\<close>

theorem chunk_time_tiles:
  assumes "gen1_valid g" "in_i64 t" "0 \<le> t"
  shows "gen1_as_nanos g dvd b \<and> b \<le> t \<and> t < b + gen1_as_nanos g \<longleftrightarrow>
         b = chunk_time_for_timestamp g t"
  using assms gen1_bucket.bucket_unique [OF assms] gen1_bucket.bucket_covers [OF assms]
    gen1_bucket.bucket_dvd [OF assms(1,2)]
  by metis

theorem chunk_time_tiles_witness:
  "chunk_time_for_timestamp gen1_default 1500000000000 = 1200000000000"
proof -
  note n = gen1_default_nanos
  have "in_i64 1500000000000" by (simp add: i64_defs)
  from chunk_time_tiles [OF gen1_default_valid this, of 1200000000000]
  show ?thesis by (simp add: n)
qed

text \<open>
  The chunk at time zero is twice as wide as every other one: rounding is towards zero, so the
  chunk time is zero exactly for the timestamps less than one duration away from zero on either
  side, and a negative timestamp belongs to the chunk that starts at or after it.
\<close>

theorem chunk_time_zero_bucket:
  assumes "gen1_valid g" "in_i64 t"
  shows "(chunk_time_for_timestamp g t = 0 \<longleftrightarrow> \<bar>t\<bar> < gen1_as_nanos g) \<and>
         (t < 0 \<longrightarrow> t \<le> chunk_time_for_timestamp g t)"
  using gen1_bucket.bucket_zero_iff [OF assms] gen1_bucket.bucket_neg(1) [OF assms] by blast

theorem chunk_time_zero_bucket_witness:
  "chunk_time_for_timestamp gen1_default (-1) = 0 \<and> chunk_time_for_timestamp gen1_default 1 = 0"
proof -
  note n = gen1_default_nanos
  have "in_i64 (-1)" "in_i64 1" by (simp_all add: i64_defs)
  then show ?thesis
    using chunk_time_zero_bucket [OF gen1_default_valid, of "-1"]
      chunk_time_zero_bucket [OF gen1_default_valid, of 1]
    by (simp add: n)
qed

text \<open>
  A configured duration string is accepted exactly when it is one of the twelve documented
  names, and an accepted one always yields a duration of between one minute and 365 days that the
  checked conversion from a \<open>Duration\<close> accepts unchanged.
\<close>

theorem gen1_from_str_accepts:
  "(\<exists>g. gen1_from_str s = Inr g \<and> gen1_valid g \<and> gen1_try_from (gen1_as_duration g) = Inr g) \<longleftrightarrow>
   s \<in> set [''1m'', ''5m'', ''10m'', ''30m'', ''1h'', ''6h'', ''12h'', ''1d'', ''7d'', ''30d'',
           ''90d'', ''365d'']"
proof
  assume "\<exists>g. gen1_from_str s = Inr g \<and> gen1_valid g \<and> gen1_try_from (gen1_as_duration g) = Inr g"
  then show "s \<in> set [''1m'', ''5m'', ''10m'', ''30m'', ''1h'', ''6h'', ''12h'', ''1d'', ''7d'',
      ''30d'', ''90d'', ''365d'']"
    by (auto simp: gen1_from_str_def gen1_names_def split: if_splits)
next
  assume s: "s \<in> set [''1m'', ''5m'', ''10m'', ''30m'', ''1h'', ''6h'', ''12h'', ''1d'', ''7d'',
      ''30d'', ''90d'', ''365d'']"
  then obtain n where n: "map_of gen1_names s = Some n" by (auto simp: gen1_names_def)
  then have v: "gen1_from_str s = Inr (Gen1Duration (from_secs n))" by (simp add: gen1_from_str_def)
  from n have "n \<in> snd ` set gen1_names" by (force dest: map_of_SomeD)
  then have "gen1_try_from (from_secs n) = Inr (Gen1Duration (from_secs n))"
    by (auto simp: gen1_names_def gen1_try_from_def as_secs_def from_secs_def nanos_per_sec_def)
  with v gen1_from_str_valid [OF v] show "\<exists>g. gen1_from_str s = Inr g \<and> gen1_valid g \<and>
      gen1_try_from (gen1_as_duration g) = Inr g"
    by simp
qed

end
