(* ===== verification/Wal_Types.thy ===== *)
theory Wal_Types
  imports Gen1_Duration
begin

text \<open>
  The data the WAL carries (influxdb3_wal/src/lib.rs): field values, rows, the chunks of a table
  keyed by chunk time, the write batch of one database, WAL file contents, sequence numbers and
  snapshot details, with the operations that build and merge them. Bit patterns stand for floats.
\<close>

section \<open>Field values and rows\<close>

text \<open>An \<open>f64\<close> is its 64-bit pattern; \<open>==\<close> on it is the IEEE comparison.\<close>

definition f64_is_nan :: "nat \<Rightarrow> bool" where
  "f64_is_nan b \<longleftrightarrow> 2047 * 2 ^ 52 < b mod 2 ^ 63"

definition f64_eq :: "nat \<Rightarrow> nat \<Rightarrow> bool" where
  "f64_eq a b \<longleftrightarrow> \<not> f64_is_nan a \<and> \<not> f64_is_nan b \<and>
     (a = b \<or> a mod 2 ^ 63 = 0 \<and> b mod 2 ^ 63 = 0)"

datatype field_data =
    FTimestamp int
  | FKey string
  | FTag string
  | FString string
  | FInteger int
  | FUInteger nat
  | FFloat nat
  | FBoolean bool

fun field_data_eq :: "field_data \<Rightarrow> field_data \<Rightarrow> bool" where
  "field_data_eq (FTimestamp a) (FTimestamp b) = (a = b)"
| "field_data_eq (FTag a) (FTag b) = (a = b)"
| "field_data_eq (FString a) (FString b) = (a = b)"
| "field_data_eq (FInteger a) (FInteger b) = (a = b)"
| "field_data_eq (FUInteger a) (FUInteger b) = (a = b)"
| "field_data_eq (FFloat a) (FFloat b) = f64_eq a b"
| "field_data_eq (FBoolean a) (FBoolean b) = (a = b)"
| "field_data_eq _ _ = False"

datatype field_value =
    VI64 int
  | VU64 nat
  | VF64 nat
  | VString string
  | VBoolean bool

fun field_data_from :: "field_value \<Rightarrow> field_data" where
  "field_data_from (VI64 v) = FInteger v"
| "field_data_from (VU64 v) = FUInteger v"
| "field_data_from (VF64 v) = FFloat v"
| "field_data_from (VString v) = FString v"
| "field_data_from (VBoolean v) = FBoolean v"

record field =
  field_id :: nat
  field_val :: field_data

record row =
  row_time :: int
  row_fields :: "field list"

section \<open>Table chunks\<close>

record table_chunk =
  chunk_rows :: "row list"

definition table_chunk_default :: table_chunk where
  "table_chunk_default = \<lparr> chunk_rows = [] \<rparr>"

record table_chunks =
  tc_min_time :: int
  tc_max_time :: int
  chunk_time_to_chunk :: "(int \<times> table_chunk) list"

definition table_chunks_default :: table_chunks where
  "table_chunks_default =
     \<lparr> tc_min_time = i64_max, tc_max_time = i64_min, chunk_time_to_chunk = [] \<rparr>"

definition extend_rows :: "row list \<Rightarrow> table_chunk \<Rightarrow> table_chunk" where
  "extend_rows rs c = c \<lparr> chunk_rows := chunk_rows c @ rs \<rparr>"

definition push_row :: "int \<Rightarrow> row \<Rightarrow> table_chunks \<Rightarrow> table_chunks" where
  "push_row chunk_time r tc =
     tc \<lparr> tc_min_time := min (tc_min_time tc) (row_time r),
          tc_max_time := max (tc_max_time tc) (row_time r),
          chunk_time_to_chunk :=
            entry_upd chunk_time table_chunk_default (extend_rows [r]) (chunk_time_to_chunk tc) \<rparr>"

definition row_count :: "table_chunks \<Rightarrow> nat" where
  "row_count tc = sum_list (map (\<lambda>(_, c). length (chunk_rows c)) (chunk_time_to_chunk tc))"

section \<open>Write batches\<close>

record write_batch =
  catalog_sequence :: nat
  database_id :: nat
  database_name :: string
  wb_table_chunks :: "(nat \<times> table_chunks) list"
  wb_min_time_ns :: int
  wb_max_time_ns :: int

definition write_batch_new ::
    "nat \<Rightarrow> nat \<Rightarrow> string \<Rightarrow> (nat \<times> table_chunks) list \<Rightarrow> write_batch" where
  "write_batch_new cs db name tcs =
     (let (mn, mx) = foldl (\<lambda>(mn, mx) (_, tc). (min mn (tc_min_time tc), max mx (tc_max_time tc)))
                       (i64_max, i64_min) tcs
      in \<lparr> catalog_sequence = cs, database_id = db, database_name = name,
           wb_table_chunks = tcs, wb_min_time_ns = mn, wb_max_time_ns = mx \<rparr>)"

text \<open>The inner loop of \<open>add_write_batch\<close>: one incoming chunk merged into the table's chunks.\<close>

definition merge_chunk :: "table_chunks \<Rightarrow> int \<times> table_chunk \<Rightarrow> table_chunks" where
  "merge_chunk tc ct_chunk =
     (case ct_chunk of (chunk_time, new_chunk) \<Rightarrow>
        (let tc = foldl (\<lambda>tc r. tc \<lparr> tc_min_time := min (tc_min_time tc) (row_time r),
                                    tc_max_time := max (tc_max_time tc) (row_time r) \<rparr>)
                    tc (chunk_rows new_chunk)
         in tc \<lparr> chunk_time_to_chunk :=
                  entry_upd chunk_time table_chunk_default (extend_rows (chunk_rows new_chunk))
                    (chunk_time_to_chunk tc) \<rparr>))"

definition merge_chunks :: "table_chunks \<Rightarrow> table_chunks \<Rightarrow> table_chunks" where
  "merge_chunks new_chunks chunks = foldl merge_chunk chunks (chunk_time_to_chunk new_chunks)"

definition add_write_batch ::
    "(nat \<times> table_chunks) list \<Rightarrow> int \<Rightarrow> int \<Rightarrow> write_batch \<Rightarrow> write_batch" where
  "add_write_batch new_table_chunks mn mx wb =
     wb \<lparr> wb_min_time_ns := min (wb_min_time_ns wb) mn,
          wb_max_time_ns := max (wb_max_time_ns wb) mx,
          wb_table_chunks :=
            foldl (\<lambda>m (t, new_chunks). entry_upd t table_chunks_default (merge_chunks new_chunks) m)
              (wb_table_chunks wb) new_table_chunks \<rparr>"

section \<open>WAL files\<close>

type_synonym wal_file_sequence_number = nat
type_synonym snapshot_sequence_number = nat

definition seq_next :: "nat \<Rightarrow> nat" where
  "seq_next n = u64_add n 1"

datatype wal_op = Write write_batch | Noop int

fun as_write :: "wal_op \<Rightarrow> write_batch option" where
  "as_write (Write w) = Some w"
| "as_write (Noop _) = None"

record snapshot_details =
  sd_snapshot_sequence_number :: snapshot_sequence_number
  end_time_marker :: int
  first_wal_sequence_number :: wal_file_sequence_number
  last_wal_sequence_number :: wal_file_sequence_number
  forced :: bool

record wal_contents =
  persist_timestamp_ms :: int
  wc_min_timestamp_ns :: int
  wc_max_timestamp_ns :: int
  wal_file_number :: wal_file_sequence_number
  wal_ops :: "wal_op list"
  wal_snapshot :: "snapshot_details option"

definition wal_contents_is_empty :: "wal_contents \<Rightarrow> bool" where
  "wal_contents_is_empty c \<longleftrightarrow> wal_ops c = [] \<and> wal_snapshot c = None"

section \<open>What the structures hold\<close>

definition tc_rows :: "table_chunks \<Rightarrow> row list" where
  "tc_rows tc = flat_vals chunk_rows (chunk_time_to_chunk tc)"

definition chunk_rows_at :: "table_chunks \<Rightarrow> int \<Rightarrow> row list" where
  "chunk_rows_at tc ct = chunk_rows (the_or table_chunk_default (map_of (chunk_time_to_chunk tc) ct))"

definition batch_table :: "write_batch \<Rightarrow> nat \<Rightarrow> table_chunks" where
  "batch_table wb t = the_or table_chunks_default (map_of (wb_table_chunks wb) t)"

definition batch_rows :: "write_batch \<Rightarrow> row list" where
  "batch_rows wb = flat_vals tc_rows (wb_table_chunks wb)"

text \<open>
  The invariants: keys are distinct and the time bounds are exactly the extreme row times (with
  the extreme \<open>i64\<close> values when there is no row).
\<close>

definition times_ok :: "row list \<Rightarrow> int \<Rightarrow> int \<Rightarrow> bool" where
  "times_ok rs mn mx \<longleftrightarrow>
     mn = fold min (map row_time rs) i64_max \<and> mx = fold max (map row_time rs) i64_min"

definition table_chunks_ok :: "table_chunks \<Rightarrow> bool" where
  "table_chunks_ok tc \<longleftrightarrow> keys_distinct (chunk_time_to_chunk tc) \<and>
     times_ok (tc_rows tc) (tc_min_time tc) (tc_max_time tc)"

definition write_batch_ok :: "write_batch \<Rightarrow> bool" where
  "write_batch_ok wb \<longleftrightarrow> keys_distinct (wb_table_chunks wb) \<and>
     list_all (\<lambda>(_, tc). table_chunks_ok tc) (wb_table_chunks wb) \<and>
     times_ok (batch_rows wb) (wb_min_time_ns wb) (wb_max_time_ns wb)"

lemma times_ok_Min_Max:
  "times_ok rs mn mx \<longleftrightarrow>
     mn = Min (insert i64_max (row_time ` set rs)) \<and> mx = Max (insert i64_min (row_time ` set rs))"
  using Min.set_eq_fold [of i64_max "map row_time rs"] Max.set_eq_fold [of i64_min "map row_time rs"]
  by (simp add: times_ok_def)

lemma times_ok_union:
  assumes "times_ok rs mn mx" "times_ok rs' mn' mx'" "set rs'' = set rs \<union> set rs'"
  shows "times_ok rs'' (min mn mn') (max mx mx')"
proof -
  have m: "insert a (row_time ` set rs'') =
      insert a (row_time ` set rs) \<union> insert a (row_time ` set rs')" for a
    using assms(3) by auto
  show ?thesis
    using assms(1,2) unfolding times_ok_Min_Max m
    by (simp add: Min.union [symmetric] Max.union [symmetric] del: Un_insert_left Un_insert_right)
qed

lemma times_ok_cong: "set rs = set rs' \<Longrightarrow> times_ok rs mn mx = times_ok rs' mn mx"
  by (simp add: times_ok_Min_Max)

lemma times_ok_bounds: "times_ok rs mn mx \<Longrightarrow> r \<in> set rs \<Longrightarrow> mn \<le> row_time r \<and> row_time r \<le> mx"
  by (simp add: times_ok_Min_Max)

section \<open>Building and merging keep the invariants\<close>

lemma table_chunks_default_ok [simp]: "table_chunks_ok table_chunks_default"
  by (simp add: table_chunks_ok_def table_chunks_default_def keys_distinct_def tc_rows_def times_ok_def)

lemma tc_rows_default [simp]: "tc_rows table_chunks_default = []"
  by (simp add: table_chunks_default_def tc_rows_def)

text \<open>Folding row times into the bounds, one row after the other.\<close>

definition track_time :: "table_chunks \<Rightarrow> row \<Rightarrow> table_chunks" where
  "track_time tc r = tc \<lparr> tc_min_time := min (tc_min_time tc) (row_time r),
                          tc_max_time := max (tc_max_time tc) (row_time r) \<rparr>"

lemma foldl_track_time:
  "foldl track_time tc rs =
     tc \<lparr> tc_min_time := fold min (map row_time rs) (tc_min_time tc),
          tc_max_time := fold max (map row_time rs) (tc_max_time tc) \<rparr>"
  by (induction rs arbitrary: tc) (simp_all add: track_time_def min.commute max.commute)

lemma extend_rows_rows [simp]: "chunk_rows (extend_rows rs c) = chunk_rows c @ rs"
  by (simp add: extend_rows_def)

lemma default_rows [simp]: "chunk_rows table_chunk_default = []"
  by (simp add: table_chunk_default_def)

text \<open>Appending rows under one chunk time, the bounds folded: what \<open>push_row\<close> and a merge step do.\<close>

definition add_rows :: "int \<Rightarrow> row list \<Rightarrow> table_chunks \<Rightarrow> table_chunks" where
  "add_rows ct rs tc =
     foldl track_time tc rs
       \<lparr> chunk_time_to_chunk :=
           entry_upd ct table_chunk_default (extend_rows rs) (chunk_time_to_chunk tc) \<rparr>"

lemma push_row_add_rows: "push_row ct r tc = add_rows ct [r] tc"
  by (simp add: push_row_def add_rows_def track_time_def)

lemma merge_chunk_add_rows: "merge_chunk tc (ct, c) = add_rows ct (chunk_rows c) tc"
  by (simp add: merge_chunk_def add_rows_def track_time_def [symmetric] foldl_track_time)

lemma mset_add_rows: "mset (tc_rows (add_rows ct rs tc)) = mset (tc_rows tc) + mset rs"
  unfolding tc_rows_def add_rows_def by (simp add: flat_vals_entry_upd)

lemma chunk_rows_at_add_rows:
  "chunk_rows_at (add_rows ct rs tc) ct' =
     (if ct' = ct then chunk_rows_at tc ct @ rs else chunk_rows_at tc ct')"
  by (cases "map_of (chunk_time_to_chunk tc) ct")
     (simp_all add: chunk_rows_at_def add_rows_def entry_simps)

lemma fold_min_max_shift:
  "fold min (map row_time rs) (min a b) = min a (fold min (map row_time rs) (b :: int))"
  "fold max (map row_time rs) (max a b) = max a (fold max (map row_time rs) (b :: int))"
  by (induction rs arbitrary: b) (simp_all add: min.left_commute max.left_commute)

lemma fold_from_bound:
  "a \<le> i64_max \<Longrightarrow> fold min (map row_time rs) a = min a (fold min (map row_time rs) i64_max)"
  "i64_min \<le> b \<Longrightarrow> fold max (map row_time rs) b = max b (fold max (map row_time rs) i64_min)"
  using fold_min_max_shift [where rs = rs] by (metis min.absorb1, metis max.absorb1)

lemma times_ok_range: "times_ok rs mn mx \<Longrightarrow> mn \<le> i64_max \<and> i64_min \<le> mx"
  by (auto simp: times_ok_Min_Max)

lemma table_chunks_ok_add_rows:
  assumes "table_chunks_ok tc"
  shows "table_chunks_ok (add_rows ct rs tc)"
proof -
  let ?tc = "add_rows ct rs tc"
  have t: "times_ok (tc_rows tc) (tc_min_time tc) (tc_max_time tc)"
    using assms by (simp add: table_chunks_ok_def)
  have s: "set (tc_rows ?tc) = set (tc_rows tc) \<union> set rs"
    using arg_cong [OF mset_add_rows [of ct rs tc], of set_mset] by simp
  have "times_ok rs (fold min (map row_time rs) i64_max) (fold max (map row_time rs) i64_min)"
    by (simp add: times_ok_def)
  from times_ok_union [OF t this s] times_ok_range [OF t]
  have "times_ok (tc_rows ?tc) (tc_min_time ?tc) (tc_max_time ?tc)"
    by (simp add: add_rows_def foldl_track_time fold_from_bound [symmetric])
  then show ?thesis
    using assms
    by (simp add: table_chunks_ok_def add_rows_def foldl_track_time keys_distinct_entry_upd)
qed

lemma merge_chunks_ok:
  "table_chunks_ok tc \<Longrightarrow> table_chunks_ok (merge_chunks new tc)"
proof -
  have "table_chunks_ok tc \<Longrightarrow> table_chunks_ok (foldl merge_chunk tc cs)" for cs
    by (induction cs arbitrary: tc)
       (auto simp: merge_chunk_add_rows table_chunks_ok_add_rows)
  then show "table_chunks_ok tc \<Longrightarrow> table_chunks_ok (merge_chunks new tc)"
    by (simp add: merge_chunks_def)
qed

lemma mset_merge_chunks: "mset (tc_rows (merge_chunks new tc)) = mset (tc_rows tc) + mset (tc_rows new)"
proof -
  have "mset (tc_rows (foldl merge_chunk tc cs)) = mset (tc_rows tc) + mset (flat_vals chunk_rows cs)" for cs
    by (induction cs arbitrary: tc) (auto simp: merge_chunk_add_rows mset_add_rows)
  then show ?thesis by (simp add: merge_chunks_def tc_rows_def [of new])
qed

lemma chunk_rows_at_merge_chunks:
  assumes "keys_distinct (chunk_time_to_chunk new)"
  shows "chunk_rows_at (merge_chunks new tc) ct = chunk_rows_at tc ct @ chunk_rows_at new ct"
proof -
  have "keys_distinct cs \<Longrightarrow> chunk_rows_at (foldl merge_chunk tc cs) ct =
      chunk_rows_at tc ct @ chunk_rows (the_or table_chunk_default (map_of cs ct))" for cs
  proof (induction cs arbitrary: tc)
    case (Cons a cs)
    then show ?case
      by (cases a) (auto simp: keys_distinct_def merge_chunk_add_rows chunk_rows_at_add_rows
          map_of_eq_None_iff [symmetric])
  qed simp
  with assms show ?thesis by (simp add: merge_chunks_def chunk_rows_at_def [of new])
qed

definition merge_tables ::
    "(nat \<times> table_chunks) list \<Rightarrow> (nat \<times> table_chunks) list \<Rightarrow> (nat \<times> table_chunks) list" where
  "merge_tables tcs m =
     foldl (\<lambda>m (t, new). entry_upd t table_chunks_default (merge_chunks new) m) m tcs"

lemma add_write_batch_tables:
  "wb_table_chunks (add_write_batch tcs mn mx wb) = merge_tables tcs (wb_table_chunks wb)"
  by (simp add: add_write_batch_def merge_tables_def)

lemma merge_tables_simps [simp]:
  "merge_tables [] m = m"
  "merge_tables ((t, new) # tcs) m =
     merge_tables tcs (entry_upd t table_chunks_default (merge_chunks new) m)"
  by (simp_all add: merge_tables_def)

lemma mset_merge_tables:
  "mset (flat_vals tc_rows (merge_tables tcs m)) =
     mset (flat_vals tc_rows m) + mset (flat_vals tc_rows tcs)"
proof (induction tcs arbitrary: m)
  case (Cons a tcs)
  obtain t new where "a = (t, new)" by force
  then show ?case
    using Cons flat_vals_entry_upd [of t m table_chunks_default tc_rows "merge_chunks new" "mset (tc_rows new)"]
    by (simp add: mset_merge_chunks)
qed simp

lemma chunk_rows_at_default: "chunk_rows_at table_chunks_default ct = []"
  by (simp add: chunk_rows_at_def table_chunks_default_def)

lemma merge_tables_lookup:
  assumes "keys_distinct tcs" "list_all (\<lambda>(_, tc). keys_distinct (chunk_time_to_chunk tc)) tcs"
  shows "chunk_rows_at (the_or table_chunks_default (map_of (merge_tables tcs m) t)) ct =
         chunk_rows_at (the_or table_chunks_default (map_of m t)) ct @
         chunk_rows_at (the_or table_chunks_default (map_of tcs t)) ct"
  using assms
proof (induction tcs arbitrary: m)
  case Nil
  then show ?case by (simp add: chunk_rows_at_default)
next
  case (Cons a tcs)
  obtain s new where a: "a = (s, new)" by force
  show ?case
    using Cons a by (auto simp: chunk_rows_at_default keys_distinct_def entry_simps chunk_rows_at_merge_chunks
        map_of_eq_None_iff [symmetric])
qed

lemma merge_tables_ok:
  "keys_distinct m \<Longrightarrow> list_all (\<lambda>(_, tc). table_chunks_ok tc) m \<Longrightarrow>
   keys_distinct (merge_tables tcs m) \<and> list_all (\<lambda>(_, tc). table_chunks_ok tc) (merge_tables tcs m)"
proof (induction tcs arbitrary: m)
  case (Cons a tcs)
  then show ?case
    by (cases a)
       (simp add: keys_distinct_entry_upd list_all_entry_upd merge_chunks_ok)
qed simp

lemma write_batch_new_bounds:
  "list_all (\<lambda>(_, tc). table_chunks_ok tc) tcs \<Longrightarrow> times_ok rs mn mx \<Longrightarrow>
   (case foldl (\<lambda>(mn, mx) (_, tc). (min mn (tc_min_time tc), max mx (tc_max_time tc))) (mn, mx) tcs of
      (mn', mx') \<Rightarrow> times_ok (rs @ flat_vals tc_rows tcs) mn' mx')"
proof (induction tcs arbitrary: mn mx rs)
  case (Cons a tcs)
  obtain t tc where a: "a = (t, tc)" by force
  have "times_ok (rs @ tc_rows tc) (min mn (tc_min_time tc)) (max mx (tc_max_time tc))"
    using Cons.prems a by (intro times_ok_union) (auto simp: table_chunks_ok_def)
  from Cons.IH [OF _ this] Cons.prems(1) a show ?case by simp
qed simp

section \<open>Properties\<close>

text \<open>
  C20. Merging a batch into the buffered batch of its database loses, duplicates and reorders
  nothing: for every table and chunk time the rows afterwards are the buffered rows followed by
  the new ones.
\<close>

theorem add_write_batch_appends:
  assumes "keys_distinct tcs" "list_all (\<lambda>(_, tc). keys_distinct (chunk_time_to_chunk tc)) tcs"
  shows "chunk_rows_at (batch_table (add_write_batch tcs mn mx wb) t) ct =
         chunk_rows_at (batch_table wb t) ct @
         chunk_rows_at (the_or table_chunks_default (map_of tcs t)) ct"
  using merge_tables_lookup [OF assms] by (simp add: batch_table_def add_write_batch_tables)

theorem add_write_batch_appends_witness:
  "let r = (\<lambda>t. \<lparr> row_time = t, row_fields = [] \<rparr>);
       tcs = [(7, push_row 0 (r 5) table_chunks_default)];
       wb = write_batch_new 1 2 ''db'' [(7, push_row 0 (r 3) table_chunks_default)]
   in map row_time (chunk_rows_at (batch_table (add_write_batch tcs 5 5 wb) 7) 0) = [3, 5]"
proof -
  let ?r = "\<lambda>t. \<lparr> row_time = t, row_fields = [] \<rparr>"
  let ?tcs = "[(7, push_row 0 (?r 5) table_chunks_default)]"
  have "keys_distinct ?tcs" "list_all (\<lambda>(_, tc). keys_distinct (chunk_time_to_chunk tc)) ?tcs"
    by (simp_all add: keys_distinct_def push_row_def table_chunks_default_def)
  from add_write_batch_appends [OF this, of 5 5
      "write_batch_new 1 2 ''db'' [(7, push_row 0 (?r 3) table_chunks_default)]" 7 0]
  show ?thesis
    by (simp add: Let_def batch_table_def write_batch_new_def chunk_rows_at_def push_row_def
        table_chunks_default_def)
qed

text \<open>
  C21. The time bounds of buffered data are exact: a batch built from well-formed table chunks is
  well-formed, and merging a well-formed batch into another keeps keys distinct and keeps the
  bounds of every table and of the batch equal to the extreme row times, with the bag of rows the
  sum of both.
\<close>

theorem write_batch_bounds_exact:
  assumes "write_batch_ok wb" "keys_distinct tcs" "list_all (\<lambda>(_, tc). table_chunks_ok tc) tcs"
  shows "write_batch_ok (write_batch_new cs db nm tcs) \<and>
         (let new = write_batch_new cs db nm tcs;
              m = add_write_batch (wb_table_chunks new) (wb_min_time_ns new) (wb_max_time_ns new) wb
          in write_batch_ok m \<and> mset (batch_rows m) = mset (batch_rows wb) + mset (batch_rows new))"
proof -
  let ?new = "write_batch_new cs db nm tcs"
  let ?m = "add_write_batch (wb_table_chunks ?new) (wb_min_time_ns ?new) (wb_max_time_ns ?new) wb"
  have f: "wb_table_chunks ?new = tcs" by (simp add: write_batch_new_def split: prod.split)
  have n: "times_ok (batch_rows ?new) (wb_min_time_ns ?new) (wb_max_time_ns ?new)"
    using write_batch_new_bounds [OF assms(3), of "[]" i64_max i64_min]
    by (auto simp: write_batch_new_def batch_rows_def times_ok_def split: prod.splits)
  have ms: "mset (batch_rows ?m) = mset (batch_rows wb) + mset (batch_rows ?new)"
    by (simp add: batch_rows_def add_write_batch_tables mset_merge_tables f)
  have s: "set (batch_rows ?m) = set (batch_rows wb) \<union> set (batch_rows ?new)"
    using arg_cong [OF ms, of set_mset] by simp
  have "times_ok (batch_rows wb) (wb_min_time_ns wb) (wb_max_time_ns wb)"
    using assms(1) by (simp add: write_batch_ok_def)
  from times_ok_union [OF this n s]
  have "times_ok (batch_rows ?m) (wb_min_time_ns ?m) (wb_max_time_ns ?m)"
    by (simp add: add_write_batch_def)
  moreover have "keys_distinct (wb_table_chunks ?m) \<and>
      list_all (\<lambda>(_, tc). table_chunks_ok tc) (wb_table_chunks ?m)"
    using assms(1) merge_tables_ok by (simp add: write_batch_ok_def add_write_batch_tables)
  ultimately show ?thesis
    using n ms assms(2,3) by (simp add: Let_def write_batch_ok_def f)
qed

theorem write_batch_bounds_exact_witness:
  "let r = (\<lambda>t. \<lparr> row_time = t, row_fields = [] \<rparr>);
       tcs = [(7, push_row 0 (r 5) (push_row 0 (r 9) table_chunks_default))];
       wb = write_batch_new 1 2 ''db'' [(7, push_row 0 (r 3) table_chunks_default)];
       new = write_batch_new 1 2 ''db'' tcs
   in write_batch_ok (add_write_batch (wb_table_chunks new) (wb_min_time_ns new)
        (wb_max_time_ns new) wb)"
proof -
  let ?r = "\<lambda>t. \<lparr> row_time = t, row_fields = [] \<rparr>"
  let ?old = "[(7, push_row 0 (?r 3) table_chunks_default)]"
  let ?tcs = "[(7, push_row 0 (?r 5) (push_row 0 (?r 9) table_chunks_default))]"
  have e: "write_batch_ok (write_batch_new 1 2 ''db'' [])"
    by (simp add: write_batch_ok_def write_batch_new_def keys_distinct_def batch_rows_def times_ok_def)
  have l: "keys_distinct ?old" "list_all (\<lambda>(_, tc). table_chunks_ok tc) ?old"
    "keys_distinct ?tcs" "list_all (\<lambda>(_, tc). table_chunks_ok tc) ?tcs"
    by (simp_all add: keys_distinct_def push_row_add_rows table_chunks_ok_add_rows)
  have "write_batch_ok (write_batch_new 1 2 ''db'' ?old)"
    using write_batch_bounds_exact [OF e l(1,2)] by simp
  from write_batch_bounds_exact [OF this l(3,4)] show ?thesis by (simp add: Let_def)
qed

text \<open>
  Equality of field values is symmetric and transitive but not reflexive: a value equals
  itself exactly when it is neither a series key nor a NaN float, although the type declares a
  full equivalence.
\<close>

theorem field_data_eq_refl_iff:
  "(field_data_eq a a \<longleftrightarrow> (\<forall>k. a \<noteq> FKey k) \<and> (\<forall>b. a = FFloat b \<longrightarrow> \<not> f64_is_nan b)) \<and>
   (field_data_eq a b \<longrightarrow> field_data_eq b a) \<and>
   (field_data_eq a b \<and> field_data_eq b c \<longrightarrow> field_data_eq a c)"
  by (cases a; cases b; cases c) (auto simp: f64_eq_def)

theorem field_data_eq_refl_iff_witness:
  "\<not> field_data_eq (FKey ''k'') (FKey ''k'') \<and> field_data_eq (FFloat (2 ^ 63)) (FFloat 0)"
  using field_data_eq_refl_iff [of "FKey ''k''"]
    field_data_eq_refl_iff [of "FFloat 0" "FFloat (2 ^ 63)"]
  by (simp add: f64_eq_def f64_is_nan_def)

end
