(* ===== verification/Snapshot_Tracker.thy ===== *)
theory Snapshot_Tracker
  imports Wal_Types
begin

text \<open>
  influxdb3_wal/src/snapshot_tracker.rs: which WAL periods a snapshot covers and up to which chunk
  time the buffer is persisted. \<open>Timestamp\<close> arithmetic is checked and panics
  (core/data_types/src/lib.rs), counters wrap. \<open>tracker_run\<close> is a history of calls, as the flush
  loop makes them.
\<close>

section \<open>Timestamps\<close>

definition ts_add :: "int \<Rightarrow> int \<Rightarrow> int panicking" where
  "ts_add a b = (case checked_i64 (a + b) of
      None \<Rightarrow> Inl (Panic ''timestamp wraparound'') | Some t \<Rightarrow> Inr t)"

definition ts_sub :: "int \<Rightarrow> int \<Rightarrow> int panicking" where
  "ts_sub a b = (case checked_i64 (a - b) of
      None \<Rightarrow> Inl (Panic ''timestamp wraparound'') | Some t \<Rightarrow> Inr t)"

definition i64_rem :: "int \<Rightarrow> int \<Rightarrow> int panicking" where
  "i64_rem a d = (if d = 0
     then Inl (Panic ''attempt to calculate the remainder with a divisor of zero'')
     else Inr (a smod d))"

section \<open>The tracker\<close>

record wal_period =
  wp_file_number :: wal_file_sequence_number
  wp_min_time :: int
  wp_max_time :: int

definition wal_period_new :: "nat \<Rightarrow> int \<Rightarrow> int \<Rightarrow> wal_period panicking" where
  "wal_period_new n mn mx =
     (if mn \<le> mx then Inr \<lparr> wp_file_number = n, wp_min_time = mn, wp_max_time = mx \<rparr>
      else Inl (Panic ''assertion failed: min_time <= max_time''))"

record snapshot_tracker =
  last_snapshot_sequence_number :: snapshot_sequence_number
  st_last_wal_sequence_number :: wal_file_sequence_number
  wal_periods :: "wal_period list"
  snapshot_size :: nat
  st_gen1_duration :: gen1_duration

definition tracker_new :: "nat \<Rightarrow> gen1_duration \<Rightarrow> nat option \<Rightarrow> snapshot_tracker" where
  "tracker_new sz g last_seq =
     \<lparr> last_snapshot_sequence_number = the_or 0 last_seq, st_last_wal_sequence_number = 0,
       wal_periods = [], snapshot_size = sz, st_gen1_duration = g \<rparr>"

definition add_wal_period :: "wal_period \<Rightarrow> snapshot_tracker \<Rightarrow> snapshot_tracker panicking" where
  "add_wal_period p st =
     (if wal_periods st \<noteq> [] \<and> \<not> wp_file_number (last (wal_periods st)) < wp_file_number p
      then Inl (Panic ''assertion failed: last_period.wal_file_number < wal_period.wal_file_number'')
      else Inr (st \<lparr> st_last_wal_sequence_number := wp_file_number p,
                    wal_periods := wal_periods st @ [p] \<rparr>))"

definition number_of_periods_to_snapshot_after :: "snapshot_tracker \<Rightarrow> nat" where
  "number_of_periods_to_snapshot_after st = u64_add (snapshot_size st) (snapshot_size st div 2)"

definition should_run_snapshot :: "bool \<Rightarrow> snapshot_tracker \<Rightarrow> bool" where
  "should_run_snapshot force st =
     (if wal_periods st = [] then False
      else if \<not> force \<and> length (wal_periods st) < number_of_periods_to_snapshot_after st then False
      else True)"

definition increment_snapshot_sequence_number :: "snapshot_tracker \<Rightarrow> nat \<times> snapshot_tracker" where
  "increment_snapshot_sequence_number st =
     (let n = seq_next (last_snapshot_sequence_number st)
      in (n, st \<lparr> last_snapshot_sequence_number := n \<rparr>))"

type_synonym snapshot_result = "(snapshot_details option \<times> snapshot_tracker) panicking"

definition snapshot_in_order_wal_periods :: "snapshot_tracker \<Rightarrow> snapshot_result" where
  "snapshot_in_order_wal_periods st =
     (if wal_periods st = [] then Inr (None, st)
      else
        let mx = wp_max_time (last (wal_periods st)) in
        bind_res (i64_rem mx (gen1_as_nanos (st_gen1_duration st))) (\<lambda>r.
        bind_res (ts_sub mx r) (\<lambda>t.
          let ps = takeWhile (\<lambda>p. wp_max_time p < t) (wal_periods st) in
          if ps = [] then Inr (None, st)
          else
            let first_no = wp_file_number (hd ps);
                last_no = wp_file_number (last ps);
                st = st \<lparr> wal_periods := filter (\<lambda>p. last_no < wp_file_number p) (wal_periods st) \<rparr>;
                (seq, st) = increment_snapshot_sequence_number st
            in Inr (Some \<lparr> sd_snapshot_sequence_number = seq, end_time_marker = t,
                           first_wal_sequence_number = first_no,
                           last_wal_sequence_number = last_no, forced = False \<rparr>, st))))"

definition snapshot_all :: "snapshot_tracker \<Rightarrow> snapshot_result" where
  "snapshot_all st =
     (let ps = wal_periods st; st = st \<lparr> wal_periods := [] \<rparr> in
      if ps = [] then Inr (None, st)
      else
        let max_time = fold max (map wp_max_time (tl ps)) (wp_max_time (hd ps)) in
        bind_res (i64_rem max_time (gen1_as_nanos (st_gen1_duration st))) (\<lambda>r.
        bind_res (ts_sub max_time r) (\<lambda>t0.
        bind_res (ts_add t0 (gen1_as_nanos (st_gen1_duration st))) (\<lambda>t.
          let (seq, st) = increment_snapshot_sequence_number st
          in Inr (Some \<lparr> sd_snapshot_sequence_number = seq, end_time_marker = t,
                         first_wal_sequence_number = wp_file_number (hd ps),
                         last_wal_sequence_number = wp_file_number (last ps),
                         forced = True \<rparr>, st)))))"

definition tracker_snapshot :: "bool \<Rightarrow> snapshot_tracker \<Rightarrow> snapshot_result" where
  "tracker_snapshot force st =
     (if \<not> should_run_snapshot force st then Inr (None, st)
      else if force \<or> (3 * snapshot_size st) mod 2 ^ 64 \<le> length (wal_periods st)
      then snapshot_all st
      else snapshot_in_order_wal_periods st)"

text \<open>A history of calls on one tracker, with the snapshots it handed out.\<close>

datatype tracker_call = AddPeriod wal_period | TakeSnapshot bool

fun tracker_run ::
    "tracker_call list \<Rightarrow> snapshot_tracker \<Rightarrow> (snapshot_details list \<times> snapshot_tracker) panicking" where
  "tracker_run [] st = Inr ([], st)"
| "tracker_run (AddPeriod p # cs) st = bind_res (add_wal_period p st) (tracker_run cs)"
| "tracker_run (TakeSnapshot force # cs) st =
     bind_res (tracker_snapshot force st) (\<lambda>(d, st).
     bind_res (tracker_run cs st) (\<lambda>(ds, st).
       Inr (case d of None \<Rightarrow> ds | Some d \<Rightarrow> d # ds, st)))"

fun added_periods :: "tracker_call list \<Rightarrow> wal_period list" where
  "added_periods [] = []"
| "added_periods (AddPeriod p # cs) = p # added_periods cs"
| "added_periods (TakeSnapshot _ # cs) = added_periods cs"

section \<open>The invariant\<close>

definition tracker_ok :: "snapshot_tracker \<Rightarrow> bool" where
  "tracker_ok st \<longleftrightarrow> gen1_valid (st_gen1_duration st) \<and>
     sorted_wrt (<) (map wp_file_number (wal_periods st)) \<and>
     list_all (\<lambda>p. in_i64 (wp_max_time p)) (wal_periods st)"

lemma tracker_new_ok: "gen1_valid g \<Longrightarrow> tracker_ok (tracker_new n g s)"
  by (simp add: tracker_ok_def tracker_new_def)

lemma add_wal_period_ok:
  assumes "tracker_ok st" "add_wal_period p st = Inr st'" "in_i64 (wp_max_time p)"
  shows "tracker_ok st'" "wal_periods st' = wal_periods st @ [p]"
proof -
  show e: "wal_periods st' = wal_periods st @ [p]"
    using assms(2) by (auto simp: add_wal_period_def split: if_splits)
  have "wp_file_number q < wp_file_number p" if "q \<in> set (wal_periods st)" for q
  proof -
    have ne: "wal_periods st \<noteq> []" using that by auto
    have "wp_file_number q \<le> wp_file_number (last (wal_periods st))"
      using increasing_le_last [of "map wp_file_number (wal_periods st)" "wp_file_number q"]
        assms(1) that ne by (simp add: tracker_ok_def last_map)
    also have "\<dots> < wp_file_number p"
      using assms(2) ne by (auto simp: add_wal_period_def split: if_splits)
    finally show ?thesis .
  qed
  with assms e show "tracker_ok st'"
    by (auto simp: tracker_ok_def sorted_wrt_append add_wal_period_def split: if_splits)
qed

section \<open>What a snapshot covers\<close>

text \<open>Rounding a stored period time never panics.\<close>

lemma round_time:
  assumes "gen1_valid g" "in_i64 t"
  shows "bind_res (i64_rem t (gen1_as_nanos g)) (\<lambda>r. bind_res (ts_sub t r) k) =
         k (trunc_to (gen1_as_nanos g) t)"
proof -
  have "0 < gen1_as_nanos g" using gen1_valid_nanos [OF assms(1)] by simp
  with trunc_to_contract(5) [OF this assms(2)] show ?thesis
    by (simp add: i64_rem_def ts_sub_def checked_i64_def trunc_to_def)
qed

text \<open>
  \<open>ps\<close> are the periods the details stand for: a non-empty run whose file numbers the details
  delimit, all of whose data is older than the marker, which is aligned to the chunk duration.
\<close>

definition covers_periods :: "gen1_duration \<Rightarrow> wal_period list \<Rightarrow> snapshot_details \<Rightarrow> bool" where
  "covers_periods g ps d \<longleftrightarrow> ps \<noteq> [] \<and>
     first_wal_sequence_number d = wp_file_number (hd ps) \<and>
     last_wal_sequence_number d = wp_file_number (last ps) \<and>
     list_all (\<lambda>p. wp_max_time p < end_time_marker d) ps \<and>
     gen1_as_nanos g dvd end_time_marker d \<and>
     (forced d \<longrightarrow> list_all (\<lambda>p. trunc_to (gen1_as_nanos g) (wp_max_time p) < end_time_marker d) ps)"

definition splits_off :: "snapshot_tracker \<Rightarrow> snapshot_details \<Rightarrow> snapshot_tracker \<Rightarrow> bool" where
  "splits_off st d st' \<longleftrightarrow>
     (\<exists>ps. wal_periods st = ps @ wal_periods st' \<and> covers_periods (st_gen1_duration st) ps d) \<and>
     sd_snapshot_sequence_number d = seq_next (last_snapshot_sequence_number st) \<and>
     last_snapshot_sequence_number st' = sd_snapshot_sequence_number d \<and>
     st_gen1_duration st' = st_gen1_duration st \<and> snapshot_size st' = snapshot_size st \<and>
     st_last_wal_sequence_number st' = st_last_wal_sequence_number st"

lemma snapshot_in_order_splits:
  assumes "tracker_ok st" "snapshot_in_order_wal_periods st = Inr (r, st')"
  shows "case r of None \<Rightarrow> st' = st | Some d \<Rightarrow> splits_off st d st' \<and> \<not> forced d"
proof (cases "wal_periods st = []")
  case True
  with assms(2) show ?thesis by (auto simp: snapshot_in_order_wal_periods_def)
next
  case False
  let ?n = "gen1_as_nanos (st_gen1_duration st)"
  let ?mx = "wp_max_time (last (wal_periods st))"
  let ?t = "trunc_to ?n ?mx"
  let ?ps = "takeWhile (\<lambda>p. wp_max_time p < ?t) (wal_periods st)"
  let ?qs = "dropWhile (\<lambda>p. wp_max_time p < ?t) (wal_periods st)"
  have v: "gen1_valid (st_gen1_duration st)" "in_i64 ?mx"
    using assms(1) False by (auto simp: tracker_ok_def list_all_iff)
  have n: "0 < ?n" using gen1_valid_nanos [OF v(1)] by simp
  show ?thesis
  proof (cases "?ps = []")
    case True
    with assms(2) False show ?thesis
      by (auto simp: snapshot_in_order_wal_periods_def Let_def round_time [OF v])
  next
    case ps: False
    have "filter (\<lambda>p. wp_file_number (last ?ps) < wp_file_number p) (wal_periods st) = ?qs"
      using filter_above_prefix [of wp_file_number ?ps ?qs] ps assms(1)
      by (simp add: tracker_ok_def)
    moreover have "list_all (\<lambda>p. wp_max_time p < ?t) ?ps"
      by (auto simp: list_all_iff dest: set_takeWhileD)
    ultimately show ?thesis
      using assms(2) False ps trunc_to_dvd [OF n, of ?mx]
      by (auto simp: snapshot_in_order_wal_periods_def Let_def round_time [OF v] splits_off_def
          covers_periods_def increment_snapshot_sequence_number_def intro!: exI [of _ ?ps])
  qed
qed

lemma fold_max_ge: "x \<in> set xs \<Longrightarrow> x \<le> fold max xs (a :: int)" "a \<le> fold max xs (a :: int)"
  using Max.set_eq_fold [of a xs] by (metis List.finite_set Max_ge list.set_intros(1,2))+

lemma snapshot_all_splits:
  assumes "tracker_ok st" "wal_periods st \<noteq> []" "snapshot_all st = Inr (r, st')"
  shows "\<exists>d. r = Some d \<and> splits_off st d st' \<and> wal_periods st' = [] \<and> forced d"
proof -
  let ?n = "gen1_as_nanos (st_gen1_duration st)"
  let ?ps = "wal_periods st"
  let ?mx = "fold max (map wp_max_time (tl ?ps)) (wp_max_time (hd ?ps))"
  have "?mx = Max (set (map wp_max_time ?ps))"
    using Max.set_eq_fold [of "wp_max_time (hd ?ps)" "map wp_max_time (tl ?ps)"] assms(2)
    by (metis list.collapse list.simps(9))
  moreover have "Max (set (map wp_max_time ?ps)) \<in> set (map wp_max_time ?ps)"
    using assms(2) by (intro Max_in) auto
  ultimately have v: "gen1_valid (st_gen1_duration st)" "in_i64 ?mx"
    using assms(1) by (auto simp: tracker_ok_def list_all_iff)
  have n: "0 < ?n" using gen1_valid_nanos [OF v(1)] by simp
  have le: "wp_max_time p \<le> ?mx" if "p \<in> set ?ps" for p
    using that assms(2) fold_max_ge by (cases ?ps) auto
  have "wp_max_time p < trunc_to ?n ?mx + ?n" "trunc_to ?n (wp_max_time p) < trunc_to ?n ?mx + ?n"
    if "p \<in> set ?ps" for p
    using le [OF that] trunc_to_bounds [OF n, of ?mx] trunc_to_mono [OF n le [OF that]] n by linarith+
  with assms(2,3) trunc_to_dvd [OF n, of ?mx] show ?thesis
    by (auto simp: snapshot_all_def Let_def round_time [OF v] bind_res_eq_Inr ts_add_def
        checked_i64_def splits_off_def covers_periods_def list_all_iff
        increment_snapshot_sequence_number_def split: if_splits)
qed

lemma tracker_snapshot_splits:
  assumes "tracker_ok st" "tracker_snapshot f st = Inr (r, st')"
  shows "case r of None \<Rightarrow> st' = st | Some d \<Rightarrow> splits_off st d st'"
  using assms snapshot_in_order_splits [OF assms(1)] snapshot_all_splits [OF assms(1)]
  by (fastforce simp: tracker_snapshot_def should_run_snapshot_def split: if_splits option.splits)

lemma splits_off_ok: "tracker_ok st \<Longrightarrow> splits_off st d st' \<Longrightarrow> tracker_ok st'"
  by (auto simp: tracker_ok_def splits_off_def sorted_wrt_append)

text \<open>No chunk that holds covered data is at or after the marker, unless the marker is not positive.\<close>

lemma covered_chunk_below_marker:
  assumes g: "gen1_valid g" and c: "covers_periods g ps d" and p: "p \<in> set ps"
    and t: "t \<le> wp_max_time p" "in_i64 t" and m: "forced d \<or> 0 < end_time_marker d"
  shows "chunk_time_for_timestamp g t < end_time_marker d"
proof -
  have n: "0 < gen1_as_nanos g" using gen1_valid_nanos [OF g] by simp
  have "trunc_to (gen1_as_nanos g) t < end_time_marker d"
  proof (cases "forced d")
    case True
    with c p have "trunc_to (gen1_as_nanos g) (wp_max_time p) < end_time_marker d"
      by (simp add: covers_periods_def list_all_iff)
    with trunc_to_mono [OF n t(1)] show ?thesis by simp
  next
    case False
    have "wp_max_time p < end_time_marker d" using c p by (simp add: covers_periods_def list_all_iff)
    with trunc_to_contract(3,4) [OF n, of t] t(1) m False show ?thesis
      by (cases "0 \<le> t") (auto simp: zero_le_mult_iff)
  qed
  then show ?thesis by (simp add: chunk_time_eq [OF g t(2)])
qed

section \<open>Totality\<close>

definition period_safe :: "gen1_duration \<Rightarrow> wal_period \<Rightarrow> bool" where
  "period_safe g p \<longleftrightarrow> in_i64 (wp_max_time p) \<and> in_i64 (wp_max_time p + gen1_as_nanos g)"

lemma ts_add_round_total:
  assumes "gen1_valid g" "in_i64 t" "in_i64 (t + gen1_as_nanos g)"
  shows "ts_add (trunc_to (gen1_as_nanos g) t) (gen1_as_nanos g) =
         Inr (trunc_to (gen1_as_nanos g) t + gen1_as_nanos g)"
proof -
  note n = gen1_valid_nanos [OF assms(1)]
  have "0 < gen1_as_nanos g" using n by simp
  note trunc_to_contract [OF this, of t]
  with assms n(2,3) have "in_i64 (trunc_to (gen1_as_nanos g) t + gen1_as_nanos g)"
    by (cases "0 \<le> t") (auto simp: i64_defs zero_le_mult_iff)
  then show ?thesis by (simp add: ts_add_def checked_i64_def)
qed

lemma tracker_snapshot_total:
  assumes "tracker_ok st" "list_all (period_safe (st_gen1_duration st)) (wal_periods st)"
  shows "\<exists>r st'. tracker_snapshot f st = Inr (r, st')"
proof (cases "wal_periods st = []")
  case True
  then show ?thesis by (simp add: tracker_snapshot_def should_run_snapshot_def)
next
  case False
  let ?ps = "wal_periods st"
  let ?mx = "fold max (map wp_max_time (tl ?ps)) (wp_max_time (hd ?ps))"
  have "?mx = Max (set (map wp_max_time ?ps))"
    using Max.set_eq_fold [of "wp_max_time (hd ?ps)" "map wp_max_time (tl ?ps)"] False
    by (metis list.collapse list.simps(9))
  moreover have "Max (set (map wp_max_time ?ps)) \<in> set (map wp_max_time ?ps)"
    using False by (intro Max_in) auto
  ultimately have s: "in_i64 ?mx" "in_i64 (?mx + gen1_as_nanos (st_gen1_duration st))"
    using assms(2) by (auto simp: list_all_iff period_safe_def)
  have v: "gen1_valid (st_gen1_duration st)" "in_i64 (wp_max_time (last ?ps))"
    using assms(1) False by (auto simp: tracker_ok_def list_all_iff)
  show ?thesis
    using False ts_add_round_total [OF v(1) s]
    by (auto simp: tracker_snapshot_def snapshot_all_def snapshot_in_order_wal_periods_def Let_def
        round_time [OF v] round_time [OF v(1) s(1)] increment_snapshot_sequence_number_def)
qed

lemma add_wal_period_total:
  "sorted_wrt (<) (map wp_file_number (wal_periods st @ [p])) \<Longrightarrow> \<exists>st'. add_wal_period p st = Inr st'"
  by (cases "wal_periods st = []") (simp_all add: add_wal_period_def sorted_wrt_append)

lemma tracker_run_split:
  assumes "tracker_ok st"
    and "sorted_wrt (<) (map wp_file_number (wal_periods st @ added_periods cs))"
    and "list_all (period_safe (st_gen1_duration st)) (wal_periods st @ added_periods cs)"
  shows "\<exists>ds st' pss. tracker_run cs st = Inr (ds, st') \<and>
     wal_periods st @ added_periods cs = concat pss @ wal_periods st' \<and>
     list_all2 (covers_periods (st_gen1_duration st)) pss ds \<and>
     map sd_snapshot_sequence_number ds =
       map (\<lambda>i. u64_add (last_snapshot_sequence_number st) i) [1..<length ds + 1]"
  using assms
proof (induction cs st rule: tracker_run.induct)
  case (1 st)
  then show ?case by (auto intro: exI [of _ "[]"])
next
  case (2 p cs st)
  obtain st1 where a: "add_wal_period p st = Inr st1"
    using add_wal_period_total [of st p] 2(3) by (auto simp: sorted_wrt_append)
  have p: "in_i64 (wp_max_time p)" using 2(4) by (simp add: period_safe_def)
  note ok = add_wal_period_ok [OF 2(2) a p]
  have same: "st_gen1_duration st1 = st_gen1_duration st"
    "last_snapshot_sequence_number st1 = last_snapshot_sequence_number st"
    using a by (auto simp: add_wal_period_def split: if_splits)
  show ?case using 2(1) [OF a ok(1)] 2(3,4) by (simp add: a ok(2) same)
next
  case (3 f cs st)
  obtain r st1 where s: "tracker_snapshot f st = Inr (r, st1)"
    using tracker_snapshot_total [OF 3(2), of f] 3(4) by auto
  note sp = tracker_snapshot_splits [OF 3(2) s]
  show ?case
  proof (cases r)
    case None
    with sp have "st1 = st" by simp
    with 3(1) [OF s refl] 3(2-4) None show ?thesis by (auto simp: s simp del: upt_Suc)
  next
    case (Some d)
    with sp have so: "splits_off st d st1" by simp
    then obtain ps where ps: "wal_periods st = ps @ wal_periods st1"
      "covers_periods (st_gen1_duration st) ps d" by (auto simp: splits_off_def)
    obtain ds st' pss where ih: "tracker_run cs st1 = Inr (ds, st')"
      "wal_periods st1 @ added_periods cs = concat pss @ wal_periods st'"
      "list_all2 (covers_periods (st_gen1_duration st)) pss ds"
      "map sd_snapshot_sequence_number ds =
         map (\<lambda>i. u64_add (last_snapshot_sequence_number st1) i) [1..<length ds + 1]"
      using 3(1) [OF s refl splits_off_ok [OF 3(2) so]] 3(3,4) ps so
      by (auto simp: sorted_wrt_append splits_off_def)
    have "map sd_snapshot_sequence_number (d # ds) =
        map (\<lambda>i. u64_add (last_snapshot_sequence_number st) i) [1..<length (d # ds) + 1]"
    proof -
      have "[1..<length (d # ds) + 1] = 1 # map Suc [1..<length ds + 1]"
        by (simp add: upt_conv_Cons map_Suc_upt del: upt_Suc)
      then show ?thesis
        using ih(4) so
        by (simp add: splits_off_def seq_next_def u64_add_def mod_simps add.assoc del: upt_Suc)
    qed
    with ih ps Some s show ?thesis
      by (auto simp del: upt_Suc intro!: exI [of _ "ps # pss"])
  qed
qed

section \<open>Properties\<close>



text \<open>
  The backlog is bounded: after any call of the snapshot function that returns, fewer than
  three times the snapshot size of periods are tracked, whatever their timestamps; below one and a
  half times the snapshot size an unforced call changes nothing; a forced call on a non-empty
  tracker takes a snapshot and leaves no period behind.
\<close>

theorem snapshot_backlog_bounded:
  assumes "tracker_ok st" "0 < snapshot_size st" "3 * snapshot_size st \<le> u64_max"
    and "tracker_snapshot f st = Inr (r, st')"
  shows "length (wal_periods st') < 3 * snapshot_size st \<and>
         (\<not> f \<and> length (wal_periods st) < snapshot_size st + snapshot_size st div 2 \<longrightarrow>
            r = None \<and> st' = st) \<and>
         (f \<and> wal_periods st \<noteq> [] \<longrightarrow> r \<noteq> None \<and> wal_periods st' = [])"
proof -
  have e: "(3 * snapshot_size st) mod 2 ^ 64 = 3 * snapshot_size st"
    "number_of_periods_to_snapshot_after st = snapshot_size st + snapshot_size st div 2"
    using assms(3) by (simp_all add: number_of_periods_to_snapshot_after_def u64_add_def u64_max_def)
  have "length (wal_periods st') \<le> length (wal_periods st)"
    using tracker_snapshot_splits [OF assms(1,4)] by (auto simp: splits_off_def split: option.splits)
  with assms(2,4) snapshot_all_splits [OF assms(1)] show ?thesis
    unfolding tracker_snapshot_def should_run_snapshot_def e
    by (cases "wal_periods st = []"; cases f;
        cases "length (wal_periods st) < snapshot_size st + snapshot_size st div 2";
        cases "3 * snapshot_size st \<le> length (wal_periods st)") auto
qed

theorem snapshot_backlog_bounded_witness:
  "let p = (\<lambda>n. \<lparr> wp_file_number = n, wp_min_time = 0, wp_max_time = 0 \<rparr>);
       st = tracker_new 1 gen1_default None \<lparr> wal_periods := [p 1, p 2] \<rparr>
   in \<exists>r st'. tracker_snapshot True st = Inr (r, st') \<and> r \<noteq> None \<and> wal_periods st' = []"
proof -
  let ?p = "\<lambda>n. \<lparr> wp_file_number = n, wp_min_time = 0, wp_max_time = 0 \<rparr>"
  let ?st = "tracker_new 1 gen1_default None \<lparr> wal_periods := [?p 1, ?p 2] \<rparr>"
  note n = gen1_default_nanos
  have ok: "tracker_ok ?st"
    using gen1_default_valid by (simp add: tracker_ok_def tracker_new_def i64_defs)
  moreover have "0 < snapshot_size ?st" "3 * snapshot_size ?st \<le> u64_max"
    by (simp_all add: tracker_new_def u64_max_def)
  moreover obtain r st' where "tracker_snapshot True ?st = Inr (r, st')"
    using tracker_snapshot_total [OF ok, of True]
    by (auto simp: tracker_new_def period_safe_def n i64_defs)
  ultimately show ?thesis
    using snapshot_backlog_bounded [of ?st True r st'] by (auto simp: Let_def)
qed

end
