(* ===== verification/Wal_Buffer.thy ===== *)
theory Wal_Buffer
  imports Snapshot_Tracker
begin

text \<open>
  The in-memory WAL buffer of influxdb3_wal/src/object_store.rs (\<open>WalBuffer\<close>, \<open>FlushBuffer\<close>): writes
  are merged per database until a flush turns them into the contents of one WAL file. A waiting
  client (the sender half of a oneshot channel) is a number. The clock readings a flush makes are
  arguments. The abstract view of a buffer is the list of rows it holds per database, table and
  chunk time.
\<close>

section \<open>The buffer\<close>

datatype wal_error =
    BufferFull nat
  | WriteError string
  | Shutdown
  | InvalidWalFilePath

datatype wal_buffer_error_state = WalAlreadyWrittenTo

datatype wal_buffer_state =
    AcceptingWrites
  | ShuttingDown
  | ErrorState wal_buffer_error_state

fun show_error_state :: "wal_buffer_error_state \<Rightarrow> string" where
  "show_error_state WalAlreadyWrittenTo = ''another process has written to the WAL ahead of this one''"

datatype write_result = WriteSuccess | WriteFailed string

type_synonym response = nat

record wal_buffer =
  wb_state :: wal_buffer_state
  wal_file_sequence_number :: wal_file_sequence_number
  op_limit :: nat
  op_count :: nat
  database_to_write_batch :: "(string \<times> write_batch) list"
  write_op_responses :: "response list"
  no_op :: "int option"

definition wal_buffer_is_empty :: "wal_buffer \<Rightarrow> bool" where
  "wal_buffer_is_empty wb \<longleftrightarrow> database_to_write_batch wb = [] \<and> no_op wb = None"

definition add_no_op :: "int \<Rightarrow> wal_buffer \<Rightarrow> wal_buffer" where
  "add_no_op now_ns wb = wb \<lparr> no_op := Some now_ns \<rparr>"

definition set_state :: "wal_buffer_state \<Rightarrow> wal_buffer \<Rightarrow> wal_buffer" where
  "set_state s wb = wb \<lparr> wb_state := s \<rparr>"

definition is_accepting_writes :: "wal_buffer \<Rightarrow> bool" where
  "is_accepting_writes wb \<longleftrightarrow> wb_state wb = AcceptingWrites"

definition empty_batch_for :: "write_batch \<Rightarrow> write_batch" where
  "empty_batch_for b =
     \<lparr> catalog_sequence = catalog_sequence b, database_id = database_id b,
       database_name = database_name b, wb_table_chunks = [],
       wb_min_time_ns = i64_max, wb_max_time_ns = i64_min \<rparr>"

fun buffer_op :: "(string \<times> write_batch) list \<Rightarrow> wal_op \<Rightarrow> (string \<times> write_batch) list" where
  "buffer_op m (Write b) =
     entry_upd (database_name b) (empty_batch_for b)
       (add_write_batch (wb_table_chunks b) (wb_min_time_ns b) (wb_max_time_ns b)) m"
| "buffer_op m (Noop _) = m"

definition write_ops_unconfirmed :: "wal_op list \<Rightarrow> wal_buffer \<Rightarrow> wal_error + wal_buffer" where
  "write_ops_unconfirmed ops wb =
     (if \<not> is_accepting_writes wb then Inl Shutdown
      else if op_limit wb \<le> op_count wb then Inl (BufferFull (op_count wb))
      else Inr (wb \<lparr> database_to_write_batch := foldl buffer_op (database_to_write_batch wb) ops \<rparr>))"

text \<open>The response is registered before the operations are buffered, also when that then fails.\<close>

definition buffer_ops_with_response ::
    "wal_op list \<Rightarrow> response \<Rightarrow> wal_buffer \<Rightarrow> (wal_error + unit) \<times> wal_buffer" where
  "buffer_ops_with_response ops resp wb =
     (if \<not> is_accepting_writes wb then (Inl Shutdown, wb)
      else
        let wb = wb \<lparr> write_op_responses := write_op_responses wb @ [resp] \<rparr> in
        case write_ops_unconfirmed ops wb of
          Inl e \<Rightarrow> (Inl e, wb)
        | Inr wb' \<Rightarrow> (Inr (), wb'))"

text \<open>
  \<open>ops.sort()\<close> is absent: the order on operations calls all of them equal and the sort is stable.
\<close>

definition into_wal_contents_and_responses ::
    "int \<Rightarrow> bool \<Rightarrow> wal_buffer \<Rightarrow> wal_contents \<times> response list" where
  "into_wal_contents_and_responses now_ms forced_snapshot wb =
     (let (mn, mx) = foldl (\<lambda>(mn, mx) (_, b). (min mn (wb_min_time_ns b), max mx (wb_max_time_ns b)))
                       (i64_max, i64_min) (database_to_write_batch wb);
          ops = map (\<lambda>(_, b). Write b) (database_to_write_batch wb);
          (ops, mn, mx) =
            (if ops = [] \<and> forced_snapshot
             then case no_op wb of
                    Some time \<Rightarrow> ([Noop time], time, i64_wrap (time + 1))
                  | None \<Rightarrow> (ops, mn, mx)
             else (ops, mn, mx))
      in (\<lparr> persist_timestamp_ms = now_ms, wc_min_timestamp_ns = mn, wc_max_timestamp_ns = mx,
            wal_file_number = wal_file_sequence_number wb, wal_ops = ops, wal_snapshot = None \<rparr>,
          write_op_responses wb))"

section \<open>The flush buffer\<close>

record flush_buffer =
  fb_wal_buffer :: wal_buffer
  fb_snapshot_tracker :: snapshot_tracker

definition replay_wal_period :: "wal_period \<Rightarrow> flush_buffer \<Rightarrow> flush_buffer panicking" where
  "replay_wal_period p fb =
     bind_res (add_wal_period p (fb_snapshot_tracker fb)) (\<lambda>st.
       Inr (fb \<lparr> fb_wal_buffer := fb_wal_buffer fb
                   \<lparr> wal_file_sequence_number := seq_next (wp_file_number p) \<rparr>,
                 fb_snapshot_tracker := st \<rparr>))"

definition flush_buffer_with_responses ::
    "int \<Rightarrow> bool \<Rightarrow> flush_buffer \<Rightarrow> (wal_contents \<times> response list) \<times> flush_buffer" where
  "flush_buffer_with_responses now_ms force_snapshot fb =
     (let old = fb_wal_buffer fb;
          new = \<lparr> wb_state = wb_state old,
                  wal_file_sequence_number = seq_next (wal_file_sequence_number old),
                  op_limit = op_limit old, op_count = 0, database_to_write_batch = [],
                  write_op_responses = [], no_op = None \<rparr>
      in (into_wal_contents_and_responses now_ms force_snapshot old, fb \<lparr> fb_wal_buffer := new \<rparr>))"

definition flush_buffer_with_failure ::
    "int \<Rightarrow> write_result \<Rightarrow> flush_buffer \<Rightarrow> (response \<times> write_result) list \<times> flush_buffer" where
  "flush_buffer_with_failure now_ms err fb =
     (let ((_, responses), fb) = flush_buffer_with_responses now_ms False fb
      in (map (\<lambda>r. (r, err)) responses, fb))"

definition flush_buffer_into_contents_and_responses ::
    "int \<Rightarrow> int \<Rightarrow> bool \<Rightarrow> flush_buffer \<Rightarrow>
     ((wal_contents \<times> response list \<times> snapshot_details option) \<times> flush_buffer) panicking" where
  "flush_buffer_into_contents_and_responses now_ns now_ms force_snapshot fb =
     (let fb = (if force_snapshot \<and> wal_buffer_is_empty (fb_wal_buffer fb)
                then fb \<lparr> fb_wal_buffer := add_no_op now_ns (fb_wal_buffer fb) \<rparr> else fb);
          ((contents, responses), fb) = flush_buffer_with_responses now_ms force_snapshot fb
      in bind_res (add_wal_period
              \<lparr> wp_file_number = wal_file_number contents,
                wp_min_time = wc_min_timestamp_ns contents,
                wp_max_time = wc_max_timestamp_ns contents \<rparr> (fb_snapshot_tracker fb)) (\<lambda>st.
         bind_res (tracker_snapshot force_snapshot st) (\<lambda>(details, st).
           Inr ((contents \<lparr> wal_snapshot := details \<rparr>, responses, details),
                fb \<lparr> fb_snapshot_tracker := st \<rparr>))))"

section \<open>The abstract view\<close>

text \<open>The rows a list of operations carries for a database, table and chunk time, in order.\<close>

definition op_rows :: "string \<Rightarrow> nat \<Rightarrow> int \<Rightarrow> wal_op \<Rightarrow> row list" where
  "op_rows db t ct op =
     (case op of
        Write b \<Rightarrow> if database_name b = db then chunk_rows_at (batch_table b t) ct else []
      | Noop _ \<Rightarrow> [])"

definition ops_rows :: "wal_op list \<Rightarrow> string \<Rightarrow> nat \<Rightarrow> int \<Rightarrow> row list" where
  "ops_rows ops db t ct = concat (map (op_rows db t ct) ops)"

definition buffered_rows :: "wal_buffer \<Rightarrow> string \<Rightarrow> nat \<Rightarrow> int \<Rightarrow> row list" where
  "buffered_rows wb db t ct =
     (case map_of (database_to_write_batch wb) db of
        None \<Rightarrow> [] | Some b \<Rightarrow> chunk_rows_at (batch_table b t) ct)"

definition all_rows :: "wal_op list \<Rightarrow> row list" where
  "all_rows ops = concat (map (\<lambda>op. case op of Write b \<Rightarrow> batch_rows b | Noop _ \<Rightarrow> []) ops)"

definition wal_op_ok :: "wal_op \<Rightarrow> bool" where
  "wal_op_ok op = (case op of Write b \<Rightarrow> write_batch_ok b | Noop _ \<Rightarrow> True)"

definition wal_buffer_ok :: "wal_buffer \<Rightarrow> bool" where
  "wal_buffer_ok wb \<longleftrightarrow> keys_distinct (database_to_write_batch wb) \<and>
     list_all (\<lambda>(db, b). database_name b = db \<and> write_batch_ok b) (database_to_write_batch wb)"

section \<open>Writes append, a flush hands everything over\<close>

lemma add_write_batch_name [simp]: "database_name (add_write_batch tcs mn mx b) = database_name b"
  by (simp add: add_write_batch_def)

lemma empty_batch_for_ok [simp]:
  "write_batch_ok (empty_batch_for b)" "database_name (empty_batch_for b) = database_name b"
  "batch_rows (empty_batch_for b) = []" "chunk_rows_at (batch_table (empty_batch_for b) t) ct = []"
  by (simp_all add: empty_batch_for_def write_batch_ok_def keys_distinct_def batch_rows_def
      times_ok_def batch_table_def chunk_rows_at_default)

lemma write_batch_ok_tables:
  assumes "write_batch_ok b"
  shows "keys_distinct (wb_table_chunks b)"
    "list_all (\<lambda>(_, tc). keys_distinct (chunk_time_to_chunk tc)) (wb_table_chunks b)"
  using assms by (auto simp: write_batch_ok_def table_chunks_ok_def list_all_iff)

lemma merged_batch:
  assumes "write_batch_ok wb" "write_batch_ok b"
  defines "m \<equiv> add_write_batch (wb_table_chunks b) (wb_min_time_ns b) (wb_max_time_ns b) wb"
  shows "write_batch_ok m" "mset (batch_rows m) = mset (batch_rows wb) + mset (batch_rows b)"
    "chunk_rows_at (batch_table m t) ct =
       chunk_rows_at (batch_table wb t) ct @ chunk_rows_at (batch_table b t) ct"
proof -
  show ms: "mset (batch_rows m) = mset (batch_rows wb) + mset (batch_rows b)"
    by (simp add: batch_rows_def m_def add_write_batch_tables mset_merge_tables)
  have s: "set (batch_rows m) = set (batch_rows wb) \<union> set (batch_rows b)"
    using arg_cong [OF ms, of set_mset] by simp
  have "times_ok (batch_rows wb) (wb_min_time_ns wb) (wb_max_time_ns wb)"
    "times_ok (batch_rows b) (wb_min_time_ns b) (wb_max_time_ns b)"
    using assms(1,2) by (simp_all add: write_batch_ok_def)
  from times_ok_union [OF this s]
  have "times_ok (batch_rows m) (wb_min_time_ns m) (wb_max_time_ns m)"
    by (simp add: m_def add_write_batch_def)
  then show "write_batch_ok m"
    using assms(1) merge_tables_ok by (simp add: m_def write_batch_ok_def add_write_batch_tables)
  show "chunk_rows_at (batch_table m t) ct =
       chunk_rows_at (batch_table wb t) ct @ chunk_rows_at (batch_table b t) ct"
    using merge_tables_lookup [OF write_batch_ok_tables [OF assms(2)]]
    by (simp add: m_def batch_table_def add_write_batch_tables)
qed

abbreviation batch_map_ok :: "(string \<times> write_batch) list \<Rightarrow> bool" where
  "batch_map_ok m \<equiv> keys_distinct m \<and>
     list_all (\<lambda>(db, b). database_name b = db \<and> write_batch_ok b) m"

lemma list_all_entry_upd_key:
  "list_all (\<lambda>(k, v). P k v) m \<Longrightarrow> P k d \<Longrightarrow> (\<And>v. P k v \<Longrightarrow> P k (f v)) \<Longrightarrow>
   list_all (\<lambda>(k, v). P k v) (entry_upd k d f m)"
  by (induction k d f m rule: entry_upd.induct) auto

lemma buffer_op_ok: "batch_map_ok m \<Longrightarrow> wal_op_ok op \<Longrightarrow> batch_map_ok (buffer_op m op)"
  by (cases op)
     (auto simp: wal_op_ok_def keys_distinct_entry_upd merged_batch(1) intro!: list_all_entry_upd_key)

definition map_rows :: "(string \<times> write_batch) list \<Rightarrow> string \<Rightarrow> nat \<Rightarrow> int \<Rightarrow> row list" where
  "map_rows m db t ct =
     (case map_of m db of None \<Rightarrow> [] | Some b \<Rightarrow> chunk_rows_at (batch_table b t) ct)"

lemma map_of_batch_ok: "batch_map_ok m \<Longrightarrow> map_of m db = Some b \<Longrightarrow> write_batch_ok b \<and> database_name b = db"
  by (auto simp: list_all_iff dest!: map_of_SomeD)

lemma buffer_op_rows:
  assumes "batch_map_ok m" "wal_op_ok op"
  shows "map_rows (buffer_op m op) db t ct = map_rows m db t ct @ op_rows db t ct op"
proof (cases op)
  case (Write b)
  then have b: "write_batch_ok b" using assms(2) by (simp add: wal_op_ok_def)
  show ?thesis
  proof (cases "map_of m (database_name b)")
    case None
    then show ?thesis
      using merged_batch(3) [OF empty_batch_for_ok(1) b] by (auto simp: Write map_rows_def op_rows_def entry_simps)
  next
    case (Some b')
    with merged_batch(3) [OF _ b, of b'] map_of_batch_ok [OF assms(1) Some] show ?thesis
      by (auto simp: Write map_rows_def op_rows_def entry_simps)
  qed
qed (simp add: op_rows_def map_rows_def)

lemma foldl_buffer_op:
  "batch_map_ok m \<Longrightarrow> list_all wal_op_ok ops \<Longrightarrow>
   batch_map_ok (foldl buffer_op m ops) \<and>
   map_rows (foldl buffer_op m ops) db t ct = map_rows m db t ct @ ops_rows ops db t ct"
proof (induction ops arbitrary: m)
  case (Cons op ops)
  then have "batch_map_ok (buffer_op m op)" by (intro buffer_op_ok) simp_all
  with Cons buffer_op_rows [of m op] show ?case by (simp add: ops_rows_def)
qed (simp add: ops_rows_def)

lemma buffered_rows_map: "buffered_rows wb = map_rows (database_to_write_batch wb)"
  by (simp add: fun_eq_iff buffered_rows_def map_rows_def)

lemma map_rows_ops:
  "batch_map_ok m \<Longrightarrow> ops_rows (map (\<lambda>(_, b). Write b) m) db t ct = map_rows m db t ct"
proof (induction m)
  case (Cons a m)
  obtain k b where a: "a = (k, b)" by force
  have ok: "batch_map_ok m" using Cons.prems by (cases a) (simp add: keys_distinct_def)
  have "k \<notin> fst ` set m" using Cons.prems a by (simp add: keys_distinct_def)
  then have "map_of m k = None" by (simp add: map_of_eq_None_iff)
  with Cons.IH [OF ok] Cons.prems a show ?case
    by (auto simp: ops_rows_def op_rows_def map_rows_def)
qed (simp add: ops_rows_def map_rows_def)

lemma bounds_of_batches:
  "list_all (\<lambda>(_, b). write_batch_ok b) m \<Longrightarrow> times_ok rs mn mx \<Longrightarrow>
   (case foldl (\<lambda>(mn, mx) (_, b). (min mn (wb_min_time_ns b), max mx (wb_max_time_ns b))) (mn, mx) m of
      (mn', mx') \<Rightarrow> times_ok (rs @ all_rows (map (\<lambda>(_, b). Write b) m)) mn' mx')"
proof (induction m arbitrary: mn mx rs)
  case Nil
  then show ?case by (simp add: all_rows_def)
next
  case (Cons a m)
  obtain k b where a: "a = (k, b)" by force
  have "times_ok (rs @ batch_rows b) (min mn (wb_min_time_ns b)) (max mx (wb_max_time_ns b))"
    using Cons.prems a by (intro times_ok_union) (auto simp: write_batch_ok_def)
  from Cons.IH [OF _ this] Cons.prems(1) a show ?case by (simp add: all_rows_def)
qed

lemma contents_of_writes:
  assumes "database_to_write_batch wb \<noteq> []"
  shows "wal_ops (fst (into_wal_contents_and_responses now f wb)) =
           map (\<lambda>(_, b). Write b) (database_to_write_batch wb)"
    "wal_buffer_ok wb \<Longrightarrow>
       times_ok (all_rows (map (\<lambda>(_, b). Write b) (database_to_write_batch wb)))
         (wc_min_timestamp_ns (fst (into_wal_contents_and_responses now f wb)))
         (wc_max_timestamp_ns (fst (into_wal_contents_and_responses now f wb)))"
  using assms bounds_of_batches [of "database_to_write_batch wb" "[]" i64_max i64_min]
  by (auto simp: into_wal_contents_and_responses_def Let_def times_ok_def wal_buffer_ok_def
      list_all_iff split: prod.splits)

text \<open>A sequence of write requests on one buffer.\<close>

fun buffer_all :: "wal_op list list \<Rightarrow> wal_buffer \<Rightarrow> wal_error + wal_buffer" where
  "buffer_all [] wb = Inr wb"
| "buffer_all (ops # reqs) wb = bind_res (write_ops_unconfirmed ops wb) (buffer_all reqs)"

lemma write_ops_unconfirmed_Inr:
  assumes "write_ops_unconfirmed ops wb = Inr wb'" "wal_buffer_ok wb" "list_all wal_op_ok ops"
  shows "wal_buffer_ok wb'" "buffered_rows wb' db t ct = buffered_rows wb db t ct @ ops_rows ops db t ct"
    "wal_file_sequence_number wb' = wal_file_sequence_number wb"
  using assms foldl_buffer_op [of "database_to_write_batch wb" ops db t ct]
  by (auto simp: write_ops_unconfirmed_def wal_buffer_ok_def buffered_rows_map split: if_splits)

lemma buffer_all_Inr:
  assumes "buffer_all reqs wb = Inr wb'" "wal_buffer_ok wb" "list_all (list_all wal_op_ok) reqs"
  shows "wal_buffer_ok wb' \<and> wal_file_sequence_number wb' = wal_file_sequence_number wb \<and>
    buffered_rows wb' db t ct =
      buffered_rows wb db t ct @ concat (map (\<lambda>ops. ops_rows ops db t ct) reqs)"
  using assms
proof (induction reqs wb rule: buffer_all.induct)
  case (2 ops reqs wb)
  then obtain wb1 where w: "write_ops_unconfirmed ops wb = Inr wb1" "buffer_all reqs wb1 = Inr wb'"
    by (auto simp: bind_res_eq_Inr)
  have o: "list_all wal_op_ok ops" using 2(4) by simp
  note s = write_ops_unconfirmed_Inr [OF w(1) 2(3) o]
  with 2(1) [OF w s(1)] 2(4) show ?case by simp
qed simp

section \<open>Properties\<close>

text \<open>
  C19. Nothing accepted is missing from the WAL file. When the requests were all accepted and the
  buffer is flushed, the file holds for every database, table and chunk time exactly the rows
  buffered before followed by the rows of the requests in the order they came; its time bounds are
  the extreme row times; it takes the buffer's file number; and the buffer that replaces it is
  empty with the next number.
\<close>

theorem flushed_contents_complete:
  assumes "wal_buffer_ok (fb_wal_buffer fb)" "list_all (list_all wal_op_ok) reqs"
    and "buffer_all reqs (fb_wal_buffer fb) = Inr wb" "database_to_write_batch wb \<noteq> []"
    and "flush_buffer_with_responses now f (fb \<lparr> fb_wal_buffer := wb \<rparr>) = ((c, resps), fb')"
  shows "ops_rows (wal_ops c) db t ct =
           buffered_rows (fb_wal_buffer fb) db t ct @ concat (map (\<lambda>ops. ops_rows ops db t ct) reqs) \<and>
         times_ok (all_rows (wal_ops c)) (wc_min_timestamp_ns c) (wc_max_timestamp_ns c) \<and>
         wal_file_number c = wal_file_sequence_number (fb_wal_buffer fb) \<and>
         wal_buffer_ok (fb_wal_buffer fb') \<and> buffered_rows (fb_wal_buffer fb') db t ct = [] \<and>
         wal_file_sequence_number (fb_wal_buffer fb') = seq_next (wal_file_number c)"
proof -
  note b = buffer_all_Inr [OF assms(3,1,2), of db t ct]
  have c: "c = fst (into_wal_contents_and_responses now f wb)"
    and n: "wal_file_sequence_number (fb_wal_buffer fb') = seq_next (wal_file_sequence_number wb)"
      "database_to_write_batch (fb_wal_buffer fb') = []"
    using assms(5) by (auto simp: flush_buffer_with_responses_def Let_def)
  note w = contents_of_writes [OF assms(4), of now f]
  have r: "ops_rows (wal_ops c) db t ct =
      buffered_rows (fb_wal_buffer fb) db t ct @ concat (map (\<lambda>ops. ops_rows ops db t ct) reqs)"
    using b map_rows_ops [of "database_to_write_batch wb" db t ct]
    by (simp add: c w(1) buffered_rows_map wal_buffer_ok_def)
  have "wal_file_number c = wal_file_sequence_number wb"
    by (simp add: c into_wal_contents_and_responses_def Let_def split: prod.splits)
  with r show ?thesis
    using b w(1,2) n by (simp add: c wal_buffer_ok_def keys_distinct_def buffered_rows_def)
qed

definition fresh_buffer :: "nat \<Rightarrow> wal_buffer" where
  "fresh_buffer lim =
     \<lparr> wb_state = AcceptingWrites, wal_file_sequence_number = 1, op_limit = lim, op_count = 0,
       database_to_write_batch = [], write_op_responses = [], no_op = None \<rparr>"

theorem flushed_contents_complete_witness:
  "let r = (\<lambda>t. \<lparr> row_time = t, row_fields = [] \<rparr>);
       op = (\<lambda>t. Write (write_batch_new 1 2 ''db'' [(7, push_row 0 (r t) table_chunks_default)]));
       fb = \<lparr> fb_wal_buffer = fresh_buffer 10, fb_snapshot_tracker = tracker_new 1 gen1_default None \<rparr>
   in \<exists>wb c resps fb'. buffer_all [[op 5], [op 3]] (fb_wal_buffer fb) = Inr wb \<and>
        flush_buffer_with_responses 0 False (fb \<lparr> fb_wal_buffer := wb \<rparr>) = ((c, resps), fb') \<and>
        map row_time (ops_rows (wal_ops c) ''db'' 7 0) = [5, 3]"
proof -
  let ?op = "\<lambda>t. Write (write_batch_new 1 2 ''db''
      [(7, push_row 0 \<lparr> row_time = t, row_fields = [] \<rparr> table_chunks_default)])"
  let ?fb = "\<lparr> fb_wal_buffer = fresh_buffer 10, fb_snapshot_tracker = tracker_new 1 gen1_default None \<rparr>"
  let ?wb = "fresh_buffer 10 \<lparr> database_to_write_batch := foldl buffer_op [] [?op 5, ?op 3] \<rparr>"
  have w: "write_batch_ok (write_batch_new 1 2 ''db''
      [(7, push_row 0 \<lparr> row_time = t, row_fields = [] \<rparr> table_chunks_default)])" for t
    by (simp add: write_batch_ok_def write_batch_new_def keys_distinct_def batch_rows_def tc_rows_def
        table_chunks_ok_def times_ok_def push_row_def table_chunks_default_def min.commute max.commute)
  have h: "wal_buffer_ok (fb_wal_buffer ?fb)" "list_all (list_all wal_op_ok) [[?op 5], [?op 3]]"
    using w by (simp_all add: wal_buffer_ok_def fresh_buffer_def keys_distinct_def wal_op_ok_def)
  have b: "buffer_all [[?op 5], [?op 3]] (fb_wal_buffer ?fb) = Inr ?wb"
    by (simp add: fresh_buffer_def write_ops_unconfirmed_def is_accepting_writes_def)
  have ne: "database_to_write_batch ?wb \<noteq> []" by simp
  obtain c resps fb' where f:
    "flush_buffer_with_responses 0 False (?fb \<lparr> fb_wal_buffer := ?wb \<rparr>) = ((c, resps), fb')"
    by (metis surj_pair)
  have "map row_time (ops_rows (wal_ops c) ''db'' 7 0) = [5, 3]"
    using flushed_contents_complete [OF h b ne f, of "''db''" 7 0]
    by (simp add: ops_rows_def op_rows_def write_batch_new_def batch_table_def chunk_rows_at_def
        push_row_def table_chunks_default_def buffered_rows_def fresh_buffer_def)
  with b f show ?thesis unfolding Let_def by (intro exI conjI)
qed

text \<open>
  The configured limit on buffered writes has no effect: whatever positive limit is set, a
  buffer that accepts writes accepts every number of requests, because the counter compared
  against the limit is never advanced. With a limit of zero every request is refused.
\<close>

theorem buffer_limit_not_enforced:
  assumes "op_count wb = 0" "is_accepting_writes wb"
  shows "(0 < op_limit wb \<longrightarrow> (\<exists>wb'. buffer_all reqs wb = Inr wb' \<and> op_count wb' = 0)) \<and>
         (op_limit wb = 0 \<longrightarrow> write_ops_unconfirmed ops wb = Inl (BufferFull 0))"
proof -
  have "\<exists>wb'. buffer_all reqs wb = Inr wb' \<and> op_count wb' = 0" if "0 < op_limit wb"
    using that assms
    by (induction reqs wb rule: buffer_all.induct)
       (auto simp: write_ops_unconfirmed_def is_accepting_writes_def)
  then show ?thesis using assms by (simp add: write_ops_unconfirmed_def)
qed

theorem buffer_limit_not_enforced_witness:
  "\<exists>wb'. buffer_all (replicate 5 [Noop 0]) (fresh_buffer 1) = Inr wb'"
  using buffer_limit_not_enforced [of "fresh_buffer 1" "replicate 5 [Noop 0]" "[]"]
  by (auto simp: fresh_buffer_def is_accepting_writes_def)

end
