(* ===== verification/Wal_Serialize.thy ===== *)
theory Wal_Serialize
  imports Wal_Types "HOL-Library.Word"
begin

text \<open>
  influxdb3_wal/src/serialize.rs: the frame of a WAL file (identifier, big-endian CRC-32, payload).
  The bitcode codec and the CRC-32 function are third-party code: arguments of the definitions.
\<close>

unbundle bit_operations_syntax

type_synonym byte = "8 word"

definition to_be_bytes :: "32 word \<Rightarrow> byte list" where
  "to_be_bytes c =
     [ucast (drop_bit 24 c), ucast (drop_bit 16 c), ucast (drop_bit 8 c), ucast c]"

fun read_u32 :: "byte list \<Rightarrow> 32 word option" where
  "read_u32 (a # b # c # d # _) =
     Some (push_bit 24 (ucast a) OR push_bit 16 (ucast b) OR push_bit 8 (ucast c) OR ucast d)"
| "read_u32 _ = None"

datatype 'e serialize_error =
    InvalidWalFile
  | WalFileTooSmall nat nat
  | Crc32Mismatch
  | Bitcode 'e

definition ascii :: "string \<Rightarrow> byte list" where
  "ascii s = map (\<lambda>c. of_nat (of_char c)) s"

definition FILE_TYPE_IDENTIFIER :: "byte list" where
  "FILE_TYPE_IDENTIFIER = ascii ''idb3.001''"

definition verify_file_type_and_deserialize ::
    "(byte list \<Rightarrow> 32 word) \<Rightarrow> (byte list \<Rightarrow> 'e + 'c) \<Rightarrow> byte list \<Rightarrow> 'e serialize_error + 'c" where
  "verify_file_type_and_deserialize crc decode contents =
     (let pos = length FILE_TYPE_IDENTIFIER;
          min_file_size = pos + 4
      in if length contents < min_file_size
         then Inl (WalFileTooSmall min_file_size (length contents))
         else if take pos contents \<noteq> FILE_TYPE_IDENTIFIER then Inl InvalidWalFile
         else
           let crc32_checksum = the (read_u32 (take 4 (drop pos contents)));
               data = drop min_file_size contents
           in if crc data \<noteq> crc32_checksum then Inl Crc32Mismatch
              else case decode data of
                     Inl e \<Rightarrow> Inl (Bitcode e)
                   | Inr c \<Rightarrow> Inr c)"

definition serialize_to_file_bytes ::
    "(byte list \<Rightarrow> 32 word) \<Rightarrow> ('c \<Rightarrow> 'e + byte list) \<Rightarrow> 'c \<Rightarrow> 'e serialize_error + byte list" where
  "serialize_to_file_bytes crc encode contents =
     (case encode contents of
        Inl e \<Rightarrow> Inl (Bitcode e)
      | Inr data \<Rightarrow> Inr (FILE_TYPE_IDENTIFIER @ to_be_bytes (crc data) @ data))"

lemma length_identifier [simp]: "length FILE_TYPE_IDENTIFIER = 8"
  by (simp add: FILE_TYPE_IDENTIFIER_def ascii_def)

lemma length_be [simp]: "length (to_be_bytes c) = 4"
  by (simp add: to_be_bytes_def)

lemma byte_high_bits: "8 \<le> n \<Longrightarrow> \<not> bit (b :: byte) n"
  using bit_imp_le_length [of b n] by auto

lemma be_or_bytes:
  fixes c :: "32 word"
  shows "push_bit 24 (ucast (ucast (drop_bit 24 c) :: byte)) OR
      push_bit 16 (ucast (ucast (drop_bit 16 c) :: byte)) OR
      push_bit 8 (ucast (ucast (drop_bit 8 c) :: byte)) OR ucast (ucast c :: byte) = c"
    (is "?w = c")
proof (rule bit_word_eqI)
  fix n
  assume "n < LENGTH(32)"
  then consider "n < 8" | "8 \<le> n" "n < 16" | "16 \<le> n" "n < 24" | "24 \<le> n" "n < 32"
    by force
  then show "bit ?w n = bit c n"
    by cases (auto simp: bit_simps byte_high_bits)
qed

lemma read_u32_be [simp]: "read_u32 (to_be_bytes c @ r) = Some c"
  by (simp add: to_be_bytes_def be_or_bytes)

lemma to_be_bytes_inject [simp]: "to_be_bytes a = to_be_bytes b \<longleftrightarrow> a = b"
  by (metis option.inject read_u32_be)

lemma be_read_u32: "length bs = 4 \<Longrightarrow> to_be_bytes (the (read_u32 bs)) = bs"
proof -
  assume "length bs = 4"
  then obtain a b c d where bs: "bs = [a, b, c, d]"
    by (auto simp: numeral_eq_Suc length_Suc_conv)
  show ?thesis unfolding bs to_be_bytes_def
    by (auto intro!: bit_word_eqI simp: bit_simps byte_high_bits)
qed

lemma wal_file_accepts_char:
  "decode data = Inr c \<Longrightarrow>
   verify_file_type_and_deserialize crc decode (FILE_TYPE_IDENTIFIER @ to_be_bytes (crc data) @ data) = Inr c"
proof -
  have "read_u32 (to_be_bytes (crc data)) = Some (crc data)" using read_u32_be [of _ "[]"] by simp
  then show "decode data = Inr c \<Longrightarrow> ?thesis"
    by (simp add: verify_file_type_and_deserialize_def Let_def)
qed

section \<open>Properties\<close>

text \<open>
  C22. A byte string is accepted as a WAL file exactly when it is the identifier, the big-endian
  checksum of the rest and a payload that decodes: every truncation of the header, foreign
  identifier or payload that does not match its checksum is rejected, each with its own error.
\<close>

theorem wal_file_accepts_iff:
  "(verify_file_type_and_deserialize crc decode b = Inr c \<longleftrightarrow>
      (\<exists>data. b = FILE_TYPE_IDENTIFIER @ to_be_bytes (crc data) @ data \<and> decode data = Inr c)) \<and>
   (verify_file_type_and_deserialize crc decode b = Inl Crc32Mismatch \<longleftrightarrow>
      (\<exists>k data. b = FILE_TYPE_IDENTIFIER @ to_be_bytes k @ data \<and> k \<noteq> crc data)) \<and>
   (verify_file_type_and_deserialize crc decode b = Inl InvalidWalFile \<longleftrightarrow>
      12 \<le> length b \<and> take 8 b \<noteq> FILE_TYPE_IDENTIFIER) \<and>
   (\<forall>n m. verify_file_type_and_deserialize crc decode b = Inl (WalFileTooSmall n m) \<longleftrightarrow>
      n = 12 \<and> m = length b \<and> length b < 12)"
proof (cases "12 \<le> length b \<and> take 8 b = FILE_TYPE_IDENTIFIER")
  case False
  then show ?thesis
    by (cases "length b < 12") (auto simp: verify_file_type_and_deserialize_def Let_def)
next
  case True
  define k where "k = the (read_u32 (take 4 (drop 8 b)))"
  define data where "data = drop 12 b"
  have "b = take 8 b @ take 4 (drop 8 b) @ data"
    using append_take_drop_id [of 8 b] append_take_drop_id [of 4 "drop 8 b"]
    by (simp add: data_def)
  moreover have "to_be_bytes k = take 4 (drop 8 b)"
    unfolding k_def using True by (intro be_read_u32) auto
  ultimately have b: "b = FILE_TYPE_IDENTIFIER @ to_be_bytes k @ data"
    using True by metis
  have inj: "FILE_TYPE_IDENTIFIER @ to_be_bytes k @ data = FILE_TYPE_IDENTIFIER @ to_be_bytes k' @ data'
      \<longleftrightarrow> k = k' \<and> data = data'" for k' data'
    by (metis append_eq_append_conv length_be option.inject read_u32_be)
  have "verify_file_type_and_deserialize crc decode b =
      (if crc data \<noteq> k then Inl Crc32Mismatch
       else case decode data of Inl e \<Rightarrow> Inl (Bitcode e) | Inr c \<Rightarrow> Inr c)"
    using True by (simp add: verify_file_type_and_deserialize_def Let_def k_def data_def)
  with True b show ?thesis
    by (auto simp: inj split: sum.splits)
qed

text \<open>
  C23. Round trip: for a codec that decodes what it encoded, the bytes written for WAL contents are
  read back as the same contents, and writing fails only when encoding does.
\<close>

theorem wal_file_round_trip:
  assumes "\<And>c data. encode c = Inr data \<Longrightarrow> decode data = Inr (c :: 'c)"
  shows "case serialize_to_file_bytes crc encode c of
           Inr b \<Rightarrow> verify_file_type_and_deserialize crc decode b = Inr c
         | Inl e \<Rightarrow> (\<exists>x. encode c = Inl x \<and> e = Bitcode x)"
proof (cases "encode c")
  case (Inr data)
  then have "decode data = Inr c" by (rule assms)
  with Inr show ?thesis by (simp add: serialize_to_file_bytes_def wal_file_accepts_char)
qed (simp add: serialize_to_file_bytes_def)

text \<open>The codec of the example writes a boolean payload as one byte.\<close>

theorem wal_file_round_trip_witness:
  "let encode = (\<lambda>c. if c then Inr [1] else Inr [0]) :: bool \<Rightarrow> unit + byte list;
       decode = (\<lambda>d. if d = [1] then Inr True else if d = [0] then Inr False else Inl ());
       crc = (\<lambda>d. of_nat (length d))
   in \<exists>b. serialize_to_file_bytes crc encode True = Inr b \<and>
          verify_file_type_and_deserialize crc decode b = Inr True"
proof -
  let ?encode = "(\<lambda>c. if c then Inr [1] else Inr [0]) :: bool \<Rightarrow> unit + byte list"
  let ?decode = "\<lambda>d. if d = [1] then Inr True else if d = [0] then Inr False else Inl ()"
  let ?crc = "\<lambda>d. of_nat (length d)"
  have "\<And>c data. ?encode c = Inr data \<Longrightarrow> ?decode data = Inr c" by (auto split: if_splits)
  from wal_file_round_trip [where encode = ?encode and decode = ?decode and crc = ?crc and c = True, OF this]
  show ?thesis by (simp add: Let_def serialize_to_file_bytes_def)
qed

end
