(* ===== verification/Object_Store.thy ===== *)
theory Object_Store
  imports Rust_Strings "HOL-Library.Word"
begin

text \<open>
  What the program uses of the \<open>object_store\<close> crate, which is third-party code: path construction
  and its error variants. The crate's functions are fields of a record the definitions take as an
  argument; \<open>path_api_ok\<close> states the documented behaviour on plain segments, and \<open>plain_paths\<close> is a
  concrete implementation of it.
\<close>

section \<open>Paths\<close>

text \<open>
  A path is its raw string. A plain segment consists of letters, digits, \<open>-\<close>, \<open>_\<close> and \<open>.\<close>, and is
  neither empty nor a relative component: percent encoding leaves such a segment alone.
\<close>

definition plain_char :: "char \<Rightarrow> bool" where
  "plain_char c \<longleftrightarrow> is_digit c \<or>
     (let n = (of_char c :: nat) in 65 \<le> n \<and> n \<le> 90 \<or> 97 \<le> n \<and> n \<le> 122) \<or>
     c \<in> set ''-_.''"

definition plain_seg :: "string \<Rightarrow> bool" where
  "plain_seg s \<longleftrightarrow> s \<noteq> [] \<and> list_all plain_char s \<and> s \<noteq> ''.'' \<and> s \<noteq> ''..''"

fun join_path :: "string list \<Rightarrow> string" where
  "join_path [] = []"
| "join_path [s] = s"
| "join_path (s # t # ss) = s @ CHR ''/'' # join_path (t # ss)"

record path_api =
  path_from :: "string \<Rightarrow> string"
  path_parts :: "string \<Rightarrow> string list"
  path_filename :: "string \<Rightarrow> string option"

definition path_api_ok :: "path_api \<Rightarrow> bool" where
  "path_api_ok pa \<longleftrightarrow>
     (\<forall>ss. ss \<noteq> [] \<and> list_all plain_seg ss \<longrightarrow>
        path_from pa (join_path ss) = join_path ss \<and>
        path_parts pa (join_path ss) = ss \<and>
        path_filename pa (join_path ss) = Some (last ss))"

definition plain_paths :: path_api where
  "plain_paths = \<lparr> path_from = (\<lambda>s. s), path_parts = split_on (CHR ''/''),
                   path_filename = (\<lambda>s. Some (last (split_on (CHR ''/'') s))) \<rparr>"

lemma plain_char_not_slash: "plain_char c \<Longrightarrow> c \<noteq> CHR ''/''"
  by (auto simp: plain_char_def is_digit_def Let_def)

lemma plain_seg_no_slash: "plain_seg s \<Longrightarrow> CHR ''/'' \<notin> set s"
  using plain_char_not_slash by (auto simp: plain_seg_def list_all_iff)

lemma split_join_path: "ss \<noteq> [] \<Longrightarrow> list_all plain_seg ss \<Longrightarrow> split_on (CHR ''/'') (join_path ss) = ss"
  by (induction ss rule: join_path.induct)
     (simp_all add: split_on_none split_on_append plain_seg_no_slash)

lemma plain_paths_ok: "path_api_ok plain_paths"
  by (simp add: path_api_ok_def plain_paths_def split_join_path)

lemma path_api_okD:
  assumes "path_api_ok pa" "ss \<noteq> []" "list_all plain_seg ss"
  shows "path_from pa (join_path ss) = join_path ss" "path_parts pa (join_path ss) = ss"
    "path_filename pa (join_path ss) = Some (last ss)"
  using assms by (simp_all add: path_api_ok_def)

lemma plain_char_digit: "is_digit c \<Longrightarrow> plain_char c"
  by (simp add: plain_char_def)

lemma plain_seg_pad0:
  assumes "list_all plain_char suf"
  shows "plain_seg (pad0 w n @ suf)"
proof -
  have d: "list_all is_digit (pad0 w n)" by (rule pad0_digits)
  then have h: "is_digit (hd (pad0 w n))" by (cases "pad0 w n") auto
  then have "hd (pad0 w n) \<noteq> CHR ''.''" by (auto simp: is_digit_def)
  moreover have "list_all plain_char (pad0 w n)"
    using d by (auto simp: list_all_iff plain_char_digit)
  ultimately show ?thesis
    using assms by (cases "pad0 w n") (auto simp: plain_seg_def)
qed

section \<open>Errors\<close>

datatype store_error =
    AlreadyExists
  | NotFound
  | Precondition
  | NotSupported
  | Generic string
  | OtherStoreError string

section \<open>Programs over an object store\<close>

text \<open>
  Code that talks to the store is a program: at each call it hands over to the store and continues
  with the answer. A program can be run from start to end on one store (\<open>run_prog\<close>), or its calls
  can be interleaved with those of other processes.
\<close>

type_synonym bytes = "8 word list"

record update_version =
  e_tag :: "string option"
  uv_version :: "string option"

datatype put_mode = PutOverwrite | PutCreate | PutUpdate update_version

datatype 'a prog =
    Done 'a
  | Put string bytes put_mode "store_error + update_version \<Rightarrow> 'a prog"
  | Get string "store_error + bytes \<Rightarrow> 'a prog"
  | Head string "store_error + update_version \<Rightarrow> 'a prog"
  | Delete string "store_error + unit \<Rightarrow> 'a prog"
  | ListPrefix string "store_error + string list \<Rightarrow> 'a prog"

primrec bind_prog :: "'a prog \<Rightarrow> ('a \<Rightarrow> 'b prog) \<Rightarrow> 'b prog" where
  "bind_prog (Done x) f = f x"
| "bind_prog (Put p b m k) f = Put p b m (\<lambda>r. bind_prog (k r) f)"
| "bind_prog (Get p k) f = Get p (\<lambda>r. bind_prog (k r) f)"
| "bind_prog (Head p k) f = Head p (\<lambda>r. bind_prog (k r) f)"
| "bind_prog (Delete p k) f = Delete p (\<lambda>r. bind_prog (k r) f)"
| "bind_prog (ListPrefix p k) f = ListPrefix p (\<lambda>r. bind_prog (k r) f)"

record 's store_api =
  api_put :: "string \<Rightarrow> bytes \<Rightarrow> put_mode \<Rightarrow> 's \<Rightarrow> (store_error + update_version) \<times> 's"
  api_get :: "string \<Rightarrow> 's \<Rightarrow> store_error + bytes"
  api_head :: "string \<Rightarrow> 's \<Rightarrow> store_error + update_version"
  api_delete :: "string \<Rightarrow> 's \<Rightarrow> (store_error + unit) \<times> 's"
  api_list :: "string \<Rightarrow> 's \<Rightarrow> store_error + string list"

text \<open>One store call of a program.\<close>

fun prog_call :: "'s store_api \<Rightarrow> 'a prog \<Rightarrow> 's \<Rightarrow> 'a prog \<times> 's" where
  "prog_call api (Done x) s = (Done x, s)"
| "prog_call api (Put p b m k) s = (let (r, s) = api_put api p b m s in (k r, s))"
| "prog_call api (Get p k) s = (k (api_get api p s), s)"
| "prog_call api (Head p k) s = (k (api_head api p s), s)"
| "prog_call api (Delete p k) s = (let (r, s) = api_delete api p s in (k r, s))"
| "prog_call api (ListPrefix p k) s = (k (api_list api p s), s)"

primrec run_prog :: "'s store_api \<Rightarrow> 'a prog \<Rightarrow> 's \<Rightarrow> 'a \<times> 's" where
  "run_prog api (Done x) s = (x, s)"
| "run_prog api (Put p b m k) s = (let (r, s) = api_put api p b m s in run_prog api (k r) s)"
| "run_prog api (Get p k) s = run_prog api (k (api_get api p s)) s"
| "run_prog api (Head p k) s = run_prog api (k (api_head api p s)) s"
| "run_prog api (Delete p k) s = (let (r, s) = api_delete api p s in run_prog api (k r) s)"
| "run_prog api (ListPrefix p k) s = run_prog api (k (api_list api p s)) s"

lemma run_prog_bind:
  "run_prog api (bind_prog p f) s = (let (x, s) = run_prog api p s in run_prog api (f x) s)"
  by (induction p arbitrary: s) (simp_all add: Let_def split: prod.split)

section \<open>What a conforming store promises\<close>

text \<open>
  \<open>view s\<close> is what the store holds, \<open>used s\<close> the versions it has handed out. Conditional writes hold
  when their condition does, every write gets a version never used before, and a call that answers
  with an error about the object has changed nothing; any other error leaves open whether the write
  took place.
\<close>

type_synonym objects = "string \<Rightarrow> (bytes \<times> update_version) option"

definition object_error :: "store_error \<Rightarrow> bool" where
  "object_error e \<longleftrightarrow> e \<in> {AlreadyExists, NotFound, Precondition, NotSupported}"

fun mode_allows :: "put_mode \<Rightarrow> (bytes \<times> update_version) option \<Rightarrow> bool" where
  "mode_allows PutOverwrite _ = True"
| "mode_allows PutCreate ob = (ob = None)"
| "mode_allows (PutUpdate v) ob = (\<exists>b. ob = Some (b, v))"

definition put_law ::
    "('s \<Rightarrow> objects) \<Rightarrow> ('s \<Rightarrow> update_version set) \<Rightarrow> string \<Rightarrow> bytes \<Rightarrow> put_mode \<Rightarrow> 's \<Rightarrow>
     (store_error + update_version) \<times> 's \<Rightarrow> bool" where
  "put_law view used p b m s res =
     (case res of
        (Inr v, s') \<Rightarrow> mode_allows m (view s p) \<and> v \<notin> used s \<and> used s' = insert v (used s) \<and>
          view s' = (view s)(p \<mapsto> (b, v))
      | (Inl e, s') \<Rightarrow> view s' = view s \<and> used s' = used s \<or>
          \<not> object_error e \<and> mode_allows m (view s p) \<and>
          (\<exists>v. v \<notin> used s \<and> used s' = insert v (used s) \<and> view s' = (view s)(p \<mapsto> (b, v))))"

definition delete_law ::
    "('s \<Rightarrow> objects) \<Rightarrow> ('s \<Rightarrow> update_version set) \<Rightarrow> string \<Rightarrow> 's \<Rightarrow>
     (store_error + unit) \<times> 's \<Rightarrow> bool" where
  "delete_law view used p s res =
     (case res of
        (Inr _, s') \<Rightarrow> view s' = (view s)(p := None) \<and> used s' = used s
      | (Inl e, s') \<Rightarrow> used s' = used s \<and>
          (view s' = view s \<or> \<not> object_error e \<and> view s' = (view s)(p := None)))"

definition store_ok :: "'s store_api \<Rightarrow> ('s \<Rightarrow> objects) \<Rightarrow> ('s \<Rightarrow> update_version set) \<Rightarrow> bool" where
  "store_ok api view used \<longleftrightarrow>
     (\<forall>s p b v. view s p = Some (b, v) \<longrightarrow> v \<in> used s) \<and>
     (\<forall>s p b m. put_law view used p b m s (api_put api p b m s)) \<and>
     (\<forall>s p b. api_get api p s = Inr b \<longrightarrow> (\<exists>v. view s p = Some (b, v))) \<and>
     (\<forall>s p. api_get api p s = Inl NotFound \<longrightarrow> view s p = None) \<and>
     (\<forall>s p v. api_head api p s = Inr v \<longrightarrow> (\<exists>b. view s p = Some (b, v))) \<and>
     (\<forall>s p. delete_law view used p s (api_delete api p s))"

lemma store_okD:
  assumes "store_ok api view used"
  shows store_used: "view s p = Some (b, v) \<Longrightarrow> v \<in> used s"
    and store_put: "api_put api p b m s = res \<Longrightarrow> put_law view used p b m s res"
    and store_get: "api_get api p s = Inr b \<Longrightarrow> \<exists>v. view s p = Some (b, v)"
    and store_get_none: "api_get api p s = Inl NotFound \<Longrightarrow> view s p = None"
    and store_head: "api_head api p s = Inr v \<Longrightarrow> \<exists>b. view s p = Some (b, v)"
    and store_delete: "api_delete api p s = res' \<Longrightarrow> delete_law view used p s res'"
proof -
  show "view s p = Some (b, v) \<Longrightarrow> v \<in> used s" using assms unfolding store_ok_def by blast
  show "api_put api p b m s = res \<Longrightarrow> put_law view used p b m s res"
    using assms unfolding store_ok_def by blast
  show "api_get api p s = Inr b \<Longrightarrow> \<exists>v. view s p = Some (b, v)"
    using assms unfolding store_ok_def by blast
  show "api_get api p s = Inl NotFound \<Longrightarrow> view s p = None" using assms unfolding store_ok_def by blast
  show "api_head api p s = Inr v \<Longrightarrow> \<exists>b. view s p = Some (b, v)"
    using assms unfolding store_ok_def by blast
  show "api_delete api p s = res' \<Longrightarrow> delete_law view used p s res'"
    using assms unfolding store_ok_def by blast
qed

section \<open>An in-memory store\<close>

text \<open>A store that keeps its objects in a list and numbers its versions; it conforms.\<close>

record mem_store =
  mem_objects :: "(string \<times> bytes \<times> nat) list"
  mem_next :: nat

definition mem_version :: "nat \<Rightarrow> update_version" where
  "mem_version n = \<lparr> e_tag = Some (show_nat n), uv_version = None \<rparr>"

definition mem_empty :: mem_store where
  "mem_empty = \<lparr> mem_objects = [], mem_next = 0 \<rparr>"

definition mem_fresh :: "mem_store \<Rightarrow> nat" where
  "mem_fresh s = fold max (map (\<lambda>(_, _, n). Suc n) (mem_objects s)) (mem_next s)"

fun mem_allows :: "put_mode \<Rightarrow> (bytes \<times> nat) option \<Rightarrow> store_error option" where
  "mem_allows PutOverwrite _ = None"
| "mem_allows PutCreate ob = (if ob = None then None else Some AlreadyExists)"
| "mem_allows (PutUpdate v) ob =
     (case ob of
        None \<Rightarrow> Some NotFound
      | Some (_, n) \<Rightarrow> if mem_version n = v then None else Some Precondition)"

definition mem_put ::
    "string \<Rightarrow> bytes \<Rightarrow> put_mode \<Rightarrow> mem_store \<Rightarrow> (store_error + update_version) \<times> mem_store" where
  "mem_put p b m s =
     (case mem_allows m (map_of (mem_objects s) p) of
        Some e \<Rightarrow> (Inl e, s)
      | None \<Rightarrow> (Inr (mem_version (mem_fresh s)),
                 \<lparr> mem_objects = AList.update p (b, mem_fresh s) (mem_objects s),
                   mem_next = Suc (mem_fresh s) \<rparr>))"

definition mem_delete :: "string \<Rightarrow> mem_store \<Rightarrow> (store_error + unit) \<times> mem_store" where
  "mem_delete p s =
     (if map_of (mem_objects s) p = None then (Inl NotFound, s)
      else (Inr (), \<lparr> mem_objects = AList.delete p (mem_objects s), mem_next = mem_fresh s \<rparr>))"

definition mem_api :: "mem_store store_api" where
  "mem_api =
     \<lparr> api_put = mem_put,
       api_get = (\<lambda>p s. case map_of (mem_objects s) p of None \<Rightarrow> Inl NotFound | Some (b, _) \<Rightarrow> Inr b),
       api_head = (\<lambda>p s. case map_of (mem_objects s) p of None \<Rightarrow> Inl NotFound
                         | Some (_, n) \<Rightarrow> Inr (mem_version n)),
       api_delete = mem_delete,
       api_list = (\<lambda>pre s. Inr (filter (\<lambda>p. prefix (pre @ ''/'') p) (map fst (mem_objects s)))) \<rparr>"

definition mem_view :: "mem_store \<Rightarrow> objects" where
  "mem_view s p = map_option (\<lambda>(b, n). (b, mem_version n)) (map_of (mem_objects s) p)"

definition mem_used :: "mem_store \<Rightarrow> update_version set" where
  "mem_used s = mem_version ` {..<mem_fresh s}"

lemma mem_version_inj: "mem_version m = mem_version n \<longleftrightarrow> m = n"
  by (simp add: mem_version_def show_nat_inj)

lemma fold_max_nat: "x \<in> set xs \<Longrightarrow> x \<le> fold max xs (a :: nat)" "a \<le> fold max xs (a :: nat)"
  using Max.set_eq_fold [of a xs] by (metis List.finite_set Max_ge list.set_intros(1,2))+

lemma fold_max_nat_le: "fold max xs (a :: nat) \<le> c \<longleftrightarrow> a \<le> c \<and> (\<forall>x \<in> set xs. x \<le> c)"
  using Max.set_eq_fold [of a xs] by (metis Max_le_iff List.finite_set list.simps(15) empty_iff insert_iff)

lemma mem_fresh_object: "map_of (mem_objects s) p = Some (b, n) \<Longrightarrow> n < mem_fresh s"
  using fold_max_nat(1) [of "Suc n" "map (\<lambda>(_, _, n). Suc n) (mem_objects s)" "mem_next s"]
  by (force simp: mem_fresh_def dest: map_of_SomeD)

lemma mem_fresh_put:
  "mem_fresh \<lparr> mem_objects = AList.update p (b, mem_fresh s) (mem_objects s),
     mem_next = Suc (mem_fresh s) \<rparr> = Suc (mem_fresh s)" (is "mem_fresh ?s = _")
proof (rule antisym)
  have "n < mem_fresh s" if "(q, c, n) \<in> set (mem_objects s)" for q c n
    using fold_max_nat(1) [of "Suc n" "map (\<lambda>(_, _, n). Suc n) (mem_objects s)" "mem_next s"] that
    by (force simp: mem_fresh_def)
  then have "n \<le> mem_fresh s" if "(q, c, n) \<in> set (AList.update p (b, mem_fresh s) (mem_objects s))" for q c n
    using that by (fastforce dest: set_AList_update)
  then show "mem_fresh ?s \<le> Suc (mem_fresh s)"
    by (auto simp: mem_fresh_def [of ?s] fold_max_nat_le)
  show "Suc (mem_fresh s) \<le> mem_fresh ?s" by (simp add: mem_fresh_def [of ?s] fold_max_nat(2))
qed

lemma mem_fresh_delete:
  "mem_fresh \<lparr> mem_objects = AList.delete p (mem_objects s), mem_next = mem_fresh s \<rparr> = mem_fresh s"
    (is "mem_fresh ?s = _")
proof (rule antisym)
  have "Suc n \<le> mem_fresh s" if "(q, c, n) \<in> set (mem_objects s)" for q c n
    using fold_max_nat(1) [of "Suc n" "map (\<lambda>(_, _, n). Suc n) (mem_objects s)" "mem_next s"] that
    by (force simp: mem_fresh_def)
  then show "mem_fresh ?s \<le> mem_fresh s"
    unfolding mem_fresh_def [of ?s] fold_max_nat_le by (auto simp: AList.delete_eq)
  show "mem_fresh s \<le> mem_fresh ?s" by (simp add: mem_fresh_def [of ?s] fold_max_nat(2))
qed

lemma mem_put_law: "put_law mem_view mem_used p b m s (mem_put p b m s)"
proof (cases "mem_allows m (map_of (mem_objects s) p)")
  case None
  then have "mode_allows m (mem_view s p)"
    by (cases m) (auto simp: mem_view_def split: if_splits option.splits)
  moreover have "mem_version (mem_fresh s) \<notin> mem_used s"
    by (auto simp: mem_used_def mem_version_inj)
  ultimately show ?thesis
    using None
    by (auto simp: put_law_def mem_put_def mem_used_def mem_fresh_put lessThan_Suc mem_view_def
        fun_eq_iff AList.update_conv')
qed (simp add: put_law_def mem_put_def)

lemma mem_api_ok: "store_ok mem_api mem_view mem_used"
  unfolding store_ok_def
proof (intro conjI allI impI)
  fix s p b v
  assume "mem_view s p = Some (b, v)"
  then show "v \<in> mem_used s"
    by (auto simp: mem_view_def mem_used_def dest: mem_fresh_object)
next
  fix s p
  show "delete_law mem_view mem_used p s (api_delete mem_api p s)"
    by (auto simp: delete_law_def mem_api_def mem_delete_def mem_view_def mem_used_def mem_fresh_delete fun_eq_iff
        delete_conv')
qed (auto simp: mem_api_def mem_put_law mem_view_def split: option.splits)

end
