(* ===== verification/Wal_Store.thy ===== *)
theory Wal_Store
  imports Wal_Buffer Wal_Serialize Object_Store
begin

text \<open>
  \<open>WalObjectStore\<close> of influxdb3_wal/src/object_store.rs: file paths and their listing, the flush
  with its retries, replay at start-up and removal of snapshotted files. An operation returns the
  calls it makes on its surroundings (object store, file notifiers, waiting clients, shutdown
  token) as a list of events in program order, beside the new state. What the object store answers
  is an argument: a function from the attempt number to the outcome.
\<close>

section \<open>WAL file paths\<close>

definition wal_path :: "path_api \<Rightarrow> string \<Rightarrow> wal_file_sequence_number \<Rightarrow> string" where
  "wal_path pa nid n = path_from pa (nid @ ''/wal/'' @ pad0 11 n @ ''.wal'')"

definition wal_number_try_from :: "path_api \<Rightarrow> string \<Rightarrow> wal_error + wal_file_sequence_number" where
  "wal_number_try_from pa path =
     (let parts = path_parts pa path in
      if length parts \<noteq> 3 then Inl InvalidWalFilePath
      else case parse_uint u64_max (trim_end_matches ''.wal'' (parts ! 2)) of
             Some n \<Rightarrow> Inr n
           | None \<Rightarrow> Inl InvalidWalFilePath)"

definition before_sub :: "string \<Rightarrow> string \<Rightarrow> string" where
  "before_sub pat s = (case find_sub pat s of None \<Rightarrow> s | Some i \<Rightarrow> take i s)"

definition oldest_wal_file_num :: "path_api \<Rightarrow> string list \<Rightarrow> wal_file_sequence_number option" where
  "oldest_wal_file_num pa paths =
     (case paths of
        [] \<Rightarrow> None
      | p # _ \<Rightarrow>
          (case path_filename pa p of
             None \<Rightarrow> None
           | Some f \<Rightarrow> parse_uint u64_max (before_sub ''.wal'' (last (split_on (CHR ''/'') f)))))"

definition load_existing_wal_file_paths ::
    "path_api \<Rightarrow> string \<Rightarrow> wal_file_sequence_number option \<Rightarrow> string list \<Rightarrow> string list" where
  "load_existing_wal_file_paths pa nid last_no paths =
     filter (\<lambda>p. case last_no of None \<Rightarrow> True | Some n \<Rightarrow> wal_path pa nid n < p) paths"

text \<open>
  The listing loop: \<open>ls offset\<close> is what the store lists under the WAL prefix, from the start or
  after an offset. It runs until a listing yields nothing new.
\<close>

partial_function (option) load_all_loop ::
    "(string option \<Rightarrow> store_error + string list) \<Rightarrow> string list \<Rightarrow> string option \<Rightarrow>
     (store_error + string list) option" where
  "load_all_loop ls paths offset =
     (case ls offset of
        Inl e \<Rightarrow> Some (Inl e)
      | Inr items \<Rightarrow>
          (let paths' = sort (paths @ items) in
           if length paths = length (paths @ items) then Some (Inr paths')
           else load_all_loop ls paths' (Some (last paths'))))"

definition load_all_wal_file_paths ::
    "path_api \<Rightarrow> (string \<Rightarrow> string option \<Rightarrow> store_error + string list) \<Rightarrow> string \<Rightarrow>
     (store_error + string list) option" where
  "load_all_wal_file_paths pa ls nid =
     load_all_loop (ls (path_from pa (nid @ ''/wal''))) [] None"

section \<open>State and events\<close>

datatype notifier = MainNotifier | AddedNotifier nat

datatype wal_event =
    PutFile string "byte list"
  | Notify notifier wal_contents
  | NotifyAndSnapshot wal_contents snapshot_details
  | Reply response write_result
  | DeleteFile string
  | CancelShutdownToken

record wal_object_store =
  node_identifier_prefix :: string
  added_file_notifiers :: "nat list"
  ws_flush_buffer :: flush_buffer
  snapshotted_wal_files_to_keep :: nat
  oldest_wal_file :: "wal_file_sequence_number option"
  last_snapshotted_wal_sequence_number :: "wal_file_sequence_number option"

record wal_config =
  cfg_gen1_duration :: gen1_duration
  max_write_buffer_size :: nat
  flush_interval :: duration
  cfg_snapshot_size :: nat
  wal_replay_fail_on_error :: bool

definition wal_config_default :: wal_config where
  "wal_config_default =
     \<lparr> cfg_gen1_duration = gen1_default, max_write_buffer_size = 100000,
       flush_interval = from_secs 1, cfg_snapshot_size = 600, wal_replay_fail_on_error = False \<rparr>"

definition new_without_replay ::
    "path_api \<Rightarrow> string \<Rightarrow> wal_config \<Rightarrow> nat option \<Rightarrow> nat option \<Rightarrow> string list \<Rightarrow> nat \<Rightarrow>
     wal_object_store" where
  "new_without_replay pa nid cfg last_wal last_snap paths keep =
     \<lparr> node_identifier_prefix = nid, added_file_notifiers = [],
       ws_flush_buffer =
         \<lparr> fb_wal_buffer =
             \<lparr> wb_state = AcceptingWrites, wal_file_sequence_number = seq_next (the_or 0 last_wal),
               op_limit = max_write_buffer_size cfg, op_count = 0, database_to_write_batch = [],
               write_op_responses = [], no_op = None \<rparr>,
           fb_snapshot_tracker =
             tracker_new (cfg_snapshot_size cfg) (cfg_gen1_duration cfg) last_snap \<rparr>,
       snapshotted_wal_files_to_keep = keep,
       oldest_wal_file = oldest_wal_file_num pa paths,
       last_snapshotted_wal_sequence_number = last_wal \<rparr>"

definition add_file_notifier :: "nat \<Rightarrow> wal_object_store \<Rightarrow> wal_object_store" where
  "add_file_notifier n ws = ws \<lparr> added_file_notifiers := added_file_notifiers ws @ [n] \<rparr>"

definition upd_buffer :: "(wal_buffer \<Rightarrow> wal_buffer) \<Rightarrow> wal_object_store \<Rightarrow> wal_object_store" where
  "upd_buffer f ws =
     ws \<lparr> ws_flush_buffer := ws_flush_buffer ws
            \<lparr> fb_wal_buffer := f (fb_wal_buffer (ws_flush_buffer ws)) \<rparr> \<rparr>"

text \<open>\<open>write_ops\<close> registers the response; the reply comes with the flush.\<close>

definition ws_write_ops ::
    "wal_op list \<Rightarrow> response \<Rightarrow> wal_object_store \<Rightarrow> (wal_error + unit) \<times> wal_object_store" where
  "ws_write_ops ops resp ws =
     (let (r, wb) = buffer_ops_with_response ops resp (fb_wal_buffer (ws_flush_buffer ws))
      in (r, upd_buffer (\<lambda>_. wb) ws))"

definition ws_write_ops_unconfirmed ::
    "wal_op list \<Rightarrow> wal_object_store \<Rightarrow> (wal_error + unit) \<times> wal_object_store" where
  "ws_write_ops_unconfirmed ops ws =
     (case write_ops_unconfirmed ops (fb_wal_buffer (ws_flush_buffer ws)) of
        Inl e \<Rightarrow> (Inl e, ws)
      | Inr wb \<Rightarrow> (Inr (), upd_buffer (\<lambda>_. wb) ws))"

section \<open>Flushing\<close>

text \<open>The retry loop: attempt \<open>k\<close> is answered by \<open>put k\<close>; after 101 failures it gives up.\<close>

datatype put_end = PutDone | PutExists | PutGaveUp store_error

function put_loop :: "(nat \<Rightarrow> store_error + unit) \<Rightarrow> nat \<Rightarrow> put_end" where
  "put_loop put retry_count =
     (case put retry_count of
        Inr _ \<Rightarrow> PutDone
      | Inl AlreadyExists \<Rightarrow> PutExists
      | Inl e \<Rightarrow> if 100 < retry_count + 1 then PutGaveUp e else put_loop put (retry_count + 1))"
  by pat_completeness auto
termination by (relation "measure (\<lambda>(_, n). 101 - n)") auto

declare put_loop.simps [simp del]

record 'e wal_env =
  env_paths :: path_api
  env_crc :: "byte list \<Rightarrow> 32 word"
  env_encode :: "wal_contents \<Rightarrow> 'e + byte list"
  env_decode :: "byte list \<Rightarrow> 'e + wal_contents"
  env_show :: "store_error \<Rightarrow> string"

definition ws_flush_buffer_op ::
    "'e wal_env \<Rightarrow> (nat \<Rightarrow> store_error + unit) \<Rightarrow> int \<Rightarrow> int \<Rightarrow> bool \<Rightarrow> wal_object_store \<Rightarrow>
     (snapshot_details option \<times> wal_event list \<times> wal_object_store) panicking" where
  "ws_flush_buffer_op env put now_ns now_ms force_snapshot ws =
     (if wal_buffer_is_empty (fb_wal_buffer (ws_flush_buffer ws)) \<and> \<not> force_snapshot
      then Inr (None, [], ws)
      else
        bind_res (flush_buffer_into_contents_and_responses now_ns now_ms force_snapshot
          (ws_flush_buffer ws)) (\<lambda>((contents, responses, snapshot), fb).
        let ws = ws \<lparr> ws_flush_buffer := fb \<rparr>;
            path = wal_path (env_paths env) (node_identifier_prefix ws) (wal_file_number contents)
        in case serialize_to_file_bytes (env_crc env) (env_encode env) contents of
             Inl _ \<Rightarrow> Inl (Panic ''unable to serialize wal contents into bytes for file'')
           | Inr data \<Rightarrow>
             (case put_loop put 0 of
                PutExists \<Rightarrow>
                  Inr (None,
                       map (\<lambda>r. Reply r (WriteFailed (show_error_state WalAlreadyWrittenTo))) responses
                         @ [CancelShutdownToken],
                       upd_buffer (set_state (ErrorState WalAlreadyWrittenTo)) ws)
              | PutGaveUp e \<Rightarrow>
                  (let err = WriteFailed (env_show env e);
                       (replies, fb) = flush_buffer_with_failure now_ms err (ws_flush_buffer ws)
                   in Inr (None,
                           map (\<lambda>r. Reply r err) responses @ map (\<lambda>(r, w). Reply r w) replies,
                           ws \<lparr> ws_flush_buffer := fb \<rparr>))
              | PutDone \<Rightarrow>
                  Inr (snapshot,
                       PutFile path data #
                       (case snapshot of
                          Some d \<Rightarrow> NotifyAndSnapshot contents d
                        | None \<Rightarrow> Notify MainNotifier contents) #
                       map (\<lambda>n. Notify (AddedNotifier n) contents) (added_file_notifiers ws) @
                       map (\<lambda>r. Reply r WriteSuccess) responses,
                       ws))))"

section \<open>Removing snapshotted files\<close>

definition remover_state :: "wal_object_store \<Rightarrow> nat \<times> nat" where
  "remover_state ws = (the_or 1 (oldest_wal_file ws), the_or 1 (last_snapshotted_wal_sequence_number ws))"

text \<open>A delete is retried while the store answers with a generic error.\<close>

partial_function (option) delete_loop :: "(nat \<Rightarrow> store_error + unit) \<Rightarrow> nat \<Rightarrow> unit option" where
  "delete_loop del attempt =
     (case del attempt of
        Inl (Generic s) \<Rightarrow> delete_loop del (attempt + 1)
      | _ \<Rightarrow> Some ())"

fun delete_files ::
    "(string \<Rightarrow> nat \<Rightarrow> store_error + unit) \<Rightarrow> string list \<Rightarrow> wal_event list option" where
  "delete_files del [] = Some []"
| "delete_files del (p # ps) =
     (case delete_loop (del p) 0 of
        None \<Rightarrow> None
      | Some _ \<Rightarrow> map_option (\<lambda>evs. DeleteFile p # evs) (delete_files del ps))"

definition remove_snapshot_wal_files ::
    "'e wal_env \<Rightarrow> (string \<Rightarrow> nat \<Rightarrow> store_error + unit) \<Rightarrow> snapshot_details \<Rightarrow> wal_object_store \<Rightarrow>
     (wal_event list \<times> wal_object_store) option" where
  "remove_snapshot_wal_files env del details ws =
     (let ws = ws \<lparr> last_snapshotted_wal_sequence_number := Some (last_wal_sequence_number details) \<rparr>;
          (oldest, last_no) = remover_state ws;
          curr_num_files = u64_sub last_no oldest;
          keep = snapshotted_wal_files_to_keep ws
      in if keep < curr_num_files
         then
           let num_files_to_delete = u64_sub curr_num_files keep;
               last_to_delete = u64_add oldest num_files_to_delete
           in map_option (\<lambda>evs. (evs, ws \<lparr> oldest_wal_file := Some last_to_delete \<rparr>))
                (delete_files del (map (wal_path (env_paths env) (node_identifier_prefix ws))
                   [oldest..<last_to_delete]))
         else Some ([], ws))"

section \<open>Replay\<close>

datatype 'e replay_error =
    ReplaySerialize "'e serialize_error"
  | ReplayStore store_error
  | ReplayPanic panic

fun is_corruption :: "'e serialize_error \<Rightarrow> bool" where
  "is_corruption (Bitcode _) = False"
| "is_corruption _ = True"

definition get_contents ::
    "'e wal_env \<Rightarrow> (string \<Rightarrow> store_error + byte list) \<Rightarrow> string \<Rightarrow> 'e replay_error + wal_contents" where
  "get_contents env get path =
     (case get path of
        Inl e \<Rightarrow> Inl (ReplayStore e)
      | Inr b \<Rightarrow> (case verify_file_type_and_deserialize (env_crc env) (env_decode env) b of
                   Inl e \<Rightarrow> Inl (ReplaySerialize e)
                 | Inr c \<Rightarrow> Inr c))"

definition lift_panic :: "'a panicking \<Rightarrow> 'e replay_error + 'a" where
  "lift_panic r = (case r of Inl p \<Rightarrow> Inl (ReplayPanic p) | Inr x \<Rightarrow> Inr x)"

text \<open>
  One replayed file: its period goes to the tracker, a snapshot recorded in it is taken again from
  the tracker, the notifier is told, and the files the tracker's snapshot covers are removed.
  \<open>last_snap\<close> is the snapshot sequence number the replay started with.
\<close>

definition replay_file ::
    "'e wal_env \<Rightarrow> (string \<Rightarrow> nat \<Rightarrow> store_error + unit) \<Rightarrow> snapshot_sequence_number \<Rightarrow> wal_contents \<Rightarrow>
     wal_object_store \<Rightarrow> ('e replay_error + wal_event list \<times> wal_object_store) option" where
  "replay_file env del last_snap c ws =
     (case lift_panic (bind_res
              (wal_period_new (wal_file_number c) (wc_min_timestamp_ns c) (wc_max_timestamp_ns c))
              (\<lambda>p. replay_wal_period p (ws_flush_buffer ws))) of
        Inl e \<Rightarrow> Some (Inl e)
      | Inr fb \<Rightarrow>
        (let ws = ws \<lparr> ws_flush_buffer := fb \<rparr> in
         case wal_snapshot c of
           None \<Rightarrow> Some (Inr ([Notify MainNotifier c], ws))
         | Some d \<Rightarrow>
           (case lift_panic (tracker_snapshot (forced d) (fb_snapshot_tracker (ws_flush_buffer ws))) of
              Inl e \<Rightarrow> Some (Inl e)
            | Inr (info, st) \<Rightarrow>
              (let ws = ws \<lparr> ws_flush_buffer := ws_flush_buffer ws \<lparr> fb_snapshot_tracker := st \<rparr> \<rparr>;
                   ev = (if sd_snapshot_sequence_number d \<le> last_snap
                         then Notify MainNotifier c else NotifyAndSnapshot c d)
               in case info of
                    None \<Rightarrow> Some (Inr ([ev], ws))
                  | Some i \<Rightarrow>
                      map_option (\<lambda>(evs, ws). Inr (ev # evs, ws))
                        (remove_snapshot_wal_files env del i ws)))))"

fun replay_files ::
    "'e wal_env \<Rightarrow> (string \<Rightarrow> store_error + byte list) \<Rightarrow> (string \<Rightarrow> nat \<Rightarrow> store_error + unit) \<Rightarrow>
     bool \<Rightarrow> snapshot_sequence_number \<Rightarrow> string list \<Rightarrow> wal_object_store \<Rightarrow>
     ('e replay_error + wal_event list \<times> wal_object_store) option" where
  "replay_files env get del fail_on_error last_snap [] ws = Some (Inr ([], ws))"
| "replay_files env get del fail_on_error last_snap (p # ps) ws =
     (case get_contents env get p of
        Inl (ReplaySerialize e) \<Rightarrow>
          if is_corruption e \<and> \<not> fail_on_error
          then replay_files env get del fail_on_error last_snap ps ws
          else Some (Inl (ReplaySerialize e))
      | Inl e \<Rightarrow> Some (Inl e)
      | Inr c \<Rightarrow>
          (case replay_file env del last_snap c ws of
             None \<Rightarrow> None
           | Some (Inl e) \<Rightarrow> Some (Inl e)
           | Some (Inr (evs, ws)) \<Rightarrow>
               (case replay_files env get del fail_on_error last_snap ps ws of
                  Some (Inr (evs', ws)) \<Rightarrow> Some (Inr (evs @ evs', ws))
                | r \<Rightarrow> r)))"

text \<open>
  Files are fetched \<open>concurrency_limit\<close> at a time, but handled one by one in path order, so the
  batches only matter for a limit of zero, which panics.
\<close>

definition ws_replay ::
    "'e wal_env \<Rightarrow> (string \<Rightarrow> store_error + byte list) \<Rightarrow> (string \<Rightarrow> nat \<Rightarrow> store_error + unit) \<Rightarrow>
     nat option \<Rightarrow> string list \<Rightarrow> nat \<Rightarrow> bool \<Rightarrow> wal_object_store \<Rightarrow>
     ('e replay_error + wal_event list \<times> wal_object_store) option" where
  "ws_replay env get del last_wal paths concurrency_limit fail_on_error ws =
     (if concurrency_limit = 0 then Some (Inl (ReplayPanic (Panic ''chunk size must be non-zero'')))
      else replay_files env get del fail_on_error
             (last_snapshot_sequence_number (fb_snapshot_tracker (ws_flush_buffer ws)))
             (load_existing_wal_file_paths (env_paths env) (node_identifier_prefix ws) last_wal paths) ws)"

section \<open>Shutdown\<close>

definition ws_shutdown ::
    "'e wal_env \<Rightarrow> (nat \<Rightarrow> store_error + unit) \<Rightarrow> (string \<Rightarrow> nat \<Rightarrow> store_error + unit) \<Rightarrow> int \<Rightarrow> int \<Rightarrow>
     wal_object_store \<Rightarrow> (wal_event list \<times> wal_object_store) panicking option" where
  "ws_shutdown env put del now_ns now_ms ws =
     (case ws_flush_buffer_op env put now_ns now_ms False (upd_buffer (set_state ShuttingDown) ws) of
        Inl p \<Rightarrow> Some (Inl p)
      | Inr (None, evs, ws) \<Rightarrow> Some (Inr (evs, ws))
      | Inr (Some d, evs, ws) \<Rightarrow>
          map_option (\<lambda>(evs', ws). Inr (evs @ evs', ws)) (remove_snapshot_wal_files env del d ws))"

section \<open>Lemmas on paths and listings\<close>

lemma wal_path_join:
  assumes "path_api_ok pa" "plain_seg nid"
  shows "wal_path pa nid n = join_path [nid, ''wal'', pad0 11 n @ ''.wal'']"
    "path_parts pa (wal_path pa nid n) = [nid, ''wal'', pad0 11 n @ ''.wal'']"
    "path_filename pa (wal_path pa nid n) = Some (pad0 11 n @ ''.wal'')"
proof -
  have "list_all plain_seg [nid, ''wal'', pad0 11 n @ ''.wal'']"
    using assms(2) plain_seg_pad0 [of "''.wal''" 11 n]
    by (simp add: plain_seg_def [of "''wal''"] plain_char_def is_digit_def)
  note a = path_api_okD [OF assms(1) _ this]
  then show "wal_path pa nid n = join_path [nid, ''wal'', pad0 11 n @ ''.wal'']"
    by (simp add: wal_path_def)
  with a show "path_parts pa (wal_path pa nid n) = [nid, ''wal'', pad0 11 n @ ''.wal'']"
    "path_filename pa (wal_path pa nid n) = Some (pad0 11 n @ ''.wal'')"
    by simp_all
qed

lemma wal_path_less:
  assumes "path_api_ok pa" "plain_seg nid" "m < 10 ^ 11" "n < 10 ^ 11"
  shows "wal_path pa nid m < wal_path pa nid n \<longleftrightarrow> m < n"
  using assms(3,4)
  by (simp add: wal_path_join [OF assms(1,2)] append_less_same less_append_same_length length_pad0
      pad0_less del: power_numeral)

lemma find_sub_digits:
  "list_all is_digit s \<Longrightarrow> find_sub ''.wal'' (s @ ''.wal'') = Some (length s)"
proof (induction s)
  case (Cons c s)
  then have "c \<noteq> CHR ''.''" by (auto simp: is_digit_def)
  with Cons show ?case by (subst find_sub.simps) simp
qed (subst find_sub.simps, simp)

lemma before_sub_digits: "list_all is_digit s \<Longrightarrow> before_sub ''.wal'' (s @ ''.wal'') = s"
  by (simp add: before_sub_def find_sub_digits)

text \<open>A listing that yields the stored paths after the offset, in any order.\<close>

definition lists_set :: "string set \<Rightarrow> (string option \<Rightarrow> store_error + string list) \<Rightarrow> bool" where
  "lists_set S ls \<longleftrightarrow> (\<forall>offset. \<exists>items. ls offset = Inr items \<and> distinct items \<and>
     set items = {p \<in> S. case offset of None \<Rightarrow> True | Some q \<Rightarrow> q < p})"

lemma load_all_loop_complete:
  assumes "lists_set S ls" "finite S"
  shows "load_all_loop ls [] None = Some (Inr (sorted_list_of_set S))"
proof -
  obtain items where i: "ls None = Inr items" "distinct items" "set items = S"
    using assms(1) by (auto simp: lists_set_def dest!: spec [of _ None])
  have s: "sort items = sorted_list_of_set S"
    using i by (metis sorted_list_of_set_sort_remdups distinct_remdups_id)
  show ?thesis
  proof (cases "items = []")
    case True
    with i show ?thesis by (subst load_all_loop.simps) simp
  next
    case False
    let ?l = "last (sort items)"
    obtain items' where j: "ls (Some ?l) = Inr items'" "set items' = {p \<in> S. ?l < p}"
      using assms(1) by (auto simp: lists_set_def dest!: spec [of _ "Some ?l"])
    have "p \<le> ?l" if "p \<in> S" for p
      using that i(3) False increasing_le_last [of "sort items" p] i(2)
      by (simp add: strict_sorted_iff)
    then have "set items' = {}" using j(2) by (auto simp: not_less [symmetric])
    then have "items' = []" by simp
    with i j False s show ?thesis
      by (subst load_all_loop.simps, simp, subst load_all_loop.simps)
         (simp add: Let_def sorted_sort_id)
  qed
qed

section \<open>Lemmas on removal and replay\<close>

lemma delete_loop_ends: "\<forall>s. del k \<noteq> Inl (Generic s) \<Longrightarrow> delete_loop del k = Some ()"
  by (subst delete_loop.simps) (auto split: sum.splits store_error.splits)

lemma delete_loop_total:
  assumes "\<forall>s. del (n + k) \<noteq> Inl (Generic s)"
  shows "delete_loop del n = Some ()"
  using assms
proof (induction k arbitrary: n)
  case 0
  then show ?case by (simp add: delete_loop_ends)
next
  case (Suc k)
  show ?case
  proof (cases "\<exists>s. del n = Inl (Generic s)")
    case True
    with Suc.IH [of "Suc n"] Suc.prems show ?thesis by (subst delete_loop.simps) auto
  qed (simp add: delete_loop_ends)
qed

definition deletes_settle :: "(string \<Rightarrow> nat \<Rightarrow> store_error + unit) \<Rightarrow> bool" where
  "deletes_settle del \<longleftrightarrow> (\<forall>p. \<exists>k. \<forall>s. del p k \<noteq> Inl (Generic s))"

lemma delete_files_total: "deletes_settle del \<Longrightarrow> delete_files del ps = Some (map DeleteFile ps)"
proof (induction ps)
  case (Cons p ps)
  obtain k where "\<forall>s. del p k \<noteq> Inl (Generic s)" using Cons.prems by (auto simp: deletes_settle_def)
  with delete_loop_total [of "del p" 0 k] Cons show ?case by simp
qed simp

lemma delete_files_Some: "delete_files del ps = Some evs \<Longrightarrow> evs = map DeleteFile ps"
  by (induction ps arbitrary: evs) (auto split: option.splits)

definition notified :: "wal_event list \<Rightarrow> wal_contents list" where
  "notified evs = concat (map (\<lambda>e. case e of Notify MainNotifier c \<Rightarrow> [c]
     | NotifyAndSnapshot c _ \<Rightarrow> [c] | _ \<Rightarrow> []) evs)"

lemma notified_simps [simp]:
  "notified [] = []" "notified (a @ b) = notified a @ notified b"
  "notified (Notify MainNotifier c # evs) = c # notified evs"
  "notified (NotifyAndSnapshot c d # evs) = c # notified evs"
  "notified (map DeleteFile ps) = []" "notified (map (DeleteFile \<circ> f) ns) = []"
  by (simp_all add: notified_def comp_def)

lemma remove_snapshot_notifies:
  "remove_snapshot_wal_files env del d ws = Some (evs, ws') \<Longrightarrow> notified evs = []"
  by (auto simp: remove_snapshot_wal_files_def Let_def split: if_splits prod.splits
      dest!: delete_files_Some)

lemma replay_file_notifies:
  "replay_file env del n c ws = Some (Inr (evs, ws')) \<Longrightarrow> notified evs = [c]"
  by (auto simp: replay_file_def Let_def split: sum.splits option.splits prod.splits if_splits
      dest!: remove_snapshot_notifies)

lemma replay_file_number:
  assumes "replay_file env del n c ws = Some (Inr (evs, ws'))"
  shows "wal_file_sequence_number (fb_wal_buffer (ws_flush_buffer ws')) = seq_next (wal_file_number c)"
  using assms
  by (auto simp: replay_file_def Let_def lift_panic_def bind_res_eq_Inr replay_wal_period_def
      wal_period_new_def remove_snapshot_wal_files_def
      split: sum.splits option.splits prod.splits if_splits)

lemma replay_files_notifies:
  assumes "replay_files env get del fe n ps ws = Some (Inr (evs, ws'))"
  shows "notified evs = concat (map (\<lambda>p. case get_contents env get p of Inr c \<Rightarrow> [c] | Inl _ \<Rightarrow> []) ps) \<and>
    list_all (\<lambda>p. case get_contents env get p of Inr c \<Rightarrow> True
      | Inl (ReplaySerialize e) \<Rightarrow> is_corruption e \<and> \<not> fe | Inl _ \<Rightarrow> False) ps"
  using assms
proof (induction ps arbitrary: ws evs)
  case (Cons p ps)
  show ?case
  proof (cases "get_contents env get p")
    case (Inl e)
    with Cons show ?thesis by (cases e) (auto split: if_splits)
  next
    case (Inr c)
    with Cons.prems obtain evs1 ws1 evs2 where
      s: "replay_file env del n c ws = Some (Inr (evs1, ws1))"
      "replay_files env get del fe n ps ws1 = Some (Inr (evs2, ws'))" "evs = evs1 @ evs2"
      by (auto split: option.splits sum.splits prod.splits)
    with Cons.IH [OF s(2)] Inr replay_file_notifies [OF s(1)] show ?thesis by simp
  qed
qed simp

text \<open>Replaying a file whose period extends the tracked ones returns, and keeps the tracker well-formed.\<close>

definition period_of :: "wal_contents \<Rightarrow> wal_period" where
  "period_of c = \<lparr> wp_file_number = wal_file_number c, wp_min_time = wc_min_timestamp_ns c,
                   wp_max_time = wc_max_timestamp_ns c \<rparr>"

abbreviation ws_tracker :: "wal_object_store \<Rightarrow> snapshot_tracker" where
  "ws_tracker ws \<equiv> fb_snapshot_tracker (ws_flush_buffer ws)"

lemma remove_snapshot_total:
  "deletes_settle del \<Longrightarrow> \<exists>evs ws'. remove_snapshot_wal_files env del d ws = Some (evs, ws') \<and>
     ws_flush_buffer ws' = ws_flush_buffer ws \<and> node_identifier_prefix ws' = node_identifier_prefix ws"
  by (simp add: remove_snapshot_wal_files_def Let_def delete_files_total split: prod.split)

lemma replay_file_total:
  assumes ok: "tracker_ok (ws_tracker ws)" and g: "st_gen1_duration (ws_tracker ws) = g"
    and safe: "list_all (period_safe g) (wal_periods (ws_tracker ws) @ [period_of c])"
    and sorted: "sorted_wrt (<) (map wp_file_number (wal_periods (ws_tracker ws) @ [period_of c]))"
    and le: "wc_min_timestamp_ns c \<le> wc_max_timestamp_ns c" and del: "deletes_settle del"
  shows "\<exists>evs ws' ps. replay_file env del n c ws = Some (Inr (evs, ws')) \<and>
    tracker_ok (ws_tracker ws') \<and> st_gen1_duration (ws_tracker ws') = g \<and>
    wal_periods (ws_tracker ws) @ [period_of c] = ps @ wal_periods (ws_tracker ws')"
proof -
  obtain st1 where a: "add_wal_period (period_of c) (ws_tracker ws) = Inr st1"
    using add_wal_period_total [OF sorted] by auto
  have i: "in_i64 (wp_max_time (period_of c))" using safe by (simp add: period_safe_def)
  note ok1 = add_wal_period_ok [OF ok a i]
  have g1: "st_gen1_duration st1 = g" using a g by (auto simp: add_wal_period_def split: if_splits)
  define fb where "fb = ws_flush_buffer ws
      \<lparr> fb_wal_buffer := fb_wal_buffer (ws_flush_buffer ws)
          \<lparr> wal_file_sequence_number := seq_next (wal_file_number c) \<rparr>,
        fb_snapshot_tracker := st1 \<rparr>"
  have r: "bind_res (wal_period_new (wal_file_number c) (wc_min_timestamp_ns c) (wc_max_timestamp_ns c))
      (\<lambda>p. replay_wal_period p (ws_flush_buffer ws)) = Inr fb"
    using a le by (simp add: wal_period_new_def replay_wal_period_def period_of_def fb_def)
  show ?thesis
  proof (cases "wal_snapshot c")
    case None
    with ok1 g1 show ?thesis
      by (simp add: replay_file_def r lift_panic_def fb_def)
  next
    case (Some d)
    obtain info st2 where s: "tracker_snapshot (forced d) st1 = Inr (info, st2)"
      using tracker_snapshot_total [OF ok1(1), of "forced d"] safe by (auto simp: g1 ok1(2))
    have s2: "tracker_ok st2 \<and> st_gen1_duration st2 = g \<and> (\<exists>ps. wal_periods st1 = ps @ wal_periods st2)"
      using tracker_snapshot_splits [OF ok1(1) s] splits_off_ok [OF ok1(1)] ok1(1) g1
      by (cases info) (auto simp: splits_off_def)
    show ?thesis
    proof (cases info)
      case None
      with s2 Some ok1 s show ?thesis by (simp add: replay_file_def r lift_panic_def fb_def)
    next
      case (Some i)
      let ?ws = "ws \<lparr> ws_flush_buffer := fb \<lparr> fb_snapshot_tracker := st2 \<rparr> \<rparr>"
      obtain evs ws' where "remove_snapshot_wal_files env del i ?ws = Some (evs, ws')"
        "ws_flush_buffer ws' = ws_flush_buffer ?ws"
        using remove_snapshot_total [OF del] by blast
      with s2 Some \<open>wal_snapshot c = Some d\<close> ok1 s show ?thesis
        by (auto simp: replay_file_def r lift_panic_def fb_def)
    qed
  qed
qed

lemma replay_files_total:
  assumes "tracker_ok (ws_tracker ws)" "st_gen1_duration (ws_tracker ws) = g"
    and "list_all (period_safe g) (wal_periods (ws_tracker ws) @ map period_of cs)"
    and "sorted_wrt (<) (map wp_file_number (wal_periods (ws_tracker ws) @ map period_of cs))"
    and "list_all (\<lambda>c. wc_min_timestamp_ns c \<le> wc_max_timestamp_ns c) cs" "deletes_settle del"
    and "list_all2 (\<lambda>p c. get_contents env get p = Inr c) ps cs"
  shows "\<exists>evs ws'. replay_files env get del fe n ps ws = Some (Inr (evs, ws')) \<and>
    (cs \<noteq> [] \<longrightarrow> wal_file_sequence_number (fb_wal_buffer (ws_flush_buffer ws')) =
       seq_next (wal_file_number (last cs)))"
  using assms(7,1-6)
proof (induction ps cs arbitrary: ws rule: list_all2_induct)
  case (Cons p ps c cs)
  have "\<exists>evs ws' qs. replay_file env del n c ws = Some (Inr (evs, ws')) \<and>
      tracker_ok (ws_tracker ws') \<and> st_gen1_duration (ws_tracker ws') = g \<and>
      wal_periods (ws_tracker ws) @ [period_of c] = qs @ wal_periods (ws_tracker ws')"
    using Cons.prems by (intro replay_file_total) (auto simp: sorted_wrt_append)
  then obtain evs ws' qs where f: "replay_file env del n c ws = Some (Inr (evs, ws'))"
    "tracker_ok (ws_tracker ws')" "st_gen1_duration (ws_tracker ws') = g"
    "wal_periods (ws_tracker ws) @ [period_of c] = qs @ wal_periods (ws_tracker ws')"
    by blast
  have e: "wal_periods (ws_tracker ws) @ map period_of (c # cs) =
      qs @ wal_periods (ws_tracker ws') @ map period_of cs"
    using f(4) by (metis append.assoc append_Cons append_Nil list.simps(9))
  have "\<exists>evs ws''. replay_files env get del fe n ps ws' = Some (Inr (evs, ws'')) \<and>
      (cs \<noteq> [] \<longrightarrow> wal_file_sequence_number (fb_wal_buffer (ws_flush_buffer ws'')) =
        seq_next (wal_file_number (last cs)))"
    using Cons.prems(3-6) unfolding e by (intro Cons.IH f) (simp_all add: sorted_wrt_append)
  with Cons.hyps f(1) replay_file_number [OF f(1)] show ?case
    by (cases "cs = []") auto
qed simp

section \<open>Lemmas on flushing\<close>

definition replied :: "wal_event list \<Rightarrow> (response \<times> write_result) list" where
  "replied evs = concat (map (\<lambda>e. case e of Reply r w \<Rightarrow> [(r, w)] | _ \<Rightarrow> []) evs)"

lemma replied_simps [simp]:
  "replied [] = []" "replied (a @ b) = replied a @ replied b"
  "replied (Reply r w # evs) = (r, w) # replied evs" "replied (PutFile p bytes # evs) = replied evs"
  "replied (Notify n c # evs) = replied evs" "replied (NotifyAndSnapshot c d # evs) = replied evs"
  "replied (CancelShutdownToken # evs) = replied evs"
  "replied (map (\<lambda>r. Reply r w) rs) = map (\<lambda>r. (r, w)) rs"
  "replied (map (\<lambda>n. Notify (f n) c) ns) = []"
  by (simp_all add: replied_def comp_def)

lemma contents_rows:
  "wal_buffer_ok wb \<Longrightarrow>
   ops_rows (wal_ops (fst (into_wal_contents_and_responses now f wb))) db t ct = buffered_rows wb db t ct"
proof (cases "database_to_write_batch wb = []")
  case True
  then show ?thesis
    by (auto simp: into_wal_contents_and_responses_def Let_def ops_rows_def op_rows_def
        buffered_rows_def split: option.splits)
next
  case False
  moreover assume "wal_buffer_ok wb"
  ultimately show ?thesis
    using map_rows_ops [of "database_to_write_batch wb" db t ct]
    by (simp add: contents_of_writes(1) buffered_rows_map wal_buffer_ok_def)
qed

lemma into_contents_number:
  "wal_file_number (fst (into_wal_contents_and_responses now f wb)) = wal_file_sequence_number wb"
  "snd (into_wal_contents_and_responses now f wb) = write_op_responses wb"
  by (simp_all add: into_wal_contents_and_responses_def Let_def split: prod.splits)

lemma flush_with_failure:
  "flush_buffer_with_failure now err fb = (replies, fb') \<Longrightarrow>
     replies = map (\<lambda>r. (r, err)) (write_op_responses (fb_wal_buffer fb)) \<and>
     database_to_write_batch (fb_wal_buffer fb') = [] \<and>
     fb_snapshot_tracker fb' = fb_snapshot_tracker fb"
  using into_contents_number(2) [of now False "fb_wal_buffer fb"]
  by (auto simp: flush_buffer_with_failure_def flush_buffer_with_responses_def Let_def
      split: prod.splits)

lemma flush_into_contents:
  assumes "flush_buffer_into_contents_and_responses now_ns now_ms f fb = Inr ((c, resps, d), fb')"
  shows "wal_file_number c = wal_file_sequence_number (fb_wal_buffer fb)"
    "resps = write_op_responses (fb_wal_buffer fb)" "wal_snapshot c = d"
    "write_op_responses (fb_wal_buffer fb') = []" "database_to_write_batch (fb_wal_buffer fb') = []"
    "wal_buffer_ok (fb_wal_buffer fb) \<Longrightarrow>
       ops_rows (wal_ops c) db t ct = buffered_rows (fb_wal_buffer fb) db t ct"
    "\<exists>st. add_wal_period (period_of c) (fb_snapshot_tracker fb) = Inr st \<and>
       tracker_snapshot f st = Inr (d, fb_snapshot_tracker fb')"
proof -
  let ?fb = "if f \<and> wal_buffer_is_empty (fb_wal_buffer fb)
    then fb \<lparr> fb_wal_buffer := add_no_op now_ns (fb_wal_buffer fb) \<rparr> else fb"
  let ?r = "into_wal_contents_and_responses now_ms f (fb_wal_buffer ?fb)"
  have same: "wal_file_sequence_number (fb_wal_buffer ?fb) = wal_file_sequence_number (fb_wal_buffer fb)"
    "write_op_responses (fb_wal_buffer ?fb) = write_op_responses (fb_wal_buffer fb)"
    "buffered_rows (fb_wal_buffer ?fb) = buffered_rows (fb_wal_buffer fb)"
    "wal_buffer_ok (fb_wal_buffer ?fb) = wal_buffer_ok (fb_wal_buffer fb)"
    "fb_snapshot_tracker ?fb = fb_snapshot_tracker fb"
    by (auto simp: add_no_op_def buffered_rows_map wal_buffer_ok_def)
  obtain c0 where c0: "c0 = fst ?r" "c = c0 \<lparr> wal_snapshot := d \<rparr>" "resps = snd ?r"
    and n: "write_op_responses (fb_wal_buffer fb') = []" "database_to_write_batch (fb_wal_buffer fb') = []"
    and s: "\<exists>st. add_wal_period \<lparr> wp_file_number = wal_file_number c0,
        wp_min_time = wc_min_timestamp_ns c0, wp_max_time = wc_max_timestamp_ns c0 \<rparr>
        (fb_snapshot_tracker ?fb) = Inr st \<and> tracker_snapshot f st = Inr (d, fb_snapshot_tracker fb')"
    using assms
    unfolding flush_buffer_into_contents_and_responses_def flush_buffer_with_responses_def
    by (auto simp: Let_def bind_res_eq_Inr simp del: if_split split: prod.splits)
  show "wal_file_number c = wal_file_sequence_number (fb_wal_buffer fb)"
    "resps = write_op_responses (fb_wal_buffer fb)" "wal_snapshot c = d"
    "write_op_responses (fb_wal_buffer fb') = []" "database_to_write_batch (fb_wal_buffer fb') = []"
    by (simp_all add: c0 into_contents_number same n)
  show "wal_buffer_ok (fb_wal_buffer fb) \<Longrightarrow>
      ops_rows (wal_ops c) db t ct = buffered_rows (fb_wal_buffer fb) db t ct"
    by (simp add: c0 contents_rows same)
  show "\<exists>st. add_wal_period (period_of c) (fb_snapshot_tracker fb) = Inr st \<and>
       tracker_snapshot f st = Inr (d, fb_snapshot_tracker fb')"
    using s by (simp add: same period_of_def c0(2))
qed

section \<open>Properties\<close>

text \<open>
  C24. WAL file names identify and order the files: below ten to the eleven, names sort as their
  numbers do; parsing a name gives its number back; and the first of the sorted names gives the
  oldest number.
\<close>

theorem wal_path_names_files:
  assumes "path_api_ok pa" "plain_seg nid"
  shows "(m < 10 ^ 11 \<and> n < 10 ^ 11 \<longrightarrow> (wal_path pa nid m < wal_path pa nid n \<longleftrightarrow> m < n)) \<and>
         (n \<le> u64_max \<longrightarrow> wal_number_try_from pa (wal_path pa nid n) = Inr n \<and>
            oldest_wal_file_num pa (wal_path pa nid n # ps) = Some n)"
proof -
  have d: "list_all is_digit (pad0 11 n)" by (rule pad0_digits)
  have t: "trim_end_matches ''.wal'' (pad0 11 n @ ''.wal'') = pad0 11 n"
    using d by (rule trim_digits) (simp_all add: is_digit_def)
  have "CHR ''/'' \<notin> set (pad0 11 n @ ''.wal'')"
    using digits_not_in [OF d, of "CHR ''/''"] by (simp add: is_digit_def)
  then have s: "split_on (CHR ''/'') (pad0 11 n @ ''.wal'') = [pad0 11 n @ ''.wal'']"
    by (rule split_on_none)
  show ?thesis
    using wal_path_less [OF assms]
    by (simp add: wal_number_try_from_def oldest_wal_file_num_def wal_path_join(2,3) [OF assms] t s
        before_sub_digits [OF d] del: power_numeral)
qed

theorem wal_path_names_files_witness:
  "wal_path plain_paths ''n1'' 9 < wal_path plain_paths ''n1'' 10 \<and>
   wal_number_try_from plain_paths (wal_path plain_paths ''n1'' 9) = Inr 9"
proof -
  have "plain_seg ''n1''" by (simp add: plain_seg_def plain_char_def is_digit_def)
  from wal_path_names_files [OF plain_paths_ok this, of 9 10]
    wal_path_names_files [OF plain_paths_ok this, of 0 9]
  show ?thesis by (simp add: u64_max_def)
qed

text \<open>
  C25. Listing terminates with every stored WAL path exactly once and in order, when the store
  lists what it holds after the offset it is given.
\<close>

theorem load_all_wal_file_paths_complete:
  assumes "lists_set S (ls (path_from pa (nid @ ''/wal'')))" "finite S"
  shows "load_all_wal_file_paths pa ls nid = Some (Inr (sorted_list_of_set S))"
  using load_all_loop_complete [OF assms] by (simp add: load_all_wal_file_paths_def)

theorem load_all_wal_file_paths_complete_witness:
  "load_all_wal_file_paths plain_paths
     (\<lambda>_ offset. Inr (case offset of None \<Rightarrow> [''b'', ''a''] | Some q \<Rightarrow> filter (\<lambda>p. q < p) [''b'', ''a'']))
     ''n1'' = Some (Inr [''a'', ''b''])"
proof -
  have "lists_set {''a'', ''b''}
     (\<lambda>offset. Inr (case offset of None \<Rightarrow> [''b'', ''a''] | Some q \<Rightarrow> filter (\<lambda>p. q < p) [''b'', ''a'']))"
    by (auto simp: lists_set_def split: option.split)
  from load_all_wal_file_paths_complete [where ls = "\<lambda>_ offset. Inr (case offset of
      None \<Rightarrow> [''b'', ''a''] | Some q \<Rightarrow> filter (\<lambda>p. q < p) [''b'', ''a''])" and pa = plain_paths
      and nid = "''n1''", OF this]
  show ?thesis by (simp add: insort_remove1)
qed

text \<open>
  C26. Clean-up after a snapshot removes a range of files that ends before the last snapshotted one,
  keeps the configured number of snapshotted files besides it, and never touches a newer file. It
  returns once deletes stop failing with transient errors.
\<close>

theorem remove_snapshot_wal_files_range:
  assumes "deletes_settle del" "the_or 1 (oldest_wal_file ws) \<le> last_wal_sequence_number d"
    and "last_wal_sequence_number d \<le> u64_max"
  shows "\<exists>ws'. remove_snapshot_wal_files env del d ws =
     Some (map (\<lambda>i. DeleteFile (wal_path (env_paths env) (node_identifier_prefix ws) i))
             [the_or 1 (oldest_wal_file ws)..<
              last_wal_sequence_number d - snapshotted_wal_files_to_keep ws], ws') \<and>
     the_or 1 (oldest_wal_file ws') =
       max (the_or 1 (oldest_wal_file ws))
         (last_wal_sequence_number d - snapshotted_wal_files_to_keep ws) \<and>
     last_snapshotted_wal_sequence_number ws' = Some (last_wal_sequence_number d)"
proof -
  define oldest where "oldest = the_or 1 (oldest_wal_file ws)"
  define l where "l = last_wal_sequence_number d"
  define k where "k = snapshotted_wal_files_to_keep ws"
  note defs = oldest_def [symmetric] l_def [symmetric] k_def [symmetric]
  have le: "oldest \<le> l" "l \<le> u64_max" using assms(2,3) by (simp_all add: oldest_def l_def)
  then have c: "u64_sub l oldest = l - oldest" by (rule u64_sub_exact)
  show ?thesis
  proof (cases "k < l - oldest")
    case True
    then have "u64_sub (l - oldest) k = l - oldest - k" using le by (intro u64_sub_exact) auto
    moreover have "u64_add oldest (l - oldest - k) = l - k"
      using True le by (subst u64_add_exact) auto
    ultimately show ?thesis
      using True assms(1)
      by (simp add: remove_snapshot_wal_files_def remover_state_def Let_def defs c
          delete_files_total comp_def del: One_nat_def)
  next
    case False
    then show ?thesis
      using le by (simp add: remove_snapshot_wal_files_def remover_state_def Let_def defs c
          max_def del: One_nat_def) arith
  qed
qed

definition plain_env :: "unit wal_env" where
  "plain_env = \<lparr> env_paths = plain_paths, env_crc = (\<lambda>d. of_nat (length d)),
     env_encode = (\<lambda>c. Inr []), env_decode = (\<lambda>d. Inl ()), env_show = (\<lambda>_. ''store error'') \<rparr>"

theorem remove_snapshot_wal_files_range_witness:
  "let d = \<lparr> sd_snapshot_sequence_number = 1, end_time_marker = 0, first_wal_sequence_number = 1,
             last_wal_sequence_number = 5, forced = False \<rparr>;
       ws = new_without_replay plain_paths ''n1'' wal_config_default None None [] 2
   in map_option fst (remove_snapshot_wal_files plain_env (\<lambda>_ _. Inr ()) d ws) =
      Some [DeleteFile (wal_path plain_paths ''n1'' 1), DeleteFile (wal_path plain_paths ''n1'' 2)]"
proof -
  let ?d = "\<lparr> sd_snapshot_sequence_number = 1, end_time_marker = 0, first_wal_sequence_number = 1,
             last_wal_sequence_number = 5, forced = False \<rparr>"
  let ?ws = "new_without_replay plain_paths ''n1'' wal_config_default None None [] 2"
  have "deletes_settle (\<lambda>_ _. Inr ())" "the_or 1 (oldest_wal_file ?ws) \<le> last_wal_sequence_number ?d"
    "last_wal_sequence_number ?d \<le> u64_max"
    by (simp_all add: deletes_settle_def new_without_replay_def oldest_wal_file_num_def u64_max_def)
  from remove_snapshot_wal_files_range [OF this, of plain_env] show ?thesis
    by (auto simp: new_without_replay_def oldest_wal_file_num_def plain_env_def upt_conv_Cons Let_def
        numeral_2_eq_2)
qed

text \<open>
  C2. Replay restores what the last snapshot does not hold: from a directory of intact files with
  increasing numbers it returns, having told the notifier of exactly the files after the last
  snapshotted one, each once and in number order, and the next file is numbered after the last one
  replayed.
\<close>

theorem replay_restores_unsnapshotted:
  assumes "path_api_ok (env_paths env)" "plain_seg nid" "gen1_valid (cfg_gen1_duration cfg)"
    and "deletes_settle del" "0 < limit"
    and "sorted_wrt (<) ns" "list_all (\<lambda>n. n < 10 ^ 11) ns" "the_or 0 last_wal < 10 ^ 11"
    and "list_all (\<lambda>n. get_contents env get (wal_path (env_paths env) nid n) = Inr (c n) \<and>
           wal_file_number (c n) = n \<and> wc_min_timestamp_ns (c n) \<le> wc_max_timestamp_ns (c n) \<and>
           period_safe (cfg_gen1_duration cfg) (period_of (c n))) ns"
    and "todo = filter (\<lambda>n. case last_wal of None \<Rightarrow> True | Some m \<Rightarrow> m < n) ns"
  shows "\<exists>evs ws. ws_replay env get del last_wal (map (wal_path (env_paths env) nid) ns) limit fe
       (new_without_replay (env_paths env) nid cfg last_wal last_snap
          (map (wal_path (env_paths env) nid) ns) keep) = Some (Inr (evs, ws)) \<and>
     notified evs = map c todo \<and>
     (todo \<noteq> [] \<longrightarrow>
        wal_file_sequence_number (fb_wal_buffer (ws_flush_buffer ws)) = seq_next (last todo))"
proof -
  let ?p = "wal_path (env_paths env) nid"
  let ?ws = "new_without_replay (env_paths env) nid cfg last_wal last_snap (map ?p ns) keep"
  have f: "load_existing_wal_file_paths (env_paths env) nid last_wal (map ?p ns) = map ?p todo"
  proof (cases last_wal)
    case (Some m)
    then have "?p m < ?p n \<longleftrightarrow> m < n" if "n \<in> set ns" for n
      using wal_path_less [OF assms(1,2), of m n] assms(7,8) that by (simp add: list_all_iff)
    then show ?thesis
      using Some by (simp add: assms(10) load_existing_wal_file_paths_def filter_map comp_def
          cong: filter_cong)
  qed (simp add: load_existing_wal_file_paths_def assms(10))
  have s: "set todo \<subseteq> set ns" "sorted_wrt (<) todo"
    using assms(6) by (auto simp: assms(10) sorted_wrt_filter)
  have m: "map wp_file_number (map period_of (map c todo)) = todo"
    using s(1) assms(9) by (auto simp: period_of_def list_all_iff intro!: map_idI)
  have t: "wal_periods (ws_tracker ?ws) = []" "st_gen1_duration (ws_tracker ?ws) = cfg_gen1_duration cfg"
    "tracker_ok (ws_tracker ?ws)"
    using assms(3) by (simp_all add: new_without_replay_def tracker_new_def tracker_ok_def)
  have "list_all2 (\<lambda>p c. get_contents env get p = Inr c) (map ?p todo) (map c todo)"
    using s(1) assms(9) by (auto simp: list_all2_map1 list_all2_map2 list_all2_same list_all_iff)
  moreover have "sorted_wrt (<) (map wp_file_number (wal_periods (ws_tracker ?ws) @ map period_of (map c todo)))"
    unfolding t(1) append_Nil m by (rule s(2))
  moreover have "list_all (period_safe (cfg_gen1_duration cfg))
      (wal_periods (ws_tracker ?ws) @ map period_of (map c todo))"
    "list_all (\<lambda>c. wc_min_timestamp_ns c \<le> wc_max_timestamp_ns c) (map c todo)"
    using s(1) assms(9) by (auto simp: t(1) list_all_iff)
  ultimately obtain evs ws where r: "replay_files env get del fe
      (last_snapshot_sequence_number (ws_tracker ?ws)) (map ?p todo) ?ws = Some (Inr (evs, ws))"
    "map c todo \<noteq> [] \<longrightarrow> wal_file_sequence_number (fb_wal_buffer (ws_flush_buffer ws)) =
       seq_next (wal_file_number (last (map c todo)))"
    using replay_files_total [OF t(3,2)] assms(4) by blast
  have n: "node_identifier_prefix ?ws = nid" by (simp add: new_without_replay_def)
  have "map (\<lambda>p. case get_contents env get p of Inr c \<Rightarrow> [c] | Inl _ \<Rightarrow> []) (map ?p todo) =
      map (\<lambda>n. [c n]) todo"
    using s(1) assms(9) by (auto simp: list_all_iff)
  then have "notified evs = map c todo"
    using replay_files_notifies [OF r(1)] by (simp only: concat_map_singleton)
  moreover have "todo \<noteq> [] \<Longrightarrow> wal_file_number (last (map c todo)) = last todo"
    using s(1) assms(9) last_in_set [of todo] by (auto simp: last_map list_all_iff subset_iff)
  ultimately show ?thesis
    using r assms(5) by (auto simp: ws_replay_def n f)
qed

theorem replay_restores_unsnapshotted_witness:
  "let c = \<lparr> persist_timestamp_ms = 0, wc_min_timestamp_ns = 3, wc_max_timestamp_ns = 5,
             wal_file_number = 1, wal_ops = [Noop 3], wal_snapshot = None \<rparr>;
       env = plain_env \<lparr> env_decode := (\<lambda>_. Inr c) \<rparr>;
       get = (\<lambda>_. Inr (FILE_TYPE_IDENTIFIER @ to_be_bytes 0));
       paths = [wal_path plain_paths ''n1'' 1]
   in \<exists>evs ws. ws_replay env get (\<lambda>_ _. Inr ()) None paths 1 True
        (new_without_replay plain_paths ''n1'' wal_config_default None None paths 300) =
          Some (Inr (evs, ws)) \<and> notified evs = [c]"
proof -
  define c where "c = \<lparr> persist_timestamp_ms = 0, wc_min_timestamp_ns = 3, wc_max_timestamp_ns = 5,
             wal_file_number = 1, wal_ops = [Noop 3], wal_snapshot = None \<rparr>"
  define env where "env = plain_env \<lparr> env_decode := (\<lambda>_. Inr c) \<rparr>"
  define get :: "string \<Rightarrow> store_error + byte list"
    where "get = (\<lambda>_. Inr (FILE_TYPE_IDENTIFIER @ to_be_bytes 0))"
  have paths: "env_paths env = plain_paths" by (simp add: env_def plain_env_def)
  have r: "read_u32 (to_be_bytes 0) = Some 0" using read_u32_be [of 0 "[]"] by simp
  have g: "get_contents env get p = Inr c" for p
    by (simp add: get_contents_def get_def env_def plain_env_def r Let_def
        verify_file_type_and_deserialize_def)
  have n: "gen1_as_nanos (cfg_gen1_duration wal_config_default) = 600000000000"
    by (simp add: wal_config_default_def gen1_default_nanos)
  have "path_api_ok (env_paths env)" "plain_seg ''n1''" "gen1_valid (cfg_gen1_duration wal_config_default)"
    "deletes_settle (\<lambda>_ _. Inr ())" "0 < (1 :: nat)" "sorted_wrt (<) [1 :: nat]"
    "list_all (\<lambda>n. n < 10 ^ 11) [1 :: nat]" "the_or 0 None < (10 ^ 11 :: nat)"
    "list_all (\<lambda>n. get_contents env get (wal_path (env_paths env) ''n1'' n) = Inr c \<and>
       wal_file_number c = n \<and> wc_min_timestamp_ns c \<le> wc_max_timestamp_ns c \<and>
       period_safe (cfg_gen1_duration wal_config_default) (period_of c)) [1]"
    by (simp_all add: paths plain_paths_ok plain_seg_def plain_char_def is_digit_def
        deletes_settle_def g period_safe_def n)
       (simp_all add: c_def period_of_def i64_defs wal_config_default_def gen1_default_valid
         gen1_default_nanos)
  from replay_restores_unsnapshotted [OF this refl, of True None 300] show ?thesis
    unfolding Let_def c_def [symmetric] env_def [symmetric] get_def [symmetric]
    by (auto simp: paths)
qed



text \<open>
  C27. A flush that gives up forgets more than its own writes. If the object store refuses the file
  on all 101 attempts and the flush was to start a snapshot, every waiting client is told of the
  failure and no notifier is called, yet the periods of that snapshot, which belong to files stored
  earlier, have left the tracker: no later snapshot covers them.
\<close>

theorem failed_flush_forgets_periods:
  assumes "tracker_ok (ws_tracker ws)" "put_loop put 0 = PutGaveUp e"
    and "flush_buffer_into_contents_and_responses now_ns now_ms force (ws_flush_buffer ws) =
           Inr ((c, resps, Some d), fb)" "in_i64 (wc_max_timestamp_ns c)"
    and "ws_flush_buffer_op env put now_ns now_ms force ws = Inr (r, evs, ws')"
    and "\<not> (wal_buffer_is_empty (fb_wal_buffer (ws_flush_buffer ws)) \<and> \<not> force)"
  shows "r = None \<and> notified evs = [] \<and>
         map fst (replied evs) = write_op_responses (fb_wal_buffer (ws_flush_buffer ws)) \<and>
         (\<exists>ps. covers_periods (st_gen1_duration (ws_tracker ws)) ps d \<and>
               wal_periods (ws_tracker ws) @ [period_of c] = ps @ wal_periods (ws_tracker ws'))"
proof -
  note fc = flush_into_contents [OF assms(3)]
  note run = assms(5) [unfolded ws_flush_buffer_op_def if_not_P [OF assms(6)]]
  obtain st where st: "add_wal_period (period_of c) (ws_tracker ws) = Inr st"
    "tracker_snapshot force st = Inr (Some d, fb_snapshot_tracker fb)"
    using fc(7) by blast
  have "in_i64 (wp_max_time (period_of c))" using assms(4) by (simp add: period_of_def)
  note ok = add_wal_period_ok [OF assms(1) st(1) this]
  have g: "st_gen1_duration st = st_gen1_duration (ws_tracker ws)"
    using st(1) by (auto simp: add_wal_period_def split: if_splits)
  have "splits_off st d (fb_snapshot_tracker fb)"
    using tracker_snapshot_splits [OF ok(1) st(2)] by simp
  then have sp: "\<exists>ps. covers_periods (st_gen1_duration (ws_tracker ws)) ps d \<and>
      wal_periods (ws_tracker ws) @ [period_of c] = ps @ wal_periods (fb_snapshot_tracker fb)"
    using ok(2) g by (auto simp: splits_off_def)
  obtain replies fb' where ff: "flush_buffer_with_failure now_ms (WriteFailed (env_show env e)) fb =
      (replies, fb')" by fastforce
  have nn: "notified (map (\<lambda>r. Reply r w) rs) = []" for rs w by (simp add: notified_def comp_def)
  show ?thesis
    using run assms(2,3) sp fc(2,4) ff flush_with_failure [OF ff]
    by (auto simp: Let_def nn comp_def split: sum.splits)
qed

theorem failed_flush_forgets_periods_witness:
  "let p = \<lparr> wp_file_number = 1, wp_min_time = 0, wp_max_time = 9 \<rparr>;
       ws0 = new_without_replay plain_paths ''n1'' wal_config_default (Some 1) None [] 300;
       ws = ws0 \<lparr> ws_flush_buffer := ws_flush_buffer ws0
              \<lparr> fb_snapshot_tracker := (ws_tracker ws0) \<lparr> wal_periods := [p] \<rparr> \<rparr> \<rparr>
   in \<exists>evs ws'. ws_flush_buffer_op plain_env (\<lambda>_. Inl (Generic ''down'')) 20 0 True ws =
          Inr (None, evs, ws') \<and> notified evs = [] \<and>
        p \<in> set (wal_periods (ws_tracker ws)) \<and> p \<notin> set (wal_periods (ws_tracker ws'))"
proof -
  define p where "p = \<lparr> wp_file_number = 1, wp_min_time = 0, wp_max_time = 9 \<rparr>"
  define ws0 where "ws0 = new_without_replay plain_paths ''n1'' wal_config_default (Some 1) None [] 300"
  define ws where "ws = ws0 \<lparr> ws_flush_buffer := ws_flush_buffer ws0
              \<lparr> fb_snapshot_tracker := (ws_tracker ws0) \<lparr> wal_periods := [p] \<rparr> \<rparr> \<rparr>"
  let ?q = "\<lparr> wp_file_number = 2, wp_min_time = 20, wp_max_time = 21 \<rparr>"
  let ?st = "tracker_new 600 gen1_default None \<lparr> wal_periods := [p, ?q], st_last_wal_sequence_number := 2 \<rparr>"
  have t: "ws_tracker ws = tracker_new 600 gen1_default None \<lparr> wal_periods := [p] \<rparr>"
    by (simp add: ws_def ws0_def new_without_replay_def wal_config_default_def)
  have ok: "tracker_ok (ws_tracker ws)"
    using gen1_default_valid by (simp add: t tracker_ok_def tracker_new_def p_def i64_defs)
  have ok': "tracker_ok ?st"
    using gen1_default_valid by (simp add: tracker_ok_def tracker_new_def p_def i64_defs)
  have fail: "put_loop (\<lambda>_. Inl (Generic ''down'')) n = PutGaveUp (Generic ''down'')" if "n \<le> 100" for n
    using that
  proof (induction "100 - n" arbitrary: n)
    case 0
    then show ?case by (subst put_loop.simps) simp
  next
    case (Suc k)
    then show ?case by (subst put_loop.simps) simp
  qed
  have wb: "fb_wal_buffer (ws_flush_buffer ws) =
      \<lparr> wb_state = AcceptingWrites, wal_file_sequence_number = 2, op_limit = 100000, op_count = 0,
        database_to_write_batch = [], write_op_responses = [], no_op = None \<rparr>"
    by (simp add: ws_def ws0_def new_without_replay_def wal_config_default_def seq_next_def u64_add_def)
  have safe: "list_all (period_safe (st_gen1_duration ?st)) (wal_periods ?st)"
    by (simp add: tracker_new_def p_def period_safe_def gen1_default_nanos i64_defs)
  obtain r st' where s: "tracker_snapshot True ?st = Inr (r, st')"
    using tracker_snapshot_total [OF ok' safe] by blast
  obtain d where d: "r = Some d" "wal_periods st' = []"
    using s snapshot_all_splits [OF ok', of r st']
    by (auto simp: tracker_snapshot_def should_run_snapshot_def tracker_new_def)
  have a: "add_wal_period ?q (ws_tracker ws) = Inr ?st"
    by (simp add: t add_wal_period_def p_def tracker_new_def)
  obtain c resps fb where f: "flush_buffer_into_contents_and_responses 20 0 True (ws_flush_buffer ws) =
      Inr ((c, resps, Some d), fb)" "wc_max_timestamp_ns c = 21" "fb_snapshot_tracker fb = st'"
    using s d a
    by (simp add: flush_buffer_into_contents_and_responses_def flush_buffer_with_responses_def wb
        wal_buffer_is_empty_def add_no_op_def into_wal_contents_and_responses_def i64_wrap_def)
  have "\<exists>evs ws'. ws_flush_buffer_op plain_env (\<lambda>_. Inl (Generic ''down'')) 20 0 True ws =
      Inr (None, evs, ws')"
    using f(1) fail [of 0]
    by (simp add: ws_flush_buffer_op_def Let_def plain_env_def serialize_to_file_bytes_def
        split: prod.splits)
  then obtain evs ws' where e: "ws_flush_buffer_op plain_env (\<lambda>_. Inl (Generic ''down'')) 20 0 True ws =
      Inr (None, evs, ws')" by blast
  have "in_i64 (wc_max_timestamp_ns c)" by (simp add: f(2) i64_defs)
  from failed_flush_forgets_periods [OF ok fail [of 0, simplified] f(1) this e]
  obtain ps where ps: "notified evs = []"
    "wal_periods (ws_tracker ws) @ [period_of c] = ps @ wal_periods (ws_tracker ws')" by auto
  have "ws_tracker ws' = st'"
    using e f fail [of 0]
    by (auto simp: ws_flush_buffer_op_def Let_def plain_env_def serialize_to_file_bytes_def
        split: prod.splits dest!: flush_with_failure)
  with e ps(1) d(2) show ?thesis
    unfolding Let_def p_def [symmetric] ws0_def [symmetric] ws_def [symmetric]
    by (auto simp: t)
qed

end
