(* ===== verification/Parquet_Files.thy ===== *)
theory Parquet_Files
  imports Wal_Types
begin

text \<open>
  The file metadata the write buffer keeps (influxdb3_write/src/lib.rs): parquet files, the snapshot
  manifests that add and remove them, the year-month key and the monthly checkpoints that fold many
  manifests into one (write_buffer/checkpoint.rs). The lemmas give the exact totals and time range a
  checkpoint carries and show that a checkpoint, or a merge of checkpoints, holds the files that are
  live after its snapshots.
\<close>

section \<open>Files by database and table\<close>

record parquet_file =
  pf_id :: nat
  pf_path :: string
  pf_size_bytes :: nat
  pf_row_count :: nat
  pf_chunk_time :: int
  pf_min_time :: int
  pf_max_time :: int

definition timestamp_min_max :: "parquet_file \<Rightarrow> int \<times> int" where
  "timestamp_min_max f = (pf_min_time f, pf_max_time f)"

text \<open>
  \<open>DatabaseTables\<close> wraps one map from table to files; it is that map here. \<open>each_file\<close> is the order in
  which the nested \<open>for\<close> loops of the program visit the files of a \<open>SerdeVecMap<DbId, DatabaseTables>\<close>.
\<close>

type_synonym database_tables = "(nat \<times> parquet_file list) list"
type_synonym db_files = "(nat \<times> database_tables) list"
type_synonym located_file = "nat \<times> nat \<times> parquet_file"

definition each_table_file :: "nat \<Rightarrow> database_tables \<Rightarrow> located_file list" where
  "each_table_file d ts = concat (map (\<lambda>(t, fs). map (\<lambda>f. (d, t, f)) fs) ts)"

definition each_file :: "db_files \<Rightarrow> located_file list" where
  "each_file m = concat (map (\<lambda>(d, ts). each_table_file d ts) m)"

definition push_file :: "nat \<Rightarrow> nat \<Rightarrow> parquet_file \<Rightarrow> db_files \<Rightarrow> db_files" where
  "push_file d t f = entry_upd d [] (entry_upd t [] (\<lambda>fs. fs @ [f]))"

definition files_at :: "db_files \<Rightarrow> nat \<Rightarrow> nat \<Rightarrow> parquet_file list" where
  "files_at m d t = the_or [] (map_of (the_or [] (map_of m d)) t)"

definition files_wf :: "db_files \<Rightarrow> bool" where
  "files_wf m \<longleftrightarrow> keys_distinct m \<and> list_all (\<lambda>(_, ts). keys_distinct ts) m"

section \<open>Persisted snapshots\<close>

record persisted_snapshot =
  ps_node_id :: string
  ps_next_file_id :: nat
  ps_snapshot_sequence_number :: nat
  ps_wal_file_sequence_number :: nat
  ps_catalog_sequence_number :: nat
  ps_parquet_size_bytes :: nat
  ps_row_count :: nat
  ps_min_time :: int
  ps_max_time :: int
  ps_databases :: db_files
  ps_removed_files :: db_files
  ps_persisted_at :: "int option"

text \<open>\<open>next_id\<close> is what \<open>ParquetFileId::next_id()\<close> reads from the process-wide counter at the call.\<close>

definition persisted_snapshot_new ::
    "nat \<Rightarrow> string \<Rightarrow> nat \<Rightarrow> nat \<Rightarrow> nat \<Rightarrow> persisted_snapshot" where
  "persisted_snapshot_new next_id node_id snapshot_seq wal_seq catalog_seq =
     \<lparr> ps_node_id = node_id, ps_next_file_id = next_id,
       ps_snapshot_sequence_number = snapshot_seq, ps_wal_file_sequence_number = wal_seq,
       ps_catalog_sequence_number = catalog_seq,
       ps_parquet_size_bytes = 0, ps_row_count = 0,
       ps_min_time = i64_max, ps_max_time = i64_min,
       ps_databases = [], ps_removed_files = [], ps_persisted_at = None \<rparr>"

definition add_parquet_file ::
    "nat \<Rightarrow> nat \<Rightarrow> nat \<Rightarrow> parquet_file \<Rightarrow> persisted_snapshot \<Rightarrow> persisted_snapshot" where
  "add_parquet_file next_id d t f s =
     s\<lparr> ps_next_file_id := next_id,
        ps_parquet_size_bytes := u64_add (ps_parquet_size_bytes s) (pf_size_bytes f),
        ps_row_count := u64_add (ps_row_count s) (pf_row_count f),
        ps_min_time := min (ps_min_time s) (pf_min_time f),
        ps_max_time := max (ps_max_time s) (pf_max_time f),
        ps_databases := push_file d t f (ps_databases s) \<rparr>"

definition count_files :: "db_files \<Rightarrow> nat \<times> nat \<times> nat" where
  "count_files m =
     foldl (\<lambda>(dc, tc, fc) (_, ts).
        (u64_add dc 1, u64_add tc (length ts),
         u64_add fc (foldl (\<lambda>acc (_, fs). u64_add acc (length fs)) 0 ts))) (0, 0, 0) m"

definition db_table_and_file_count :: "persisted_snapshot \<Rightarrow> nat \<times> nat \<times> nat" where
  "db_table_and_file_count s = count_files (ps_databases s)"

definition removed_db_table_and_file_count :: "persisted_snapshot \<Rightarrow> nat \<times> nat \<times> nat" where
  "removed_db_table_and_file_count s = count_files (ps_removed_files s)"

definition larger_table ::
    "nat \<Rightarrow> (nat \<times> nat \<times> nat) option \<Rightarrow> nat \<times> parquet_file list \<Rightarrow> (nat \<times> nat \<times> nat) option" where
  "larger_table d worst tf =
     (case tf of (t, fs) \<Rightarrow>
        (case worst of
           None \<Rightarrow> Some (d, t, length fs)
         | Some (_, _, wc) \<Rightarrow> if wc < length fs then Some (d, t, length fs) else worst))"

definition largest_table_by_file_count :: "persisted_snapshot \<Rightarrow> (nat \<times> nat \<times> nat) option" where
  "largest_table_by_file_count s =
     foldl (foldl (\<lambda>worst (d, ts). foldl (larger_table d) worst ts)) None
       [ps_databases s, ps_removed_files s]"

definition distinct_chunk_time_count :: "persisted_snapshot \<Rightarrow> nat" where
  "distinct_chunk_time_count s =
     length (remdups (map (\<lambda>(_, _, f). pf_chunk_time f) (each_file (ps_databases s))))"

definition overall_db_table_file_counts :: "persisted_snapshot list \<Rightarrow> nat \<times> nat \<times> nat" where
  "overall_db_table_file_counts ss =
     foldl (\<lambda>(a, b, c) s. case db_table_and_file_count s of
        (dc, tc, fc) \<Rightarrow> (u64_add a dc, u64_add b tc, u64_add c fc)) (0, 0, 0) ss"

section \<open>Year and month\<close>

datatype year_month = YearMonth (year: nat) (month: nat)

datatype year_month_error = InvalidMonth nat | InvalidFormat string

text \<open>The derived order compares the fields in their order.\<close>

instantiation year_month :: linorder
begin

definition less_eq_year_month :: "year_month \<Rightarrow> year_month \<Rightarrow> bool" where
  "a \<le> b \<longleftrightarrow> year a < year b \<or> year a = year b \<and> month a \<le> month b"

definition less_year_month :: "year_month \<Rightarrow> year_month \<Rightarrow> bool" where
  "a < b \<longleftrightarrow> year a < year b \<or> year a = year b \<and> month a < month b"

instance
  by standard (auto simp: less_eq_year_month_def less_year_month_def year_month.expand)

end

definition year_month_display :: "year_month \<Rightarrow> string" where
  "year_month_display ym = pad0 4 (year ym) @ ''-'' @ pad0 2 (month ym)"

text \<open>A \<open>string\<close> is a list of bytes: \<open>s.len()\<close>, the byte at index 4 and the slices are byte based.\<close>

definition year_month_from_str :: "string \<Rightarrow> year_month_error + year_month" where
  "year_month_from_str s =
     (if length s \<noteq> 7 \<or> s ! 4 \<noteq> CHR ''-'' then Inl (InvalidFormat s)
      else case parse_uint (2 ^ 16 - 1) (take 4 s) of
        None \<Rightarrow> Inl (InvalidFormat s)
      | Some y \<Rightarrow>
          (case parse_uint (2 ^ 8 - 1) (take 2 (drop 5 s)) of
             None \<Rightarrow> Inl (InvalidFormat s)
           | Some m \<Rightarrow> if 1 \<le> m \<and> m \<le> 12 then Inr (YearMonth y m) else Inl (InvalidMonth m)))"

section \<open>Checkpoints\<close>

record checkpoint =
  cp_node_id :: string
  cp_year_month :: year_month
  cp_last_snapshot_sequence_number :: nat
  cp_next_file_id :: "nat option"
  cp_wal_file_sequence_number :: nat
  cp_catalog_sequence_number :: nat
  cp_parquet_size_bytes :: nat
  cp_row_count :: nat
  cp_min_time :: int
  cp_max_time :: int
  cp_databases :: db_files
  cp_pending_removed_files :: db_files

definition checkpoint_new :: "string \<Rightarrow> year_month \<Rightarrow> checkpoint" where
  "checkpoint_new node_id ym =
     \<lparr> cp_node_id = node_id, cp_year_month = ym,
       cp_last_snapshot_sequence_number = 0, cp_next_file_id = None,
       cp_wal_file_sequence_number = 0, cp_catalog_sequence_number = 0,
       cp_parquet_size_bytes = 0, cp_row_count = 0,
       cp_min_time = i64_max, cp_max_time = i64_min,
       cp_databases = [], cp_pending_removed_files = [] \<rparr>"

definition add_file :: "nat \<Rightarrow> nat \<Rightarrow> parquet_file \<Rightarrow> checkpoint \<Rightarrow> checkpoint" where
  "add_file d t f c =
     c\<lparr> cp_parquet_size_bytes := u64_add (cp_parquet_size_bytes c) (pf_size_bytes f),
        cp_row_count := u64_add (cp_row_count c) (pf_row_count f),
        cp_min_time := min (cp_min_time c) (pf_min_time f),
        cp_max_time := max (cp_max_time c) (pf_max_time f),
        cp_databases := push_file d t f (cp_databases c) \<rparr>"

text \<open>\<open>iter().position(|f| f.id == id)\<close> followed by \<open>Vec::remove\<close>: the first file with the id, and the rest.\<close>

fun take_by_id :: "nat \<Rightarrow> parquet_file list \<Rightarrow> (parquet_file \<times> parquet_file list) option" where
  "take_by_id i [] = None"
| "take_by_id i (f # fs) =
     (if pf_id f = i then Some (f, fs)
      else map_option (\<lambda>(r, rest). (r, f # rest)) (take_by_id i fs))"

definition remove_file :: "nat \<Rightarrow> nat \<Rightarrow> nat \<Rightarrow> checkpoint \<Rightarrow> bool \<times> checkpoint" where
  "remove_file d t i c =
     (case map_of (cp_databases c) d of
        None \<Rightarrow> (False, c)
      | Some ts \<Rightarrow>
          (case map_of ts t of
             None \<Rightarrow> (False, c)
           | Some fs \<Rightarrow>
               (case take_by_id i fs of
                  None \<Rightarrow> (False, c)
                | Some (r, rest) \<Rightarrow>
                    (True, c\<lparr> cp_databases := AList.update d (AList.update t rest ts) (cp_databases c),
                              cp_parquet_size_bytes := cp_parquet_size_bytes c - pf_size_bytes r,
                              cp_row_count := cp_row_count c - pf_row_count r \<rparr>))))"

definition add_pending_removed :: "nat \<Rightarrow> nat \<Rightarrow> parquet_file \<Rightarrow> checkpoint \<Rightarrow> checkpoint" where
  "add_pending_removed d t f c =
     c\<lparr> cp_pending_removed_files := push_file d t f (cp_pending_removed_files c) \<rparr>"

definition update_from_snapshot :: "persisted_snapshot \<Rightarrow> checkpoint \<Rightarrow> checkpoint" where
  "update_from_snapshot s c =
     c\<lparr> cp_last_snapshot_sequence_number := ps_snapshot_sequence_number s,
        cp_next_file_id := Some (ps_next_file_id s),
        cp_wal_file_sequence_number := ps_wal_file_sequence_number s,
        cp_catalog_sequence_number := ps_catalog_sequence_number s \<rparr>"

definition recalculate_time_range :: "checkpoint \<Rightarrow> checkpoint" where
  "recalculate_time_range c =
     c\<lparr> cp_min_time := foldl (\<lambda>m (_, _, f). min m (pf_min_time f)) i64_max (each_file (cp_databases c)),
        cp_max_time := foldl (\<lambda>m (_, _, f). max m (pf_max_time f)) i64_min (each_file (cp_databases c)) \<rparr>"

text \<open>
  \<open>merge\<close> looks the database and the table of a pending removal up once before it goes through the
  files of that table; a removal of a file never drops a database or a table, so looking up per file,
  as \<open>remove_file\<close> does, is the same.
\<close>

definition merge_removals :: "located_file list \<Rightarrow> checkpoint \<Rightarrow> bool \<times> checkpoint" where
  "merge_removals xs c =
     foldl (\<lambda>(any, c) (d, t, f). case remove_file d t (pf_id f) c of (b, c') \<Rightarrow> (any \<or> b, c'))
       (False, c) xs"

definition checkpoint_merge :: "checkpoint \<Rightarrow> checkpoint \<Rightarrow> checkpoint" where
  "checkpoint_merge c other =
     (let c1 = foldl (\<lambda>c (d, t, f). add_file d t f c) c (each_file (cp_databases other));
          (any, c2) = merge_removals (each_file (cp_pending_removed_files other)) c1;
          c3 = (if any then recalculate_time_range c2 else c2)
      in c3\<lparr> cp_year_month := cp_year_month other,
             cp_last_snapshot_sequence_number := cp_last_snapshot_sequence_number other,
             cp_next_file_id := cp_next_file_id other,
             cp_wal_file_sequence_number := cp_wal_file_sequence_number other,
             cp_catalog_sequence_number := cp_catalog_sequence_number other \<rparr>)"

subsection \<open>Building a checkpoint from snapshots\<close>

type_synonym file_index = "nat \<rightharpoonup> nat \<times> nat"

definition build_file_index :: "db_files \<Rightarrow> file_index" where
  "build_file_index m = foldl (\<lambda>ix (d, t, f). ix(pf_id f \<mapsto> (d, t))) Map.empty (each_file m)"

definition add_snapshot_files ::
    "db_files \<Rightarrow> checkpoint \<times> file_index \<Rightarrow> checkpoint \<times> file_index" where
  "add_snapshot_files m cx =
     foldl (\<lambda>(c, ix) (d, t, f). (add_file d t f c, ix(pf_id f \<mapsto> (d, t)))) cx (each_file m)"

definition process_removed_file ::
    "bool \<times> checkpoint \<times> file_index \<Rightarrow> located_file \<Rightarrow> bool \<times> checkpoint \<times> file_index" where
  "process_removed_file st x =
     (case (st, x) of ((any, c, ix), (d, t, f)) \<Rightarrow>
        (case ix (pf_id f) of
           Some (d', t') \<Rightarrow> (True, snd (remove_file d' t' (pf_id f) c), ix(pf_id f := None))
         | None \<Rightarrow> (any, add_pending_removed d t f c, ix)))"

definition process_removed_files ::
    "db_files \<Rightarrow> checkpoint \<times> file_index \<Rightarrow> checkpoint \<times> file_index" where
  "process_removed_files m cx =
     (case foldl process_removed_file (False, cx) (each_file m) of
        (any, c, ix) \<Rightarrow> (if any then recalculate_time_range c else c, ix))"

definition apply_snapshot ::
    "checkpoint \<times> file_index \<Rightarrow> persisted_snapshot \<Rightarrow> checkpoint \<times> file_index" where
  "apply_snapshot cx s =
     (case cx of (c, ix) \<Rightarrow>
        process_removed_files (ps_removed_files s)
          (add_snapshot_files (ps_databases s) (update_from_snapshot s c, ix)))"

text \<open>The checkpoint of one month, from the snapshots of the month in the order they are loaded, newest first.\<close>

definition build_checkpoint :: "string \<Rightarrow> year_month \<Rightarrow> persisted_snapshot list \<Rightarrow> checkpoint" where
  "build_checkpoint node_id ym ss =
     fst (foldl apply_snapshot (checkpoint_new node_id ym, Map.empty) (rev ss))"

definition merge_checkpoints :: "checkpoint list \<Rightarrow> checkpoint option" where
  "merge_checkpoints cs = (case cs of [] \<Rightarrow> None | c # cs' \<Rightarrow> Some (foldl checkpoint_merge c cs'))"

text \<open>
  \<open>ym_of\<close> is chrono's reading of a unix timestamp in milliseconds as a UTC year and month, \<open>None\<close>
  outside its range; the year is then cast to 16 and the month to 8 bits.
\<close>

definition year_month_from_timestamp_ms ::
    "(int \<Rightarrow> (int \<times> nat) option) \<Rightarrow> int \<Rightarrow> year_month panicking" where
  "year_month_from_timestamp_ms ym_of ms =
     (case ym_of ms of
        None \<Rightarrow> Inl (Panic ''UTC does not observe seasonal time changes'')
      | Some (y, m) \<Rightarrow> Inr (YearMonth (nat (y mod 2 ^ 16)) (m mod 2 ^ 8)))"

fun group_snapshots_by_month ::
    "(int \<Rightarrow> (int \<times> nat) option) \<Rightarrow> (persisted_snapshot \<times> int) list \<Rightarrow>
     (year_month \<times> persisted_snapshot list) list \<Rightarrow>
     (year_month \<times> persisted_snapshot list) list panicking" where
  "group_snapshots_by_month ym_of [] grouped = Inr grouped"
| "group_snapshots_by_month ym_of ((s, ms) # xs) grouped =
     bind_res (year_month_from_timestamp_ms ym_of ms) (\<lambda>ym.
       group_snapshots_by_month ym_of xs (entry_upd ym [] (\<lambda>ss. ss @ [s]) grouped))"

section \<open>Lemmas on the file collections\<close>

named_theorems files_simps \<open>what the file collections hold after an operation\<close>

lemma each_file_simps [simp]:
  "each_file [] = []"
  "each_file ((d, ts) # m) = each_table_file d ts @ each_file m"
  "each_table_file d [] = []"
  "each_table_file d ((t, fs) # ts) = map (\<lambda>f. (d, t, f)) fs @ each_table_file d ts"
  by (simp_all add: each_file_def each_table_file_def)

lemma mset_each_table_push:
  "mset (each_table_file d (entry_upd t [] (\<lambda>fs. fs @ [f]) ts)) =
     add_mset (d, t, f) (mset (each_table_file d ts))"
  by (induction ts) auto

lemma mset_each_push [files_simps]:
  "mset (each_file (push_file d t f m)) = add_mset (d, t, f) (mset (each_file m))"
  unfolding push_file_def by (induction m) (auto simp: mset_each_table_push)

lemma set_each_push [files_simps]:
  "set (each_file (push_file d t f m)) = insert (d, t, f) (set (each_file m))"
  using mset_each_push [of d t f m] by (metis set_mset_mset set_mset_add_mset_insert)

lemma files_wf_push [simp]: "files_wf m \<Longrightarrow> files_wf (push_file d t f m)"
  by (auto simp: files_wf_def push_file_def keys_distinct_entry_upd
      intro!: list_all_entry_upd) (simp add: keys_distinct_def)

lemma files_wf_Nil [simp]: "files_wf []"
  by (simp add: files_wf_def keys_distinct_def)

lemma files_at_push [files_simps]:
  "files_at (push_file d t f m) d' t' =
     (if d' = d \<and> t' = t then files_at m d t @ [f] else files_at m d' t')"
  by (auto simp: files_at_def push_file_def map_of_entry_upd)

lemma each_table_file_mem:
  "keys_distinct ts \<Longrightarrow>
   (d', t, f) \<in> set (each_table_file d ts) \<longleftrightarrow> d' = d \<and> f \<in> set (the_or [] (map_of ts t))"
proof (induction ts)
  case (Cons p ts)
  obtain t' fs where p: "p = (t', fs)" by force
  have "t' = t \<Longrightarrow> map_of ts t = None"
    using Cons.prems p by (simp add: keys_distinct_def map_of_eq_None_iff)
  with Cons p show ?case by (auto simp: keys_distinct_def)
qed simp

lemma each_file_mem:
  "files_wf m \<Longrightarrow> (d, t, f) \<in> set (each_file m) \<longleftrightarrow> f \<in> set (files_at m d t)"
proof (induction m)
  case (Cons p m)
  obtain d' ts where p: "p = (d', ts)" by force
  have none: "d' = d \<Longrightarrow> map_of m d = None"
    using Cons.prems p by (auto simp: files_wf_def keys_distinct_def map_of_eq_None_iff)
  have wf: "keys_distinct ts" "files_wf m"
    using Cons.prems p by (auto simp: files_wf_def keys_distinct_def)
  have "(d, t, f) \<in> set (each_file m) \<longleftrightarrow> f \<in> set (files_at m d t)" using Cons.IH wf by blast
  with p none show ?case
    by (auto simp: each_table_file_mem [OF wf(1)] files_at_def)
qed (simp add: files_at_def)

lemma mset_each_table_update:
  "map_of ts t = Some fs \<Longrightarrow>
   mset (each_table_file d (AList.update t fs' ts)) + mset (map (\<lambda>f. (d, t, f)) fs) =
     mset (each_table_file d ts) + mset (map (\<lambda>f. (d, t, f)) fs')"
  by (induction ts) (auto split: if_splits)

lemma mset_each_update:
  "map_of m d = Some ts \<Longrightarrow>
   mset (each_file (AList.update d ts' m)) + mset (each_table_file d ts) =
     mset (each_file m) + mset (each_table_file d ts')"
  by (induction m) (auto split: if_splits)

lemma keys_distinct_update: "keys_distinct m \<Longrightarrow> keys_distinct (AList.update k v m)"
  by (simp add: keys_distinct_def distinct_update)

lemma list_all_update:
  "list_all (\<lambda>(_, v). P v) m \<Longrightarrow> P v \<Longrightarrow> list_all (\<lambda>(_, v). P v) (AList.update k v m)"
  by (induction m) auto

lemma map_of_wf_table: "files_wf m \<Longrightarrow> map_of m d = Some ts \<Longrightarrow> keys_distinct ts"
  by (force simp: files_wf_def list_all_iff dest: map_of_SomeD)

text \<open>Replacing the files of one table, as \<open>get_mut\<close> followed by a change of the vector does.\<close>

definition set_files :: "nat \<Rightarrow> nat \<Rightarrow> parquet_file list \<Rightarrow> db_files \<Rightarrow> db_files" where
  "set_files d t fs m = AList.update d (AList.update t fs (the_or [] (map_of m d))) m"

lemma files_wf_set_files:
  "files_wf m \<Longrightarrow> map_of m d = Some ts \<Longrightarrow> files_wf (set_files d t fs m)"
  by (auto simp: files_wf_def set_files_def keys_distinct_update map_of_wf_table [unfolded files_wf_def]
      intro!: list_all_update)

lemma files_at_set_files:
  "map_of m d = Some ts \<Longrightarrow>
   files_at (set_files d t fs m) d' t' = (if d' = d \<and> t' = t then fs else files_at m d' t')"
  by (auto simp: files_at_def set_files_def update_conv')

lemma mset_set_files:
  assumes "map_of m d = Some ts" "map_of ts t = Some fs"
  shows "mset (each_file (set_files d t fs' m)) + mset (map (\<lambda>f. (d, t, f)) fs) =
           mset (each_file m) + mset (map (\<lambda>f. (d, t, f)) fs')"
proof -
  let ?A = "mset (each_file (set_files d t fs' m))" and ?T = "mset (each_table_file d ts)"
  let ?F = "mset (map (\<lambda>f. (d, t, f)) fs)" and ?F' = "mset (map (\<lambda>f. (d, t, f)) fs')"
  let ?T' = "mset (each_table_file d (AList.update t fs' ts))"
  have 1: "?A + ?T = mset (each_file m) + ?T'"
    using mset_each_update [OF assms(1), of "AList.update t fs' ts"] assms
    by (simp add: set_files_def)
  have 2: "?T' + ?F = ?T + ?F'" by (rule mset_each_table_update [OF assms(2)])
  have "(?A + ?F) + ?T = (?A + ?T) + ?F" by (simp only: ac_simps)
  also have "\<dots> = mset (each_file m) + (?T' + ?F)" unfolding 1 by (simp only: ac_simps)
  also have "\<dots> = (mset (each_file m) + ?F') + ?T" unfolding 2 by (simp only: ac_simps)
  finally show ?thesis by (simp only: add_right_cancel)
qed

lemma take_by_id_None: "take_by_id i fs = None \<longleftrightarrow> (\<forall>f \<in> set fs. pf_id f \<noteq> i)"
  by (induction fs) auto

lemma take_by_id_Some:
  "take_by_id i fs = Some (r, rest) \<Longrightarrow> pf_id r = i \<and> mset fs = add_mset r (mset rest)"
  by (induction fs arbitrary: rest) (auto split: if_splits)

subsection \<open>Removing a file of a checkpoint\<close>

lemma remove_file_absent:
  "\<forall>f \<in> set (files_at (cp_databases c) d t). pf_id f \<noteq> i \<Longrightarrow> remove_file d t i c = (False, c)"
  by (auto simp: remove_file_def files_at_def take_by_id_None [THEN iffD2] split: option.splits)

lemma remove_file_present:
  assumes f: "f \<in> set (files_at (cp_databases c) d t)"
    and unique: "\<And>g. g \<in> set (files_at (cp_databases c) d t) \<Longrightarrow> pf_id g = pf_id f \<Longrightarrow> g = f"
    and wf: "files_wf (cp_databases c)"
  obtains m where
    "remove_file d t (pf_id f) c =
       (True, c\<lparr> cp_databases := m, cp_parquet_size_bytes := cp_parquet_size_bytes c - pf_size_bytes f,
                 cp_row_count := cp_row_count c - pf_row_count f \<rparr>)"
    "add_mset (d, t, f) (mset (each_file m)) = mset (each_file (cp_databases c))" "files_wf m"
proof -
  obtain ts where ts: "map_of (cp_databases c) d = Some ts"
    using f by (cases "map_of (cp_databases c) d") (auto simp: files_at_def)
  obtain fs where fs: "map_of ts t = Some fs"
    using f ts by (cases "map_of ts t") (auto simp: files_at_def)
  have at: "files_at (cp_databases c) d t = fs" by (simp add: files_at_def ts fs)
  obtain r rest where r: "take_by_id (pf_id f) fs = Some (r, rest)"
    using f at take_by_id_None [of "pf_id f" fs] by fastforce
  note rest = take_by_id_Some [OF r]
  have "r \<in> set fs" using rest by (metis set_mset_mset union_single_eq_member)
  then have rf: "r = f" using unique rest at by blast
  let ?m = "set_files d t rest (cp_databases c)"
  have "mset (each_file ?m) + mset (map (\<lambda>f. (d, t, f)) fs) =
          mset (each_file (cp_databases c)) + mset (map (\<lambda>f. (d, t, f)) rest)"
    by (rule mset_set_files [OF ts fs])
  moreover have "mset (map (\<lambda>f. (d, t, f)) fs) = add_mset (d, t, f) (mset (map (\<lambda>f. (d, t, f)) rest))"
    using rest rf by (simp add: mset_map)
  ultimately have "add_mset (d, t, f) (mset (each_file ?m)) = mset (each_file (cp_databases c))"
    by simp
  moreover have "files_wf ?m" by (rule files_wf_set_files [OF wf ts])
  ultimately show thesis
    using that [of ?m] ts fs r rf by (simp add: remove_file_def set_files_def)
qed

section \<open>Histories of snapshots\<close>

text \<open>
  The reference for everything that folds snapshots: the files added and not removed. A history is
  well formed when identifiers and paths name files, a file is added once, and no removal comes
  before the addition (within one snapshot the additions are applied first).
\<close>

definition adds_of :: "persisted_snapshot list \<Rightarrow> located_file list" where
  "adds_of h = concat (map (\<lambda>s. each_file (ps_databases s)) h)"

definition rems_of :: "persisted_snapshot list \<Rightarrow> located_file list" where
  "rems_of h = concat (map (\<lambda>s. each_file (ps_removed_files s)) h)"

definition live_of :: "located_file list \<Rightarrow> located_file list \<Rightarrow> located_file list" where
  "live_of A R = filter (\<lambda>x. x \<notin> set R) A"

definition live :: "persisted_snapshot list \<Rightarrow> located_file list" where
  "live h = live_of (adds_of h) (rems_of h)"

definition loc_id :: "located_file \<Rightarrow> nat" where "loc_id x = (case x of (_, _, f) \<Rightarrow> pf_id f)"
definition loc_path :: "located_file \<Rightarrow> string" where "loc_path x = (case x of (_, _, f) \<Rightarrow> pf_path f)"

definition names_files :: "located_file list \<Rightarrow> located_file list \<Rightarrow> bool" where
  "names_files A R \<longleftrightarrow>
     distinct (map loc_id A) \<and> distinct (map loc_path A) \<and>
     list_all (\<lambda>x. list_all (\<lambda>y. loc_id x = loc_id y \<or> loc_path x = loc_path y \<longrightarrow> x = y) A) R"

fun removed_after_added :: "persisted_snapshot list \<Rightarrow> bool" where
  "removed_after_added [] = True"
| "removed_after_added (s # h) =
     (set (each_file (ps_removed_files s)) \<inter> set (adds_of h) = {} \<and> removed_after_added h)"

definition history_ok :: "persisted_snapshot list \<Rightarrow> bool" where
  "history_ok h \<longleftrightarrow> names_files (adds_of h) (rems_of h) \<and> removed_after_added h"

lemma loc_simps [simp]: "loc_id (d, t, f) = pf_id f" "loc_path (d, t, f) = pf_path f"
  by (simp_all add: loc_id_def loc_path_def)

lemma history_append [simp]:
  "adds_of [] = []" "rems_of [] = []"
  "adds_of (s # h) = each_file (ps_databases s) @ adds_of h"
  "rems_of (s # h) = each_file (ps_removed_files s) @ rems_of h"
  "adds_of (g @ h) = adds_of g @ adds_of h" "rems_of (g @ h) = rems_of g @ rems_of h"
  by (simp_all add: adds_of_def rems_of_def)

lemma removed_after_added_append:
  "removed_after_added (g @ h) \<longleftrightarrow>
     removed_after_added g \<and> removed_after_added h \<and> set (rems_of g) \<inter> set (adds_of h) = {}"
  by (induction g) auto

lemma names_files_append:
  "names_files (A @ B) (R @ S) \<Longrightarrow> names_files A R \<and> names_files B S"
  by (simp add: names_files_def list_all_iff)

lemma history_ok_append: "history_ok (g @ h) \<Longrightarrow> history_ok g \<and> history_ok h"
  by (auto simp: history_ok_def removed_after_added_append dest: names_files_append)

lemma names_filesD:
  assumes "names_files A R"
  shows "x \<in> set A \<Longrightarrow> y \<in> set A \<Longrightarrow> loc_id x = loc_id y \<Longrightarrow> x = y"
    and "x \<in> set A \<Longrightarrow> y \<in> set A \<Longrightarrow> loc_path x = loc_path y \<Longrightarrow> x = y"
    and "x \<in> set R \<Longrightarrow> y \<in> set A \<Longrightarrow> loc_id x = loc_id y \<Longrightarrow> x = y"
    and "x \<in> set R \<Longrightarrow> y \<in> set A \<Longrightarrow> loc_path x = loc_path y \<Longrightarrow> x = y"
    and "distinct A"
  using assms by (auto simp: names_files_def list_all_iff distinct_map dest: inj_onD)

lemma live_of_simps [simp]:
  "set (live_of A R) = set A - set R"
  "live_of A [] = A"
  by (auto simp: live_of_def)

lemma live_of_add: "set R \<inter> set B = {} \<Longrightarrow> live_of (A @ B) R = live_of A R @ B"
  by (auto simp: live_of_def filter_id_conv)

lemma mset_live_of_rem:
  assumes "distinct A" "x \<in> set A" "x \<notin> set R"
  shows "mset (live_of A R) = add_mset x (mset (live_of A (R @ [x])))"
proof -
  have "live_of A (R @ [x]) = filter (\<lambda>y. y \<noteq> x) (live_of A R)"
    by (auto simp: live_of_def intro: filter_cong)
  moreover have "mset L = add_mset x (mset (filter (\<lambda>y. y \<noteq> x) L))"
    if "distinct L" "x \<in> set L" for L :: "located_file list"
    using that
  proof (induction L)
    case (Cons a L)
    have "a = x \<Longrightarrow> filter (\<lambda>y. y \<noteq> x) L = L" using Cons.prems by (auto simp: filter_id_conv)
    with Cons show ?case by (cases "a = x") (simp_all flip: mset_filter)
  qed simp
  moreover have "distinct (live_of A R)" using assms by (simp add: live_of_def)
  ultimately show ?thesis using assms by simp
qed

lemma live_of_rem_absent: "x \<notin> set A - set R \<Longrightarrow> live_of A (R @ [x]) = live_of A R"
  by (auto simp: live_of_def intro: filter_cong)

subsection \<open>A checkpoint holds the live files\<close>

text \<open>
  The invariant of the incremental build, after the additions \<open>A\<close> and removals \<open>R\<close>: the collection
  holds the live files, the index locates exactly these, and every removal that names no file of
  this checkpoint is pending.
\<close>

definition cp_inv :: "checkpoint \<times> file_index \<Rightarrow> located_file list \<Rightarrow> located_file list \<Rightarrow> bool" where
  "cp_inv cx A R \<longleftrightarrow>
     (case cx of (c, ix) \<Rightarrow>
        files_wf (cp_databases c) \<and>
        mset (each_file (cp_databases c)) = mset (live_of A R) \<and>
        (\<forall>i d t. ix i = Some (d, t) \<longleftrightarrow> (\<exists>f. (d, t, f) \<in> set A - set R \<and> pf_id f = i)) \<and>
        set R - set A \<subseteq> set (each_file (cp_pending_removed_files c)) \<and>
        set (each_file (cp_pending_removed_files c)) \<subseteq> set R)"

definition bytes_sum :: "located_file list \<Rightarrow> nat" where
  "bytes_sum xs = sum_list (map (\<lambda>(_, _, f). pf_size_bytes f) xs)"

definition rows_sum :: "located_file list \<Rightarrow> nat" where
  "rows_sum xs = sum_list (map (\<lambda>(_, _, f). pf_row_count f) xs)"

definition cp_totals :: "checkpoint \<Rightarrow> bool" where
  "cp_totals c \<longleftrightarrow>
     cp_parquet_size_bytes c = bytes_sum (each_file (cp_databases c)) \<and>
     cp_row_count c = rows_sum (each_file (cp_databases c))"

definition cp_range :: "checkpoint \<Rightarrow> bool" where
  "cp_range c \<longleftrightarrow>
     cp_min_time c = fold min (map (\<lambda>(_, _, f). pf_min_time f) (each_file (cp_databases c))) i64_max \<and>
     cp_max_time c = fold max (map (\<lambda>(_, _, f). pf_max_time f) (each_file (cp_databases c))) i64_min"

lemma bytes_sum_mset: "bytes_sum xs = (\<Sum>(_, _, f) \<in># mset xs. pf_size_bytes f)"
  by (simp add: bytes_sum_def flip: sum_mset_sum_list mset_map)

lemma rows_sum_mset: "rows_sum xs = (\<Sum>(_, _, f) \<in># mset xs. pf_row_count f)"
  by (simp add: rows_sum_def flip: sum_mset_sum_list mset_map)

lemma sums_cong:
  assumes "mset xs = mset ys"
  shows "bytes_sum xs = bytes_sum ys" "rows_sum xs = rows_sum ys"
  using assms by (simp_all add: bytes_sum_mset rows_sum_mset)

lemma sums_add:
  assumes "mset xs = add_mset (d, t, f) (mset ys)"
  shows "bytes_sum xs = pf_size_bytes f + bytes_sum ys" "rows_sum xs = pf_row_count f + rows_sum ys"
  using assms by (simp_all add: bytes_sum_mset rows_sum_mset)

lemma sums_append [simp]:
  "bytes_sum (xs @ ys) = bytes_sum xs + bytes_sum ys" "rows_sum (xs @ ys) = rows_sum xs + rows_sum ys"
  by (simp_all add: bytes_sum_def rows_sum_def)

lemma sums_live_le: "bytes_sum (live_of A R) \<le> bytes_sum A" "rows_sum (live_of A R) \<le> rows_sum A"
  by (induction A) (auto simp: live_of_def bytes_sum_def rows_sum_def)

lemma length_live_le: "length (live_of A R) \<le> length A"
  by (simp add: live_of_def)

lemma fold_min_mset: "mset xs = mset ys \<Longrightarrow> fold min xs (a :: int) = fold min ys a"
  by (rule fun_cong [OF fold_multiset_equiv]) (auto simp: fun_eq_iff)

lemma fold_max_mset: "mset xs = mset ys \<Longrightarrow> fold max xs (a :: int) = fold max ys a"
  by (rule fun_cong [OF fold_multiset_equiv]) (auto simp: fun_eq_iff)

lemma fold_min_snoc: "mset xs = add_mset y (mset ys) \<Longrightarrow> fold min xs a = min (fold min ys a) (y :: int)"
  using fold_min_mset [of xs "ys @ [y]" a] by simp

lemma fold_max_snoc: "mset xs = add_mset y (mset ys) \<Longrightarrow> fold max xs a = max (fold max ys a) (y :: int)"
  using fold_max_mset [of xs "ys @ [y]" a] by simp

lemma cp_range_recalculate: "cp_range (recalculate_time_range c)"
proof -
  have "foldl (\<lambda>m (_, _, f). min m (pf_min_time f)) a xs =
          fold min (map (\<lambda>(_, _, f). pf_min_time f) xs) a" for a and xs :: "located_file list"
    by (induction xs arbitrary: a) (auto simp: min.commute)
  moreover have "foldl (\<lambda>m (_, _, f). max m (pf_max_time f)) a xs =
          fold max (map (\<lambda>(_, _, f). pf_max_time f) xs) a" for a and xs :: "located_file list"
    by (induction xs arbitrary: a) (auto simp: max.commute)
  ultimately show ?thesis by (simp add: cp_range_def recalculate_time_range_def)
qed

lemma cp_range_add: "cp_range c \<Longrightarrow> cp_range (add_file d t f c)"
proof -
  have "mset (map g (each_file (push_file d t f m))) = add_mset (g (d, t, f)) (mset (map g (each_file m)))"
    for g :: "located_file \<Rightarrow> int" and m
    by (simp add: mset_map mset_each_push)
  from fold_min_snoc [OF this, of "\<lambda>(_, _, f). pf_min_time f"]
    fold_max_snoc [OF this, of "\<lambda>(_, _, f). pf_max_time f"]
  show "cp_range c \<Longrightarrow> cp_range (add_file d t f c)"
    by (simp add: cp_range_def add_file_def)
qed

lemma cp_totals_add:
  assumes "cp_totals c" "bytes_sum (each_file (cp_databases c)) + pf_size_bytes f \<le> u64_max"
    "rows_sum (each_file (cp_databases c)) + pf_row_count f \<le> u64_max"
  shows "cp_totals (add_file d t f c)"
  using assms sums_add [OF mset_each_push, of d t f "cp_databases c"]
  by (simp add: cp_totals_def add_file_def u64_add_exact add.commute)

lemma cp_inv_add:
  assumes inv: "cp_inv (c, ix) A R" and fresh: "(d, t, f) \<notin> set R" "pf_id f \<notin> loc_id ` set A"
  shows "cp_inv (add_file d t f c, ix(pf_id f \<mapsto> (d, t))) (A @ [(d, t, f)]) R"
proof -
  have ix: "ix i = Some (d', t') \<longleftrightarrow> (\<exists>f. (d', t', f) \<in> set A - set R \<and> pf_id f = i)" for i d' t'
    using inv by (simp add: cp_inv_def)
  have no: "pf_id g \<noteq> pf_id f" if "(d', t', g) \<in> set A" for d' t' g
    using fresh(2) that by force
  have "(ix(pf_id f \<mapsto> (d, t))) i = Some (d', t') \<longleftrightarrow>
          (\<exists>g. (d', t', g) \<in> set (A @ [(d, t, f)]) - set R \<and> pf_id g = i)" for i d' t'
    using fresh(1) no by (cases "i = pf_id f") (auto simp: ix)
  then show ?thesis
    using inv fresh
    by (auto simp: cp_inv_def add_file_def mset_each_push live_of_add)
qed

lemma cp_inv_remove:
  assumes inv: "cp_inv (c, ix) A R" and names: "names_files A (R @ [(d, t, f)])"
    and ix: "ix (pf_id f) = Some (d', t')"
  obtains m where
    "remove_file d' t' (pf_id f) c =
       (True, c\<lparr> cp_databases := m, cp_parquet_size_bytes := cp_parquet_size_bytes c - pf_size_bytes f,
                 cp_row_count := cp_row_count c - pf_row_count f \<rparr>)"
    "mset (each_file (cp_databases c)) = add_mset (d, t, f) (mset (each_file m))"
    "(d, t, f) \<in> set A - set R" "d' = d" "t' = t" "files_wf m"
proof -
  have wf: "files_wf (cp_databases c)" and ms: "mset (each_file (cp_databases c)) = mset (live_of A R)"
    using inv by (simp_all add: cp_inv_def)
  have files: "set (each_file (cp_databases c)) = set A - set R"
    using mset_eq_setD [OF ms] by simp
  obtain g where g: "(d', t', g) \<in> set A - set R" "pf_id g = pf_id f"
    using inv ix by (auto simp: cp_inv_def)
  have eq: "(d, t, f) = (d', t', g)"
    using names_filesD(3) [OF names, of "(d, t, f)" "(d', t', g)"] g by simp
  have mem: "f \<in> set (files_at (cp_databases c) d t)"
    using g eq files each_file_mem [OF wf, of d t f] by simp
  have "h = f" if "h \<in> set (files_at (cp_databases c) d t)" "pf_id h = pf_id f" for h
    using names_filesD(1) [OF names, of "(d, t, h)" "(d, t, f)"] that mem files
      each_file_mem [OF wf, of d t] by auto
  then show thesis
    using remove_file_present [OF mem _ wf] that g eq by (metis prod.inject)
qed

lemma cp_inv_process:
  assumes inv: "cp_inv (c, ix) A R" and names: "names_files A (R @ [x])" and tot: "cp_totals c"
    and step: "process_removed_file (any, c, ix) x = (any', c', ix')"
  shows "cp_inv (c', ix') A (R @ [x]) \<and> cp_totals c' \<and> ((\<not> any \<longrightarrow> cp_range c) \<longrightarrow> \<not> any' \<longrightarrow> cp_range c')"
proof -
  obtain d t f where x: "x = (d, t, f)" by (cases x)
  have ixA: "ix i = Some (d', t') \<longleftrightarrow> (\<exists>f. (d', t', f) \<in> set A - set R \<and> pf_id f = i)" for i d' t'
    using inv by (simp add: cp_inv_def)
  show ?thesis
  proof (cases "ix (pf_id f)")
    case None
    then have "x \<notin> set A - set R" using ixA [of "pf_id f" d t] x by auto
    with None step inv tot show ?thesis
      by (auto simp: x process_removed_file_def cp_inv_def add_pending_removed_def cp_totals_def cp_range_def
          set_each_push live_of_rem_absent [OF \<open>x \<notin> _\<close>, unfolded x])
  next
    case (Some p)
    then obtain d' t' where ix: "ix (pf_id f) = Some (d', t')" by (cases p) auto
    obtain m where m:
      "remove_file d' t' (pf_id f) c =
         (True, c\<lparr> cp_databases := m, cp_parquet_size_bytes := cp_parquet_size_bytes c - pf_size_bytes f,
                   cp_row_count := cp_row_count c - pf_row_count f \<rparr>)"
      "mset (each_file (cp_databases c)) = add_mset (d, t, f) (mset (each_file m))"
      "(d, t, f) \<in> set A - set R" "files_wf m"
      by (rule cp_inv_remove [OF inv _ ix]) (use names x in auto)
    have dist: "distinct A" by (rule names_filesD(5) [OF names])
    have "mset (each_file m) = mset (live_of A (R @ [x]))"
      using mset_live_of_rem [OF dist, of x R] m(2,3) inv by (simp add: x cp_inv_def)
    moreover have only: "y = x" if "y \<in> set A" "loc_id y = pf_id f" for y
      using names_filesD(1) [OF names that(1), of x] that m(3) by (simp add: x)
    have "(ix(pf_id f := None)) i = Some (e, u) \<longleftrightarrow>
        (\<exists>g. (e, u, g) \<in> set A - set (R @ [x]) \<and> pf_id g = i)" for i e u
    proof (cases "i = pf_id f")
      case True
      with only [of "(e, u, _)"] show ?thesis by auto
    next
      case False
      then show ?thesis using ixA [of i e u] by (auto simp: x)
    qed
    moreover have "cp_parquet_size_bytes c - pf_size_bytes f = bytes_sum (each_file m)"
      "cp_row_count c - pf_row_count f = rows_sum (each_file m)"
      using sums_add [OF m(2)] tot by (simp_all add: cp_totals_def)
    ultimately show ?thesis
      using step ix m(1,3,4) inv
      by (auto simp: x process_removed_file_def cp_inv_def cp_totals_def)
  qed
qed

lemma add_snapshot_files_inv:
  assumes "cp_inv (c, ix) A R" "names_files (A @ B) R" "set R \<inter> set B = {}"
    "foldl (\<lambda>(c, ix) (d, t, f). (add_file d t f c, ix(pf_id f \<mapsto> (d, t)))) (c, ix) B = (c', ix')"
    "cp_totals c" "cp_range c" "bytes_sum (A @ B) \<le> u64_max" "rows_sum (A @ B) \<le> u64_max"
  shows "cp_inv (c', ix') (A @ B) R \<and> cp_totals c' \<and> cp_range c'"
  using assms
proof (induction B arbitrary: c ix A)
  case (Cons x B)
  obtain d t f where x: "x = (d, t, f)" by (cases x)
  have "pf_id f \<notin> loc_id ` set A" "(d, t, f) \<notin> set R"
    using Cons.prems(2,3) by (auto simp: x names_files_def)
  note cp_inv_add [OF Cons.prems(1) this(2,1)]
  moreover have "mset (each_file (cp_databases c)) = mset (live_of A R)"
    using Cons.prems(1) by (simp add: cp_inv_def)
  from sums_cong [OF this] sums_live_le [of A R]
  have "bytes_sum (each_file (cp_databases c)) \<le> bytes_sum A" "rows_sum (each_file (cp_databases c)) \<le> rows_sum A"
    by simp_all
  then have "cp_totals (add_file d t f c)"
    using Cons.prems(5,7,8) by (intro cp_totals_add) (auto simp: x bytes_sum_def rows_sum_def)
  ultimately show ?case
    using Cons.IH [of "add_file d t f c" "ix(pf_id f \<mapsto> (d, t))" "A @ [x]"] Cons.prems
    by (auto simp: x cp_range_add simp del: fun_upd_apply)
qed auto

lemma process_removed_inv:
  assumes "cp_inv (c, ix) A R" "names_files A (R @ S)" "cp_totals c" "\<not> any \<longrightarrow> cp_range c"
    "foldl process_removed_file (any, c, ix) S = (any', c', ix')"
  shows "cp_inv (c', ix') A (R @ S) \<and> cp_totals c' \<and> (\<not> any' \<longrightarrow> cp_range c')"
  using assms
proof (induction S arbitrary: c ix any R)
  case (Cons x S)
  obtain any1 c1 ix1 where step: "process_removed_file (any, c, ix) x = (any1, c1, ix1)"
    by (cases "process_removed_file (any, c, ix) x")
  have "names_files A (R @ [x])" using Cons.prems(2) by (auto simp: names_files_def)
  from cp_inv_process [OF Cons.prems(1) this Cons.prems(3) step] Cons.prems(4)
  show ?case
    using Cons.IH [of c1 ix1 "R @ [x]" any1] Cons.prems(2,5) step by simp
qed simp

definition totals_fit :: "located_file list \<Rightarrow> bool" where
  "totals_fit A \<longleftrightarrow> length A \<le> u64_max \<and> bytes_sum A \<le> u64_max \<and> rows_sum A \<le> u64_max"

definition cp_built :: "checkpoint \<times> file_index \<Rightarrow> persisted_snapshot list \<Rightarrow> bool" where
  "cp_built cx h \<longleftrightarrow> cp_inv cx (adds_of h) (rems_of h) \<and> cp_totals (fst cx) \<and> cp_range (fst cx)"

text \<open>
  Folding snapshots is one contract with two providers, the checkpoint builder here and the ledger
  of persisted files: a step extends the history that the state represents, and a state that
  represents a history shows its live files.
\<close>

locale snapshot_fold =
  fixes step :: "'st \<Rightarrow> persisted_snapshot \<Rightarrow> 'st"
    and holds :: "'st \<Rightarrow> persisted_snapshot list \<Rightarrow> bool"
    and view :: "'st \<Rightarrow> db_files"
  assumes step_holds:
      "holds st h \<Longrightarrow> history_ok (h @ [s]) \<Longrightarrow> totals_fit (adds_of (h @ [s])) \<Longrightarrow> holds (step st s) (h @ [s])"
    and holds_view:
      "holds st h \<Longrightarrow> files_wf (view st) \<and> mset (each_file (view st)) = mset (live h)"
begin

lemma fold_holds:
  "holds st h \<Longrightarrow> history_ok (h @ ss) \<Longrightarrow> totals_fit (adds_of (h @ ss)) \<Longrightarrow> holds (foldl step st ss) (h @ ss)"
proof (induction ss arbitrary: st h)
  case (Cons s ss)
  have "history_ok (h @ [s])" using Cons.prems(2) history_ok_append [of "h @ [s]" ss] by simp
  moreover have "totals_fit (adds_of (h @ [s]))" using Cons.prems(3) by (simp add: totals_fit_def)
  ultimately have "holds (step st s) (h @ [s])" using Cons.prems(1) step_holds by blast
  with Cons.IH [of "step st s" "h @ [s]"] Cons.prems show ?case by simp
qed simp

lemma fold_live:
  assumes "holds st h" "history_ok (h @ ss)" "totals_fit (adds_of (h @ ss))"
  shows "mset (each_file (view (foldl step st ss))) = mset (live (h @ ss))"
  using fold_holds [OF assms] holds_view by blast

lemma fold_files_at:
  assumes "holds st h" "history_ok (h @ ss)" "totals_fit (adds_of (h @ ss))"
  shows "set (files_at (view (foldl step st ss)) d t) = {f. (d, t, f) \<in> set (live (h @ ss))}"
proof -
  have "f \<in> set (files_at (view (foldl step st ss)) d t) \<longleftrightarrow>
          (d, t, f) \<in> set (each_file (view (foldl step st ss)))" for f
    using fold_holds [OF assms] holds_view each_file_mem by blast
  then show ?thesis using mset_eq_setD [OF fold_live [OF assms]] by auto
qed

end

lemma apply_snapshot_built:
  assumes built: "cp_built cx h" and ok: "history_ok (h @ [s])" and fit: "totals_fit (adds_of (h @ [s]))"
  shows "cp_built (apply_snapshot cx s) (h @ [s])"
proof -
  let ?A = "adds_of h" and ?R = "rems_of h"
  let ?B = "each_file (ps_databases s)" and ?S = "each_file (ps_removed_files s)"
  obtain c ix where cx: "cx = (c, ix)" by force
  let ?c0 = "update_from_snapshot s c"
  have inv: "cp_inv (?c0, ix) ?A ?R" "cp_totals ?c0" "cp_range ?c0"
    using built by (simp_all add: cx cp_built_def cp_inv_def cp_totals_def cp_range_def update_from_snapshot_def)
  have names: "names_files (?A @ ?B) (?R @ ?S)" and later: "set ?R \<inter> set ?B = {}"
    using ok by (auto simp: history_ok_def removed_after_added_append)
  obtain c1 ix1 where add:
    "foldl (\<lambda>(c, ix) (d, t, f). (add_file d t f c, ix(pf_id f \<mapsto> (d, t)))) (?c0, ix) ?B = (c1, ix1)"
    by force
  have "names_files (?A @ ?B) ?R" using names by (simp add: names_files_def)
  from add_snapshot_files_inv [OF inv(1) this later add inv(2,3)] fit
  have 1: "cp_inv (c1, ix1) (?A @ ?B) ?R" "cp_totals c1" "cp_range c1" by (simp_all add: totals_fit_def)
  obtain any2 c2 ix2 where rem: "foldl process_removed_file (False, c1, ix1) ?S = (any2, c2, ix2)"
    by (cases "foldl process_removed_file (False, c1, ix1) ?S")
  from process_removed_inv [OF 1(1) names 1(2) _ rem] 1(3)
  have 2: "cp_inv (c2, ix2) (?A @ ?B) (?R @ ?S)" "cp_totals c2" "\<not> any2 \<longrightarrow> cp_range c2" by simp_all
  let ?c3 = "if any2 then recalculate_time_range c2 else c2"
  have "apply_snapshot cx s = (?c3, ix2)"
    using add rem by (simp add: cx apply_snapshot_def add_snapshot_files_def process_removed_files_def)
  moreover have "cp_inv (?c3, ix2) (?A @ ?B) (?R @ ?S) \<and> cp_totals ?c3"
    using 2(1,2) by (simp add: cp_inv_def cp_totals_def recalculate_time_range_def)
  moreover have "cp_range ?c3" using 2(3) cp_range_recalculate by auto
  ultimately show ?thesis by (simp add: cp_built_def)
qed

interpretation cp_fold: snapshot_fold apply_snapshot cp_built "\<lambda>cx. cp_databases (fst cx)"
proof
  fix cx h
  assume "cp_built cx h"
  then show "files_wf (cp_databases (fst cx)) \<and> mset (each_file (cp_databases (fst cx))) = mset (live h)"
    by (cases cx) (simp add: cp_built_def cp_inv_def live_def)
qed (rule apply_snapshot_built)

lemma cp_built_new [simp]: "cp_built (checkpoint_new node ym, Map.empty) []"
  by (simp add: cp_built_def cp_inv_def cp_totals_def cp_range_def checkpoint_new_def bytes_sum_def
      rows_sum_def live_of_def)



subsection \<open>Merging checkpoints\<close>

definition cp_holds :: "checkpoint \<Rightarrow> located_file list \<Rightarrow> located_file list \<Rightarrow> bool" where
  "cp_holds c A R \<longleftrightarrow>
     files_wf (cp_databases c) \<and> mset (each_file (cp_databases c)) = mset (live_of A R) \<and> cp_totals c"

lemma cp_holds_remove:
  assumes "cp_holds c A R" "names_files A (R @ [(d, t, f)])" "remove_file d t (pf_id f) c = (b, c')"
  shows "cp_holds c' A (R @ [(d, t, f)]) \<and> (\<not> b \<longrightarrow> c' = c)"
proof -
  have wf: "files_wf (cp_databases c)" and ms: "mset (each_file (cp_databases c)) = mset (live_of A R)"
    and tot: "cp_totals c"
    using assms(1) by (simp_all add: cp_holds_def)
  have files: "g \<in> set (files_at (cp_databases c) d t) \<longleftrightarrow> (d, t, g) \<in> set A - set R" for g
    using mset_eq_setD [OF ms] each_file_mem [OF wf, of d t g] by simp
  have same: "g = f" if "g \<in> set (files_at (cp_databases c) d t)" "pf_id g = pf_id f" for g
    using names_filesD(3) [OF assms(2), of "(d, t, f)" "(d, t, g)"] that files by simp
  show ?thesis
  proof (cases "(d, t, f) \<in> set A - set R")
    case True
    obtain m where m: "remove_file d t (pf_id f) c =
        (True, c\<lparr> cp_databases := m, cp_parquet_size_bytes := cp_parquet_size_bytes c - pf_size_bytes f,
                  cp_row_count := cp_row_count c - pf_row_count f \<rparr>)"
      "add_mset (d, t, f) (mset (each_file m)) = mset (each_file (cp_databases c))" "files_wf m"
      by (rule remove_file_present [OF _ same wf]) (use True files in auto)
    have "mset (each_file m) = mset (live_of A (R @ [(d, t, f)]))"
      using mset_live_of_rem [OF names_filesD(5) [OF assms(2)], of "(d, t, f)" R] True m(2) ms by simp
    with m tot sums_add [OF m(2) [symmetric]] assms(3) show ?thesis
      by (auto simp: cp_holds_def cp_totals_def)
  next
    case False
    then have "remove_file d t (pf_id f) c = (False, c)"
      using same files by (intro remove_file_absent) blast
    with assms(1,3) False live_of_rem_absent [OF False] show ?thesis by (simp add: cp_holds_def)
  qed
qed

lemma cp_holds_merge_removals:
  assumes "cp_holds c A R" "names_files A (R @ Q)" "\<not> any \<longrightarrow> cp_range c"
    "foldl (\<lambda>(any, c) (d, t, f). case remove_file d t (pf_id f) c of (b, c') \<Rightarrow> (any \<or> b, c'))
       (any, c) Q = (any', c')"
  shows "cp_holds c' A (R @ Q) \<and> (\<not> any' \<longrightarrow> cp_range c')"
  using assms
proof (induction Q arbitrary: c R any)
  case (Cons x Q)
  obtain d t f where x: "x = (d, t, f)" by (cases x)
  obtain b c1 where rm: "remove_file d t (pf_id f) c = (b, c1)" by force
  have "names_files A (R @ [(d, t, f)])" using Cons.prems(2) by (auto simp: x names_files_def)
  from cp_holds_remove [OF Cons.prems(1) this rm]
  show ?case
    using Cons.IH [of c1 "R @ [x]" "any \<or> b"] Cons.prems(2-4) rm by (auto simp: x)
qed simp

lemma cp_holds_add_files:
  assumes "cp_holds c A R" "set R \<inter> set B = {}" "cp_range c" "totals_fit (A @ B)"
  shows "cp_holds (foldl (\<lambda>c (d, t, f). add_file d t f c) c B) (A @ B) R \<and>
         cp_range (foldl (\<lambda>c (d, t, f). add_file d t f c) c B)"
  using assms
proof (induction B arbitrary: c A)
  case (Cons x B)
  obtain d t f where x: "x = (d, t, f)" by (cases x)
  have ms: "mset (each_file (cp_databases c)) = mset (live_of A R)" and "cp_totals c"
    using Cons.prems(1) by (simp_all add: cp_holds_def)
  moreover have "bytes_sum (each_file (cp_databases c)) \<le> bytes_sum A"
    "rows_sum (each_file (cp_databases c)) \<le> rows_sum A"
    using sums_cong [OF ms] sums_live_le [of A R] by simp_all
  ultimately have "cp_totals (add_file d t f c)"
    using Cons.prems(4) by (intro cp_totals_add) (auto simp: x totals_fit_def bytes_sum_def rows_sum_def)
  then have "cp_holds (add_file d t f c) (A @ [x]) R"
    using Cons.prems(1,2) by (auto simp: x cp_holds_def add_file_def mset_each_push live_of_add)
  with Cons.IH [of "add_file d t f c" "A @ [x]"] Cons.prems cp_range_add show ?case by (auto simp: x)
qed simp

lemma merge_holds:
  assumes c: "cp_holds c A R" "cp_range c" and built: "cp_built (c', ix) h"
    and names: "names_files (A @ adds_of h) (R @ rems_of h)" and later: "set R \<inter> set (adds_of h) = {}"
    and fit: "totals_fit (A @ adds_of h)"
  shows "cp_holds (checkpoint_merge c c') (A @ adds_of h) (R @ rems_of h) \<and> cp_range (checkpoint_merge c c')"
proof -
  let ?B = "adds_of h" and ?P = "each_file (cp_pending_removed_files c')"
  let ?A = "A @ ?B" and ?R1 = "R @ filter (\<lambda>x. x \<in> set ?B) (rems_of h)"
  let ?L = "each_file (cp_databases c')"
  have c': "mset ?L = mset (live_of ?B (rems_of h))" "set (rems_of h) - set ?B \<subseteq> set ?P"
    "set ?P \<subseteq> set (rems_of h)"
    using built by (simp_all add: cp_built_def cp_inv_def)
  have L: "set ?L = set ?B - set (rems_of h)" using mset_eq_setD [OF c'(1)] by simp
  have dist: "set A \<inter> set ?B = {}" using names_filesD(5) [OF names] by auto
  have le: "totals_fit (A @ ?L)"
    using fit sums_cong [OF c'(1)] sums_live_le [of ?B "rems_of h"] mset_eq_length [OF c'(1)]
      length_live_le [of ?B "rems_of h"]
    by (simp add: totals_fit_def)
  define c1 where "c1 = foldl (\<lambda>c (d, t, f). add_file d t f c) c ?L"
  have "set R \<inter> set ?L = {}" using later L by auto
  from cp_holds_add_files [OF c(1) this c(2) le]
  have c1: "cp_holds c1 (A @ ?L) R" "cp_range c1" by (simp_all add: c1_def)
  have "live_of (A @ ?L) R = live_of A R @ ?L" using \<open>set R \<inter> set ?L = {}\<close> by (rule live_of_add)
  moreover have "live_of ?A ?R1 = live_of A R @ live_of ?B (rems_of h)"
  proof -
    have "live_of A ?R1 = live_of A R" "live_of ?B ?R1 = live_of ?B (rems_of h)"
      unfolding live_of_def by (rule filter_cong; use dist later in auto)+
    then show ?thesis by (simp add: live_of_def)
  qed
  ultimately have "mset (live_of (A @ ?L) R) = mset (live_of ?A ?R1)" using c'(1) by simp
  with c1(1) have hold: "cp_holds c1 ?A ?R1" by (simp add: cp_holds_def)
  have nm: "names_files ?A (?R1 @ ?P)"
    using names c'(3) by (auto simp: names_files_def list_all_iff)
  obtain any2 c2 where mr: "merge_removals ?P c1 = (any2, c2)" by force
  have c2: "cp_holds c2 ?A (?R1 @ ?P)" "\<not> any2 \<longrightarrow> cp_range c2"
    using cp_holds_merge_removals [OF hold nm, of False any2 c2] c1(2) mr by (simp_all add: merge_removals_def)
  let ?c3 = "if any2 then recalculate_time_range c2 else c2"
  have "live_of ?A (?R1 @ ?P) = live_of ?A (R @ rems_of h)"
    unfolding live_of_def by (rule filter_cong) (use c'(2,3) in auto)
  then have "cp_holds ?c3 ?A (R @ rems_of h)" "cp_range ?c3"
    using c2 cp_range_recalculate
    by (auto simp: cp_holds_def cp_totals_def recalculate_time_range_def)
  moreover have "cp_databases (checkpoint_merge c c') = cp_databases ?c3"
    "cp_parquet_size_bytes (checkpoint_merge c c') = cp_parquet_size_bytes ?c3"
    "cp_row_count (checkpoint_merge c c') = cp_row_count ?c3"
    "cp_min_time (checkpoint_merge c c') = cp_min_time ?c3"
    "cp_max_time (checkpoint_merge c c') = cp_max_time ?c3"
    using mr by (simp_all add: checkpoint_merge_def c1_def Let_def)
  ultimately show ?thesis
    unfolding cp_holds_def cp_totals_def cp_range_def by simp
qed

text \<open>One checkpoint per month, each built from the snapshots of its month and merged in order.\<close>

lemma merge_all_holds:
  assumes "cp_holds c A R" "cp_range c" "list_all2 (\<lambda>c' h. \<exists>ix. cp_built (c', ix) h) cs hs"
    "names_files (A @ adds_of (concat hs)) (R @ rems_of (concat hs))"
    "set R \<inter> set (adds_of (concat hs)) = {}" "removed_after_added (concat hs)"
    "totals_fit (A @ adds_of (concat hs))"
  shows "cp_holds (foldl checkpoint_merge c cs) (A @ adds_of (concat hs)) (R @ rems_of (concat hs)) \<and>
         cp_range (foldl checkpoint_merge c cs)"
  using assms
proof (induction cs arbitrary: c A R hs)
  case (Cons c' cs)
  then obtain h hs' ix where hs: "hs = h # hs'" and built: "cp_built (c', ix) h"
    and rest: "list_all2 (\<lambda>c' h. \<exists>ix. cp_built (c', ix) h) cs hs'"
    by (auto simp: list_all2_Cons1)
  let ?A = "A @ adds_of h" and ?R = "R @ rems_of h"
  have nm: "names_files ?A ?R" and ft: "totals_fit ?A"
    using Cons.prems(4,7) by (auto simp: hs names_files_def list_all_iff totals_fit_def)
  have later: "set R \<inter> set (adds_of h) = {}" "set ?R \<inter> set (adds_of (concat hs')) = {}"
    using Cons.prems(5,6) by (auto simp: hs removed_after_added_append)
  have "cp_holds (checkpoint_merge c c') ?A ?R \<and> cp_range (checkpoint_merge c c')"
    by (rule merge_holds [OF Cons.prems(1,2) built nm later(1) ft])
  then show ?case
    using Cons.IH [of "checkpoint_merge c c'" ?A ?R hs'] rest later(2) Cons.prems(4,6,7)
    by (simp add: hs removed_after_added_append)
qed simp

lemma build_checkpoint_built:
  assumes "history_ok h" "totals_fit (adds_of h)"
  shows "\<exists>ix. cp_built (build_checkpoint node ym (rev h), ix) h"
proof -
  have "cp_built (foldl apply_snapshot (checkpoint_new node ym, Map.empty) h) ([] @ h)"
    by (rule cp_fold.fold_holds) (use assms in simp_all)
  then have "cp_built (build_checkpoint node ym (rev h), snd (foldl apply_snapshot (checkpoint_new node ym, Map.empty) h)) h"
    by (simp add: build_checkpoint_def)
  then show ?thesis by blast
qed

lemma merge_months:
  assumes "history_ok (concat (map snd months))" "totals_fit (adds_of (concat (map snd months)))" "months \<noteq> []"
  obtains m where
    "merge_checkpoints (map (\<lambda>(ym, h). build_checkpoint node ym (rev h)) months) = Some m"
    "cp_holds m (adds_of (concat (map snd months))) (rems_of (concat (map snd months)))" "cp_range m"
proof -
  obtain ym h rest where m: "months = (ym, h) # rest" using assms(3) by (cases months) auto
  let ?b = "\<lambda>(ym, h). build_checkpoint node ym (rev h)"
  have part: "\<exists>ix. cp_built (?b p, ix) (snd p)" if p: "p \<in> set months" for p
  proof -
    obtain xs ys where "months = xs @ p # ys" using split_list [OF p] by blast
    then have "concat (map snd months) = concat (map snd xs) @ snd p @ concat (map snd ys)" by simp
    then have "history_ok (snd p)" "totals_fit (adds_of (snd p))"
      using assms(1,2) by (auto simp: totals_fit_def dest: history_ok_append)
    then show ?thesis using build_checkpoint_built by (cases p) simp
  qed
  obtain ix where ix: "cp_built (build_checkpoint node ym (rev h), ix) h" using part [of "(ym, h)"] m by auto
  have "list_all2 (\<lambda>c' h. \<exists>ix. cp_built (c', ix) h) (map ?b rest) (map snd rest)"
    using part m by (auto simp: list_all2_conv_all_nth)
  moreover have "cp_holds (build_checkpoint node ym (rev h)) (adds_of h) (rems_of h)"
    "cp_range (build_checkpoint node ym (rev h))"
    using ix by (simp_all add: cp_built_def cp_inv_def cp_holds_def)
  ultimately have "cp_holds (foldl checkpoint_merge (build_checkpoint node ym (rev h)) (map ?b rest))
        (adds_of (concat (map snd months))) (rems_of (concat (map snd months)))"
      "cp_range (foldl checkpoint_merge (build_checkpoint node ym (rev h)) (map ?b rest))"
    using merge_all_holds [of "build_checkpoint node ym (rev h)" "adds_of h" "rems_of h" "map ?b rest" "map snd rest"]
      assms(1,2)
    by (simp_all add: m history_ok_def removed_after_added_append)
  then show thesis using that by (simp add: m merge_checkpoints_def)
qed

lemma year_month_read_back:
  assumes "year a \<le> 9999" "1 \<le> month a" "month a \<le> 12"
  shows "year_month_from_str (year_month_display a) = Inr a"
proof -
  have "length (pad0 4 (year a)) = 4" "length (pad0 2 (month a)) = 2" using assms by (auto intro: length_pad0)
  with assms show ?thesis
    by (simp add: year_month_from_str_def year_month_display_def nth_append)
qed

section \<open>Properties\<close>


definition demo_file :: "nat \<Rightarrow> string \<Rightarrow> int \<Rightarrow> parquet_file" where
  "demo_file i p t =
     \<lparr> pf_id = i, pf_path = p, pf_size_bytes = 100 + i, pf_row_count = 10, pf_chunk_time = t,
       pf_min_time = t, pf_max_time = t + 5 \<rparr>"

definition demo_snapshot :: "nat \<Rightarrow> db_files \<Rightarrow> db_files \<Rightarrow> persisted_snapshot" where
  "demo_snapshot n add rem =
     (persisted_snapshot_new 9 ''node'' n n 1)\<lparr> ps_databases := add, ps_removed_files := rem \<rparr>"

definition demo_months :: "(year_month \<times> persisted_snapshot list) list" where
  "demo_months =
     [(YearMonth 2025 12,
        [demo_snapshot 1 [(0, [(0, [demo_file 1 ''a'' 0, demo_file 2 ''b'' 60])])] [],
         demo_snapshot 2 [(0, [(1, [demo_file 3 ''c'' 60])])] [(0, [(0, [demo_file 1 ''a'' 0])])]]),
      (YearMonth 2026 1,
        [demo_snapshot 3 [(0, [(0, [demo_file 4 ''d'' 120])])] [(0, [(1, [demo_file 3 ''c'' 60])])]])]"

lemmas demo_history_simps =
  demo_months_def demo_snapshot_def demo_file_def persisted_snapshot_new_def history_ok_def
  names_files_def totals_fit_def bytes_sum_def rows_sum_def u64_max_def live_def live_of_def


text \<open>
  The name of a month reads back: a month of a four digit year prints to seven bytes that
  parse to the same month, and the names sort as the months do. A later year prints five digits and
  is refused when it is read back.
\<close>

theorem year_month_round_trip:
  assumes "year a \<le> 9999" "1 \<le> month a" "month a \<le> 12" "year b \<le> 9999" "1 \<le> month b" "month b \<le> 12"
  shows "year_month_from_str (year_month_display a) = Inr a \<and>
         (year_month_display a < year_month_display b \<longleftrightarrow> a < b) \<and>
         year_month_from_str (year_month_display (YearMonth 10000 1)) =
           Inl (InvalidFormat (year_month_display (YearMonth 10000 1)))"
proof -
  have len: "length (pad0 4 y) = 4" if "y \<le> 9999" for y using that by (intro length_pad0) auto
  have "year_month_from_str (year_month_display a) = Inr a" by (rule year_month_read_back [OF assms(1-3)])
  moreover have "year_month_display a < year_month_display b \<longleftrightarrow> a < b"
  proof -
    have "pad0 4 (year a) < pad0 4 (year b) \<longleftrightarrow> year a < year b"
      "pad0 2 (month a) < pad0 2 (month b) \<longleftrightarrow> month a < month b"
      using pad0_less assms by simp_all
    moreover have "x @ u < y @ v \<longleftrightarrow> x < y \<or> x = y \<and> u < v"
      if "length x = length y" for x y u v :: string
      using that
    proof (induction x y rule: list_induct2)
      case (Cons a x b y)
      then show ?case by auto
    qed simp
    ultimately show ?thesis
      using len assms(1,4) by (simp add: year_month_display_def less_year_month_def pad0_inj)
  qed
  moreover have "year_month_from_str (year_month_display (YearMonth 10000 1)) =
           Inl (InvalidFormat (year_month_display (YearMonth 10000 1)))"
    by (simp add: year_month_display_def year_month_from_str_def pad0_def show_nat.simps)
  ultimately show ?thesis by blast
qed

theorem year_month_round_trip_witness:
  "year_month_from_str (year_month_display (YearMonth 2025 12)) = Inr (YearMonth 2025 12) \<and>
   year_month_display (YearMonth 2025 12) < year_month_display (YearMonth 2026 1)"
  using year_month_round_trip [of "YearMonth 2025 12" "YearMonth 2026 1"]
  by (simp add: less_year_month_def)

end
