(* ===== verification/Persisted_Files.thy ===== *)
theory Persisted_Files
  imports Parquet_Files
begin

text \<open>
  The ledger of persisted files (influxdb3_write/src/write_buffer/persisted_files.rs): the in-memory
  map from database and table to parquet files that queries and the compactor read, folded from
  checkpoints, writer snapshots and compaction manifests, with the tombstones that suppress files
  whose removal arrived before their addition. The read-write lock around it makes every operation
  one step, except the removal of deleted files, which takes it twice. The \<open>f64\<close> gauge of megabytes is kept as the number of bytes it stands for, so its
  rounding is not modelled; \<open>HashMap\<close> iteration is in insertion order.
\<close>

section \<open>Time filter\<close>

record chunk_filter =
  time_lower_bound_ns :: "int option"
  time_upper_bound_ns :: "int option"

definition chunk_filter_default :: chunk_filter where
  "chunk_filter_default = \<lparr> time_lower_bound_ns = None, time_upper_bound_ns = None \<rparr>"

definition test_time_stamp_min_max :: "chunk_filter \<Rightarrow> int \<Rightarrow> int \<Rightarrow> bool" where
  "test_time_stamp_min_max flt mn mx =
     (case (time_lower_bound_ns flt, time_upper_bound_ns flt) of
        (None, None) \<Rightarrow> True
      | (None, Some u) \<Rightarrow> mn \<le> u
      | (Some l, None) \<Rightarrow> l \<le> mx
      | (Some l, Some u) \<Rightarrow> mn \<le> u \<and> l \<le> mx)"

section \<open>State\<close>

datatype deleted_tables = AllTables | TableList "nat list"

datatype tombstone_gc =
    WalSeq string nat
  | Compaction string
  | ObjectGone

record ledger =
  lg_files :: db_files
  lg_count :: nat
  lg_size_bytes :: int
  lg_row_count :: nat
  lg_deleted_data :: "(nat \<times> deleted_tables) list"
  lg_tombstones :: "(string \<times> tombstone_gc) list"
  lg_eviction_tombstones :: "string list"

definition ledger_default :: ledger where
  "ledger_default =
     \<lparr> lg_files = [], lg_count = 0, lg_size_bytes = 0, lg_row_count = 0,
       lg_deleted_data = [], lg_tombstones = [], lg_eviction_tombstones = [] \<rparr>"

definition MAX_EVICTION_TOMBSTONES :: nat where "MAX_EVICTION_TOMBSTONES = 200000"

definition all_digits :: "string \<Rightarrow> bool" where
  "all_digits s \<longleftrightarrow> s \<noteq> [] \<and> list_all is_digit s"

definition parse_gen1_path :: "string \<Rightarrow> (string \<times> nat) option" where
  "parse_gen1_path path =
     (let node_id = hd (split_on (CHR ''/'') path) in
      if node_id = [] then None
      else case strip_suffix ''.parquet'' path of
        None \<Rightarrow> None
      | Some s \<Rightarrow>
          let stem = last (split_on (CHR ''/'') s);
              (seq, ordinal) = (case split_once (CHR ''-'') stem of
                 Some (sq, o') \<Rightarrow> (sq, Some o') | None \<Rightarrow> (stem, None))
          in if \<not> all_digits seq \<or> (case ordinal of None \<Rightarrow> False | Some o' \<Rightarrow> \<not> all_digits o') then None
             else map_option (\<lambda>wal_seq. (node_id, wal_seq)) (parse_uint u64_max seq))"

section \<open>Folding a snapshot\<close>

record fold_delta =
  added_count :: nat
  added_size_bytes :: nat
  added_row_count :: nat
  removed_count :: nat
  removed_size_bytes :: nat
  removed_row_count :: nat

definition delta_zero :: fold_delta where
  "delta_zero = \<lparr> added_count = 0, added_size_bytes = 0, added_row_count = 0,
                  removed_count = 0, removed_size_bytes = 0, removed_row_count = 0 \<rparr>"

definition delta_add :: "parquet_file \<Rightarrow> fold_delta \<Rightarrow> fold_delta" where
  "delta_add f dl =
     dl\<lparr> added_count := u64_add (added_count dl) 1,
         added_size_bytes := u64_add (added_size_bytes dl) (pf_size_bytes f),
         added_row_count := u64_add (added_row_count dl) (pf_row_count f) \<rparr>"

definition delta_remove :: "parquet_file \<Rightarrow> fold_delta \<Rightarrow> fold_delta" where
  "delta_remove f dl =
     dl\<lparr> removed_count := u64_add (removed_count dl) 1,
         removed_size_bytes := u64_add (removed_size_bytes dl) (pf_size_bytes f),
         removed_row_count := u64_add (removed_row_count dl) (pf_row_count f) \<rparr>"

definition fold_add_file ::
    "(string \<times> tombstone_gc) list \<Rightarrow> parquet_file list \<times> string set \<times> fold_delta \<Rightarrow> parquet_file \<Rightarrow>
     parquet_file list \<times> string set \<times> fold_delta" where
  "fold_add_file tombs st file =
     (case st of (table_files, seen_paths, dl) \<Rightarrow>
        if map_of tombs (pf_path file) \<noteq> None then (table_files, seen_paths, dl)
        else if pf_path file \<notin> seen_paths
        then (table_files @ [file], insert (pf_path file) seen_paths, delta_add file dl)
        else (table_files, seen_paths, dl))"

definition fold_table_adds ::
    "(string \<times> tombstone_gc) list \<Rightarrow> nat \<Rightarrow> fold_delta \<times> db_files \<Rightarrow> nat \<times> parquet_file list \<Rightarrow>
     fold_delta \<times> db_files" where
  "fold_table_adds tombs d st tf =
     (case (st, tf) of ((dl, files), (t, new_files)) \<Rightarrow>
        let old = files_at files d t;
            (table_files, _, dl') = foldl (fold_add_file tombs) (old, set (map pf_path old), dl) new_files
        in (dl', entry_upd d [] (entry_upd t [] (\<lambda>_. table_files)) files))"

definition fold_db_adds ::
    "(string \<times> tombstone_gc) list \<Rightarrow> fold_delta \<times> db_files \<Rightarrow> nat \<times> database_tables \<Rightarrow>
     fold_delta \<times> db_files" where
  "fold_db_adds tombs st dts =
     (case (st, dts) of ((dl, files), (d, ts)) \<Rightarrow>
        foldl (fold_table_adds tombs d) (dl, entry_upd d [] (\<lambda>x. x) files) ts)"

definition tombstone_key :: "string option \<Rightarrow> string \<Rightarrow> tombstone_gc option" where
  "tombstone_key source_compaction_id path =
     (case parse_gen1_path path of
        Some (node_id, wal_seq) \<Rightarrow> Some (WalSeq node_id wal_seq)
      | None \<Rightarrow> map_option Compaction source_compaction_id)"

definition set_tombstone ::
    "string option \<Rightarrow> string set \<Rightarrow> (string \<times> tombstone_gc) list \<Rightarrow> parquet_file \<Rightarrow>
     (string \<times> tombstone_gc) list" where
  "set_tombstone source_compaction_id present_targets tombs f =
     (if pf_path f \<in> present_targets then tombs
      else case tombstone_key source_compaction_id (pf_path f) of
        None \<Rightarrow> tombs
      | Some gc \<Rightarrow> AList.update (pf_path f) gc tombs)"

definition fold_table_removes ::
    "string option \<Rightarrow> nat \<Rightarrow> fold_delta \<times> db_files \<times> (string \<times> tombstone_gc) list \<Rightarrow>
     nat \<times> parquet_file list \<Rightarrow> fold_delta \<times> db_files \<times> (string \<times> tombstone_gc) list" where
  "fold_table_removes source_compaction_id d st tf =
     (case (st, tf) of ((dl, files, tombs), (t, remove_files)) \<Rightarrow>
        let remove_paths = set (map pf_path remove_files);
            targets = filter (\<lambda>f. pf_path f \<in> remove_paths) (files_at files d t);
            files' = (case map_of files d of
                        None \<Rightarrow> files
                      | Some ts \<Rightarrow> (case map_of ts t of
                            None \<Rightarrow> files
                          | Some fs \<Rightarrow> set_files d t (filter (\<lambda>f. pf_path f \<notin> remove_paths) fs) files))
        in (fold delta_remove targets dl, files',
            foldl (set_tombstone source_compaction_id (set (map pf_path targets))) tombs remove_files))"

definition fold_db_removes ::
    "string option \<Rightarrow> fold_delta \<times> db_files \<times> (string \<times> tombstone_gc) list \<Rightarrow> nat \<times> database_tables \<Rightarrow>
     fold_delta \<times> db_files \<times> (string \<times> tombstone_gc) list" where
  "fold_db_removes source_compaction_id st dts =
     (case dts of (d, ts) \<Rightarrow> foldl (fold_table_removes source_compaction_id d) st ts)"

definition update_persisted_files_with_snapshot ::
    "persisted_snapshot \<Rightarrow> string option \<Rightarrow> db_files \<times> (string \<times> tombstone_gc) list \<Rightarrow>
     fold_delta \<times> db_files \<times> (string \<times> tombstone_gc) list" where
  "update_persisted_files_with_snapshot s source_compaction_id ft =
     (case ft of (files, tombs) \<Rightarrow>
        let (dl, files1) = foldl (fold_db_adds tombs) (delta_zero, files) (ps_databases s)
        in foldl (fold_db_removes source_compaction_id) (dl, files1, tombs) (ps_removed_files s))"

definition apply_delta :: "fold_delta \<Rightarrow> nat \<times> int \<times> nat \<Rightarrow> nat \<times> int \<times> nat" where
  "apply_delta dl m =
     (case m of (n, sz, rows) \<Rightarrow>
        (u64_add n (added_count dl) - removed_count dl,
         sz + int (added_size_bytes dl) - int (removed_size_bytes dl),
         u64_add rows (added_row_count dl) - removed_row_count dl))"

definition add_persisted_snapshot :: "persisted_snapshot \<Rightarrow> string option \<Rightarrow> ledger \<Rightarrow> ledger" where
  "add_persisted_snapshot s source_compaction_id lg =
     (let (dl, files, tombs) =
            update_persisted_files_with_snapshot s source_compaction_id (lg_files lg, lg_tombstones lg);
          (n, sz, rows) = apply_delta dl (lg_count lg, lg_size_bytes lg, lg_row_count lg)
      in lg\<lparr> lg_files := files, lg_tombstones := tombs,
             lg_count := n, lg_size_bytes := sz, lg_row_count := rows \<rparr>)"

definition new_from_persisted_snapshots :: "persisted_snapshot list \<Rightarrow> ledger" where
  "new_from_persisted_snapshots ss =
     (let (files, tombs, n, sz, rows) =
        foldl (\<lambda>(files, tombs, m) s.
           let (dl, files', tombs') = update_persisted_files_with_snapshot s None (files, tombs)
           in (files', tombs', apply_delta dl m)) ([], [], 0, 0, 0) ss
      in \<lparr> lg_files = files, lg_count = n, lg_size_bytes = sz, lg_row_count = rows,
           lg_deleted_data = [], lg_tombstones = tombs, lg_eviction_tombstones = [] \<rparr>)"

definition ledger_from_checkpoint :: "checkpoint \<Rightarrow> ledger" where
  "ledger_from_checkpoint c =
     (let (files, file_count) =
        foldl (\<lambda>st (d, ts). foldl (\<lambda>(files, n) (t, fs).
             (entry_upd d [] (entry_upd t [] (\<lambda>old. old @ fs)) files, u64_add n (length fs))) st ts)
          ([], 0) (cp_databases c)
      in \<lparr> lg_files = files, lg_count = file_count,
           lg_size_bytes = int (cp_parquet_size_bytes c), lg_row_count = cp_row_count c,
           lg_deleted_data = [], lg_tombstones = [], lg_eviction_tombstones = [] \<rparr>)"

definition new_from_checkpoints_and_snapshots ::
    "checkpoint list \<Rightarrow> persisted_snapshot list \<Rightarrow> ledger" where
  "new_from_checkpoints_and_snapshots checkpoints additional_snapshots =
     (let merged = merge_checkpoints (sort_key cp_year_month checkpoints);
          lg = (case merged of None \<Rightarrow> ledger_default | Some c \<Rightarrow> ledger_from_checkpoint c)
      in foldl (\<lambda>lg s. add_persisted_snapshot s None lg) lg additional_snapshots)"

section \<open>Operations\<close>

definition add_persisted_file :: "nat \<Rightarrow> nat \<Rightarrow> parquet_file \<Rightarrow> ledger \<Rightarrow> ledger" where
  "add_persisted_file d t f lg =
     (let existing = files_at (lg_files lg) d t;
          lg1 = (if f \<notin> set existing
                 then lg\<lparr> lg_row_count := u64_add (lg_row_count lg) (pf_row_count f),
                          lg_size_bytes := lg_size_bytes lg + int (pf_size_bytes f),
                          lg_files := push_file d t f (lg_files lg) \<rparr>
                 else lg\<lparr> lg_files := entry_upd d [] (entry_upd t [] (\<lambda>fs. fs)) (lg_files lg) \<rparr>)
      in lg1\<lparr> lg_count := u64_add (lg_count lg) 1 \<rparr>)"

definition remove_persisted_files ::
    "nat \<Rightarrow> nat \<Rightarrow> parquet_file list \<Rightarrow> ledger \<Rightarrow> ledger" where
  "remove_persisted_files d t files_to_remove lg =
     (case map_of (lg_files lg) d of
        None \<Rightarrow> lg
      | Some ts \<Rightarrow>
          (case map_of ts t of
             None \<Rightarrow> lg
           | Some fs \<Rightarrow>
               let paths = set (map pf_path files_to_remove);
                   (n, sz, rows) = foldl (\<lambda>(n, sz, rows) f.
                      (u64_add n 1, u64_add sz (pf_size_bytes f), u64_add rows (pf_row_count f)))
                      (0, 0, 0) (filter (\<lambda>f. pf_path f \<in> paths) fs)
               in lg\<lparr> lg_files := set_files d t (filter (\<lambda>f. pf_path f \<notin> paths) fs) (lg_files lg),
                      lg_size_bytes := lg_size_bytes lg - int sz,
                      lg_row_count := lg_row_count lg - rows,
                      lg_count := lg_count lg - n \<rparr>))"

definition ledger_snapshot_all :: "ledger \<Rightarrow> (nat \<times> nat \<times> parquet_file list) list" where
  "ledger_snapshot_all lg =
     concat (map (\<lambda>(d, ts). map (\<lambda>(t, fs). (d, t, fs)) (filter (\<lambda>(_, fs). fs \<noteq> []) ts)) (lg_files lg))"

subsection \<open>Tombstones\<close>

definition keeps_tombstone ::
    "(string \<times> nat) list \<Rightarrow> string option \<Rightarrow> tombstone_gc \<Rightarrow> bool" where
  "keeps_tombstone wal_high_water compactions_high_water gc =
     (case gc of
        WalSeq node_id wal_seq \<Rightarrow> the_or 0 (map_of wal_high_water node_id) < wal_seq
      | Compaction removing_id \<Rightarrow>
          (case compactions_high_water of None \<Rightarrow> True | Some hw \<Rightarrow> hw < removing_id)
      | ObjectGone \<Rightarrow> True)"

definition gc_tombstones :: "(string \<times> nat) list \<Rightarrow> string option \<Rightarrow> ledger \<Rightarrow> ledger" where
  "gc_tombstones wal_high_water compactions_high_water lg =
     lg\<lparr> lg_tombstones :=
           filter (\<lambda>(_, gc). keeps_tombstone wal_high_water compactions_high_water gc) (lg_tombstones lg) \<rparr>"

definition tombstones_for_checkpoint :: "ledger \<Rightarrow> (string \<times> nat) list \<times> (string \<times> string) list" where
  "tombstones_for_checkpoint lg =
     foldl (\<lambda>(gen1, compaction) (path, gc).
        case gc of
          WalSeq _ wal_seq \<Rightarrow> (gen1 @ [(path, wal_seq)], compaction)
        | Compaction removing_id \<Rightarrow> (gen1, compaction @ [(path, removing_id)])
        | ObjectGone \<Rightarrow> (gen1, compaction)) ([], []) (lg_tombstones lg)"

definition seed_tombstones :: "(string \<times> nat) list \<Rightarrow> (string \<times> string) list \<Rightarrow> ledger \<Rightarrow> ledger" where
  "seed_tombstones gen1 compaction lg =
     (let tombs1 = foldl (\<lambda>tb (path, wal_seq).
            let node_id = hd (split_on (CHR ''/'') path)
            in if node_id \<noteq> [] then AList.update path (WalSeq node_id wal_seq) tb else tb)
            (lg_tombstones lg) gen1;
          tombs2 = foldl (\<lambda>tb (path, removing_id). AList.update path (Compaction removing_id) tb)
            tombs1 compaction
      in lg\<lparr> lg_tombstones := tombs2 \<rparr>)"

definition tombstone_count :: "ledger \<Rightarrow> nat" where
  "tombstone_count lg = length (lg_tombstones lg)"

fun drop_oldest ::
    "(string \<times> tombstone_gc) list \<Rightarrow> string list \<Rightarrow> (string \<times> tombstone_gc) list \<times> string list" where
  "drop_oldest tombs [] = (tombs, [])"
| "drop_oldest tombs (oldest # queue) =
     (if MAX_EVICTION_TOMBSTONES < length (oldest # queue)
      then drop_oldest (if map_of tombs oldest = Some ObjectGone then AList.delete oldest tombs else tombs) queue
      else (tombs, oldest # queue))"

definition tombstone_evicted :: "string list \<Rightarrow> ledger \<Rightarrow> ledger" where
  "tombstone_evicted paths lg =
     (let (tombs1, queue1) = foldl (\<lambda>(tb, q) path.
            if map_of tb path \<noteq> None then (tb, q)
            else (AList.update path ObjectGone tb, q @ [path]))
            (lg_tombstones lg, lg_eviction_tombstones lg) paths;
          (tombs2, queue2) = drop_oldest tombs1 queue1
      in lg\<lparr> lg_tombstones := tombs2, lg_eviction_tombstones := queue2 \<rparr>)"

subsection \<open>Queries\<close>

text \<open>\<open>sort_by_key\<close> with \<open>Reverse(min_time)\<close> is a stable sort on the negated time.\<close>

definition get_files_filtered :: "nat \<Rightarrow> nat \<Rightarrow> chunk_filter \<Rightarrow> ledger \<Rightarrow> parquet_file list" where
  "get_files_filtered d t flt lg =
     sort_key (\<lambda>f. - pf_min_time f)
       (filter (\<lambda>f. test_time_stamp_min_max flt (pf_min_time f) (pf_max_time f))
          (files_at (lg_files lg) d t))"

definition get_files :: "nat \<Rightarrow> nat \<Rightarrow> ledger \<Rightarrow> parquet_file list" where
  "get_files d t lg = get_files_filtered d t chunk_filter_default lg"

definition get_metrics :: "ledger \<Rightarrow> nat \<times> int \<times> nat" where
  "get_metrics lg = (lg_count lg, lg_size_bytes lg, lg_row_count lg)"

subsection \<open>Deletion\<close>

text \<open>\<open>purge\<close> is the answer of the table index cache, when there is one, to the purge that follows.\<close>

definition delete_database :: "('e + unit) option \<Rightarrow> nat \<Rightarrow> ledger \<Rightarrow> ('e + unit) \<times> ledger" where
  "delete_database purge d lg =
     (the_or (Inr ()) purge,
      lg\<lparr> lg_deleted_data := AList.update d AllTables (lg_deleted_data lg) \<rparr>)"

definition delete_table :: "('e + unit) option \<Rightarrow> nat \<Rightarrow> nat \<Rightarrow> ledger \<Rightarrow> ('e + unit) \<times> ledger" where
  "delete_table purge d t lg =
     (the_or (Inr ()) purge,
      lg\<lparr> lg_deleted_data :=
            (case map_of (lg_deleted_data lg) d of
               Some AllTables \<Rightarrow> lg_deleted_data lg
             | Some (TableList ts) \<Rightarrow> AList.update d (TableList (List.insert t ts)) (lg_deleted_data lg)
             | None \<Rightarrow> AList.update d (TableList [t]) (lg_deleted_data lg)) \<rparr>)"

record removal_queue =
  rq_removed :: db_files
  rq_paths :: "string list"
  rq_size :: nat
  rq_rows :: nat

definition queue_for_removal ::
    "nat \<Rightarrow> nat \<Rightarrow> removal_queue \<Rightarrow> parquet_file \<Rightarrow> removal_queue" where
  "queue_for_removal d t q f =
     (if pf_path f \<in> set (rq_paths q) then q
      else \<lparr> rq_removed = push_file d t f (rq_removed q),
             rq_paths = rq_paths q @ [pf_path f],
             rq_size = u64_add (rq_size q) (pf_size_bytes f),
             rq_rows = u64_add (rq_rows q) (pf_row_count f) \<rparr>)"

definition queue_deleted :: "db_files \<Rightarrow> removal_queue \<Rightarrow> nat \<times> deleted_tables \<Rightarrow> removal_queue" where
  "queue_deleted files q dd =
     (case dd of (d, deleted) \<Rightarrow>
        (case map_of files d of
           None \<Rightarrow> q
         | Some ts \<Rightarrow>
             (case deleted of
                AllTables \<Rightarrow> foldl (\<lambda>q (t, fs). foldl (queue_for_removal d t) q fs) q ts
              | TableList ids \<Rightarrow>
                  foldl (\<lambda>q t. foldl (queue_for_removal d t) q (the_or [] (map_of ts t))) q ids)))"

definition is_deleted :: "(nat \<times> deleted_tables) list \<Rightarrow> nat \<Rightarrow> nat \<Rightarrow> bool" where
  "is_deleted deleted d t =
     (case map_of deleted d of
        Some AllTables \<Rightarrow> True
      | Some (TableList ts) \<Rightarrow> t \<in> set ts
      | None \<Rightarrow> False)"

definition queue_expired ::
    "ledger \<Rightarrow> removal_queue \<Rightarrow> (nat \<times> nat) \<times> int \<Rightarrow> removal_queue" where
  "queue_expired lg q rp =
     (case rp of ((d, t), cutoff) \<Rightarrow>
        if is_deleted (lg_deleted_data lg) d t then q
        else foldl (queue_for_removal d t) q
               (filter (\<lambda>f. pf_max_time f < cutoff) (files_at (lg_files lg) d t)))"

text \<open>\<open>retention_periods\<close> is \<open>catalog.get_retention_period_cutoff_map()\<close>: a cutoff for each table with a retention period.\<close>

definition queue_removals :: "((nat \<times> nat) \<times> int) list \<Rightarrow> ledger \<Rightarrow> removal_queue" where
  "queue_removals retention_periods lg =
     foldl (queue_expired lg)
       (foldl (queue_deleted (lg_files lg)) \<lparr> rq_removed = [], rq_paths = [], rq_size = 0, rq_rows = 0 \<rparr>
          (lg_deleted_data lg))
       retention_periods"

text \<open>
  The queue is filled under the read lock and applied under the write lock, two steps between
  which other operations may run: \<open>apply_removals\<close> takes the ledger it finds at the second.
\<close>

definition apply_removals :: "removal_queue \<Rightarrow> ledger \<Rightarrow> ledger" where
  "apply_removals q lg =
     (if rq_removed q = [] then lg
      else lg\<lparr> lg_files := map (\<lambda>(d, ts). (d, map (\<lambda>(t, fs).
                  (t, filter (\<lambda>f. pf_path f \<notin> set (rq_paths q)) fs)) ts)) (lg_files lg),
               lg_count := lg_count lg - length (rq_paths q),
               lg_size_bytes := lg_size_bytes lg - int (rq_size q),
               lg_row_count := lg_row_count lg - rq_rows q,
               lg_deleted_data := [] \<rparr>)"

definition remove_files_for_deletion ::
    "((nat \<times> nat) \<times> int) list \<Rightarrow> ledger \<Rightarrow> db_files \<times> ledger" where
  "remove_files_for_deletion retention_periods lg =
     (let q = queue_removals retention_periods lg in (rq_removed q, apply_removals q lg))"

section \<open>What a fold does to the ledger\<close>

lemma entry_upd_const: "entry_upd k d (\<lambda>_. f (the_or d (map_of m k))) m = entry_upd k d f m"
  by (induction m) auto

lemma extend_table:
  "entry_upd d [] (entry_upd t [] (\<lambda>_. files_at m d t @ N)) m = entry_upd d [] (entry_upd t [] (\<lambda>fs. fs @ N)) m"
proof -
  let ?g = "entry_upd t [] (\<lambda>fs. fs @ N)"
  have "entry_upd t [] (\<lambda>_. the_or [] (map_of ts t) @ N) ts = ?g ts" for ts :: database_tables
    by (rule entry_upd_const [where f = "\<lambda>fs. fs @ N"])
  then have upd: "entry_upd t [] (\<lambda>_. files_at m d t @ N) (the_or [] (map_of m d)) = ?g (the_or [] (map_of m d))"
    by (simp add: files_at_def)
  have "entry_upd d [] h m = entry_upd d [] (\<lambda>_. h (the_or [] (map_of m d))) m" for h
    by (rule entry_upd_const [symmetric])
  then show ?thesis using upd by metis
qed

lemma mset_each_table_extend:
  "mset (each_table_file d (entry_upd t [] (\<lambda>fs. fs @ N) ts)) =
     mset (each_table_file d ts) + mset (map (\<lambda>f. (d, t, f)) N)"
  by (induction ts) (auto simp: ac_simps)

lemma mset_each_extend:
  "mset (each_file (entry_upd d [] (entry_upd t [] (\<lambda>fs. fs @ N)) m)) =
     mset (each_file m) + mset (map (\<lambda>f. (d, t, f)) N)"
  by (induction m) (auto simp: mset_each_table_extend ac_simps)

lemma files_wf_entry:
  "files_wf m \<Longrightarrow> (\<And>ts. keys_distinct ts \<Longrightarrow> keys_distinct (g ts)) \<Longrightarrow> files_wf (entry_upd d [] g m)"
  by (auto simp: files_wf_def keys_distinct_entry_upd intro!: list_all_entry_upd)
    (simp add: keys_distinct_def)

lemma each_file_touch: "mset (each_file (entry_upd d [] (\<lambda>x. x) m)) = mset (each_file m)"
  by (induction m) auto

lemma files_at_touch: "files_at (entry_upd d [] (\<lambda>x. x) m) d' t' = files_at m d' t'"
  by (cases "d' = d") (auto simp: files_at_def map_of_entry_upd)

text \<open>The running totals of one fold count the files actually added and actually removed.\<close>

definition delta_is :: "fold_delta \<Rightarrow> located_file list \<Rightarrow> located_file list \<Rightarrow> bool" where
  "delta_is dl X Y \<longleftrightarrow>
     added_count dl = length X \<and> added_size_bytes dl = bytes_sum X \<and> added_row_count dl = rows_sum X \<and>
     removed_count dl = length Y \<and> removed_size_bytes dl = bytes_sum Y \<and> removed_row_count dl = rows_sum Y"

lemma totals_fit_append: "totals_fit (X @ N) \<Longrightarrow> totals_fit X"
  by (simp add: totals_fit_def)

lemma delta_is_zero: "delta_is delta_zero [] []"
  by (simp add: delta_is_def delta_zero_def bytes_sum_def rows_sum_def)

lemma delta_is_adds:
  "delta_is dl X Y \<Longrightarrow> totals_fit (X @ map (\<lambda>f. (d, t, f)) N) \<Longrightarrow>
   delta_is (fold delta_add N dl) (X @ map (\<lambda>f. (d, t, f)) N) Y"
proof (induction N arbitrary: dl X)
  case (Cons f N)
  have "delta_is (delta_add f dl) (X @ [(d, t, f)]) Y"
    using Cons.prems by (auto simp: delta_is_def delta_add_def totals_fit_def bytes_sum_def rows_sum_def u64_add_exact)
  with Cons.IH [of "delta_add f dl" "X @ [(d, t, f)]"] Cons.prems(2) show ?case by simp
qed simp

lemma delta_is_removes:
  "delta_is dl X Y \<Longrightarrow> totals_fit (Y @ map (\<lambda>f. (d, t, f)) N) \<Longrightarrow>
   delta_is (fold delta_remove N dl) X (Y @ map (\<lambda>f. (d, t, f)) N)"
proof (induction N arbitrary: dl Y)
  case (Cons f N)
  have "delta_is (delta_remove f dl) X (Y @ [(d, t, f)])"
    using Cons.prems by (auto simp: delta_is_def delta_remove_def totals_fit_def bytes_sum_def rows_sum_def u64_add_exact)
  with Cons.IH [of "delta_remove f dl" "Y @ [(d, t, f)]"] Cons.prems(2) show ?case by simp
qed simp

lemma fold_add_files:
  "distinct (map pf_path new) \<Longrightarrow> set (map pf_path new) \<inter> seen = {} \<Longrightarrow>
   \<exists>seen'. foldl (fold_add_file tombs) (old, seen, dl) new =
     (old @ filter (\<lambda>f. map_of tombs (pf_path f) = None) new, seen',
      fold delta_add (filter (\<lambda>f. map_of tombs (pf_path f) = None) new) dl)"
proof (induction new arbitrary: old seen dl)
  case (Cons f new)
  then have "f \<notin> set new" "distinct (map pf_path new)" "set (map pf_path new) \<inter> insert (pf_path f) seen = {}"
    "set (map pf_path new) \<inter> seen = {}" "pf_path f \<notin> seen"
    by auto
  with Cons.IH [of seen old dl] Cons.IH [of "insert (pf_path f) seen" "old @ [f]" "delta_add f dl"]
  show ?case by (auto simp: fold_add_file_def)
qed simp

text \<open>
  The invariant of folds, after the additions \<open>A\<close> and removals \<open>R\<close> in whatever order: the ledger
  holds the live files and only removed paths have tombstones.
\<close>

definition ledger_inv ::
    "db_files \<Rightarrow> (string \<times> tombstone_gc) list \<Rightarrow> located_file list \<Rightarrow> located_file list \<Rightarrow> bool" where
  "ledger_inv files tombs A R \<longleftrightarrow>
     files_wf files \<and> mset (each_file files) = mset (live_of A R) \<and> fst ` set tombs \<subseteq> loc_path ` set R"

definition suppressed :: "(string \<times> tombstone_gc) list \<Rightarrow> string \<Rightarrow> bool" where
  "suppressed tombs p \<longleftrightarrow> map_of tombs p \<noteq> None"

lemma live_of_append [simp]: "live_of (A @ B) R = live_of A R @ live_of B R" "live_of [] R = []"
  by (simp_all add: live_of_def)

definition names_paths :: "located_file list \<Rightarrow> located_file list \<Rightarrow> bool" where
  "names_paths A R \<longleftrightarrow>
     distinct (map loc_path A) \<and>
     list_all (\<lambda>x. list_all (\<lambda>y. loc_path x = loc_path y \<longrightarrow> x = y) A) R"

lemma names_pathsD:
  assumes "names_paths A R"
  shows "x \<in> set A \<Longrightarrow> y \<in> set A \<Longrightarrow> loc_path x = loc_path y \<Longrightarrow> x = y"
    and "x \<in> set R \<Longrightarrow> y \<in> set A \<Longrightarrow> loc_path x = loc_path y \<Longrightarrow> x = y"
    and "distinct A"
  using assms by (auto simp: names_paths_def list_all_iff distinct_map dest: inj_onD)

lemma names_paths_mono:
  "names_paths (A @ B) (R @ S) \<Longrightarrow> names_paths A R" "names_paths (A @ B) R \<Longrightarrow> names_paths A R"
  "names_paths A (R @ S) \<Longrightarrow> names_paths A R"
  by (auto simp: names_paths_def list_all_iff)

lemma fold_table_adds_inv:
  fixes tombs d t new
  defines "B \<equiv> map (\<lambda>f. (d, t, f)) new"
  assumes inv: "ledger_inv files tombs A R" and names: "names_paths (A @ B) R"
    and sup: "\<forall>x \<in> set B \<inter> set R. suppressed tombs (loc_path x)"
    and dl: "delta_is dl X Y" "totals_fit (X @ live_of B R)"
    and step: "fold_table_adds tombs d (dl, files) (t, new) = (dl', files')"
  shows "ledger_inv files' tombs (A @ B) R \<and> delta_is dl' (X @ live_of B R) Y"
proof -
  have wf: "files_wf files" and ms: "mset (each_file files) = mset (live_of A R)"
    and tb: "fst ` set tombs \<subseteq> loc_path ` set R"
    using inv by (simp_all add: ledger_inv_def)
  let ?N = "filter (\<lambda>f. map_of tombs (pf_path f) = None) new"
  have "map_of tombs (pf_path f) = None \<longleftrightarrow> (d, t, f) \<notin> set R" if f: "f \<in> set new" for f
  proof
    show "map_of tombs (pf_path f) = None \<Longrightarrow> (d, t, f) \<notin> set R"
      using bspec [OF sup, of "(d, t, f)"] f by (auto simp: B_def suppressed_def)
  next
    assume no: "(d, t, f) \<notin> set R"
    have "pf_path f \<noteq> loc_path r" if "r \<in> set R" for r
      using names_pathsD(2) [OF names that, of "(d, t, f)"] f no that by (auto simp: B_def)
    then have "pf_path f \<notin> fst ` set tombs" using tb by auto
    then show "map_of tombs (pf_path f) = None" by (simp add: map_of_eq_None_iff)
  qed
  then have N: "map (\<lambda>f. (d, t, f)) ?N = live_of B R"
    unfolding B_def live_of_def filter_map o_def by (intro arg_cong [where f = "map _"] filter_cong) simp_all
  have old: "(d, t, g) \<in> set A" if "g \<in> set (files_at files d t)" for g
    using that each_file_mem [OF wf, of d t g] mset_eq_setD [OF ms] by simp
  have dist: "distinct (map pf_path new)" using names by (simp add: B_def names_paths_def o_def)
  have disj: "set (map pf_path new) \<inter> set (map pf_path (files_at files d t)) = {}"
  proof (rule ccontr)
    assume "\<not> ?thesis"
    then obtain f g where fg: "f \<in> set new" "g \<in> set (files_at files d t)" "pf_path f = pf_path g" by auto
    have "loc_path (d, t, g) \<in> loc_path ` set A" using old [OF fg(2)] by (rule imageI)
    moreover have "loc_path (d, t, f) \<in> loc_path ` set B" using fg(1) by (intro imageI) (simp add: B_def)
    moreover have "loc_path ` set A \<inter> loc_path ` set B = {}" using names by (simp add: names_paths_def)
    ultimately show False using fg(3) by auto
  qed
  obtain seen' where loop: "foldl (fold_add_file tombs)
      (files_at files d t, set (map pf_path (files_at files d t)), dl) new =
        (files_at files d t @ ?N, seen', fold delta_add ?N dl)"
    using fold_add_files [OF dist disj] by blast
  from step loop have res: "dl' = fold delta_add ?N dl"
      "files' = entry_upd d [] (entry_upd t [] (\<lambda>_. files_at files d t @ ?N)) files"
    by (auto simp: fold_table_adds_def Let_def)
  have "delta_is dl' (X @ live_of B R) Y"
    using delta_is_adds [OF dl(1), of d t ?N] dl(2) by (simp add: N res)
  moreover have "mset (each_file files') = mset (live_of (A @ B) R)"
    using ms mset_each_extend [of d t ?N files] by (simp add: N res extend_table)
  moreover have "files_wf files'"
    unfolding res by (rule files_wf_entry [OF wf]) (rule keys_distinct_entry_upd)
  ultimately show ?thesis using tb by (simp add: ledger_inv_def)
qed

lemma fold_tables_adds_inv:
  assumes "ledger_inv files tombs A R" "names_paths (A @ each_table_file d ts) R"
    "\<forall>x \<in> set (each_table_file d ts) \<inter> set R. suppressed tombs (loc_path x)"
    "delta_is dl X Y" "totals_fit (X @ live_of (each_table_file d ts) R)"
    "foldl (fold_table_adds tombs d) (dl, files) ts = (dl', files')"
  shows "ledger_inv files' tombs (A @ each_table_file d ts) R \<and>
         delta_is dl' (X @ live_of (each_table_file d ts) R) Y"
  using assms
proof (induction ts arbitrary: files A X dl)
  case (Cons tf ts)
  obtain t new where tf: "tf = (t, new)" by force
  let ?B = "map (\<lambda>f. (d, t, f)) new"
  obtain dl1 files1 where step: "fold_table_adds tombs d (dl, files) (t, new) = (dl1, files1)" by force
  have "names_paths (A @ ?B) R" "\<forall>x \<in> set ?B \<inter> set R. suppressed tombs (loc_path x)" "totals_fit (X @ live_of ?B R)"
    using Cons.prems(2,3,5) by (auto simp: tf totals_fit_def intro: names_paths_mono(2) [of _ "each_table_file d ts"])
  from fold_table_adds_inv [OF Cons.prems(1) this(1,2) Cons.prems(4) this(3) step]
  have "ledger_inv files1 tombs (A @ ?B) R" "delta_is dl1 (X @ live_of ?B R) Y" by simp_all
  from Cons.IH [OF this(1) _ _ this(2)] Cons.prems(2,3,5,6) step show ?case by (simp add: tf)
qed auto

lemma fold_dbs_adds_inv:
  assumes "ledger_inv files tombs A R" "names_paths (A @ each_file m) R"
    "\<forall>x \<in> set (each_file m) \<inter> set R. suppressed tombs (loc_path x)"
    "delta_is dl X Y" "totals_fit (X @ live_of (each_file m) R)"
    "foldl (fold_db_adds tombs) (dl, files) m = (dl', files')"
  shows "ledger_inv files' tombs (A @ each_file m) R \<and> delta_is dl' (X @ live_of (each_file m) R) Y"
  using assms
proof (induction m arbitrary: files A X dl)
  case (Cons dts m)
  obtain d ts where dts: "dts = (d, ts)" by force
  let ?B = "each_table_file d ts" and ?f0 = "entry_upd d [] (\<lambda>x. x) files"
  obtain dl1 files1 where step: "foldl (fold_table_adds tombs d) (dl, ?f0) ts = (dl1, files1)" by force
  have "ledger_inv ?f0 tombs A R"
    using Cons.prems(1) by (auto simp: ledger_inv_def each_file_touch intro: files_wf_entry)
  moreover have "names_paths (A @ ?B) R" "\<forall>x \<in> set ?B \<inter> set R. suppressed tombs (loc_path x)" "totals_fit (X @ live_of ?B R)"
    using Cons.prems(2,3,5) by (auto simp: dts totals_fit_def intro: names_paths_mono(2) [of _ "each_file m"])
  ultimately have "ledger_inv files1 tombs (A @ ?B) R" "delta_is dl1 (X @ live_of ?B R) Y"
    using fold_tables_adds_inv [OF _ _ _ Cons.prems(4) _ step] by simp_all
  from Cons.IH [OF this(1) _ _ this(2)] Cons.prems(2,3,5,6) step show ?case
    by (simp add: dts fold_db_adds_def)
qed auto

text \<open>After its removal a file that is not in the ledger is suppressed, if its path gives a key.\<close>

lemma map_of_set_tombstone:
  "map_of (set_tombstone cid present tombs f) p \<noteq> None \<longleftrightarrow>
     map_of tombs p \<noteq> None \<or> p = pf_path f \<and> p \<notin> present \<and> tombstone_key cid p \<noteq> None"
  by (auto simp: set_tombstone_def update_conv' split: option.splits)

lemma map_of_set_tombstones:
  "map_of (foldl (set_tombstone cid present) tombs fs) p \<noteq> None \<longleftrightarrow>
     map_of tombs p \<noteq> None \<or> p \<in> pf_path ` set fs \<and> p \<notin> present \<and> tombstone_key cid p \<noteq> None"
proof (induction fs arbitrary: tombs)
  case (Cons f fs)
  show ?case
    unfolding foldl.simps Cons.IH map_of_set_tombstone by auto
qed simp

lemma dom_keys: "p \<in> fst ` set tombs \<longleftrightarrow> map_of tombs p \<noteq> None"
  by (simp add: map_of_eq_None_iff)

lemma keep_files_at:
  fixes P
  defines "keep \<equiv> \<lambda>files d t. case map_of files d of None \<Rightarrow> files
             | Some ts \<Rightarrow> (case map_of ts t of None \<Rightarrow> files | Some fs \<Rightarrow> set_files d t (filter P fs) files)"
  assumes "files_wf files"
  shows "files_wf (keep files d t)"
    and "mset (each_file files) =
           mset (each_file (keep files d t)) + mset (map (\<lambda>f. (d, t, f)) (filter (\<lambda>f. \<not> P f) (files_at files d t)))"
proof -
  show "files_wf (keep files d t)"
    using assms(2) files_wf_set_files by (auto simp: keep_def split: option.splits)
  show "mset (each_file files) =
           mset (each_file (keep files d t)) + mset (map (\<lambda>f. (d, t, f)) (filter (\<lambda>f. \<not> P f) (files_at files d t)))"
  proof (cases "map_of files d")
    case (Some ts)
    show ?thesis
    proof (cases "map_of ts t")
      case (Some fs)
      have split: "mset (map (\<lambda>f. (d, t, f)) fs) =
          mset (map (\<lambda>f. (d, t, f)) (filter P fs)) + mset (map (\<lambda>f. (d, t, f)) (filter (\<lambda>f. \<not> P f) fs))"
        by (induction fs) auto
      have "mset (each_file (set_files d t (filter P fs) files)) + mset (map (\<lambda>f. (d, t, f)) fs) =
              mset (each_file files) + mset (map (\<lambda>f. (d, t, f)) (filter P fs))"
        by (rule mset_set_files [OF \<open>map_of files d = Some ts\<close> Some])
      with Some \<open>map_of files d = Some ts\<close> show ?thesis
        unfolding split by (simp add: keep_def files_at_def)
    qed (simp add: keep_def files_at_def \<open>map_of files d = Some ts\<close>)
  qed (simp add: keep_def files_at_def)
qed

lemma totals_fit_sub:
  assumes "totals_fit A" "mset A = mset X + M"
  shows "totals_fit X"
proof -
  have "length A = length X + size M" using assms(2) by (metis size_mset size_union)
  with assms show ?thesis by (simp add: totals_fit_def bytes_sum_mset rows_sum_mset)
qed

lemma totals_fit_live: "totals_fit A \<Longrightarrow> totals_fit (live_of A R)"
  by (rule totals_fit_sub [where M = "mset (filter (\<lambda>x. x \<in> set R) A)"])
    (simp_all add: live_of_def flip: multiset_partition)

text \<open>\<open>removes_inv A R X files tombs dl\<close>: a fold that found the live files of \<open>A\<close>, \<open>R\<^sub>0\<close> has removed \<open>Y\<close> of them.\<close>

definition removed_part ::
    "located_file list \<Rightarrow> located_file list \<Rightarrow> located_file list \<Rightarrow> fold_delta \<Rightarrow> db_files \<Rightarrow> bool" where
  "removed_part A R\<^sub>0 X dl files \<longleftrightarrow>
     (\<exists>Y. delta_is dl X Y \<and> mset (live_of A R\<^sub>0) = mset (each_file files) + mset Y)"

definition removes_done ::
    "string option \<Rightarrow> located_file list \<Rightarrow> (string \<times> tombstone_gc) list \<Rightarrow> (string \<times> tombstone_gc) list \<Rightarrow>
     located_file list \<Rightarrow> bool" where
  "removes_done cid A tombs tombs' S \<longleftrightarrow>
     (\<forall>p. suppressed tombs p \<longrightarrow> suppressed tombs' p) \<and>
     (\<forall>x \<in> set S. x \<in> set A \<or> tombstone_key cid (loc_path x) = None \<or> suppressed tombs' (loc_path x))"

lemma removes_done_append:
  "removes_done cid A tombs tombs1 S \<Longrightarrow> removes_done cid A tombs1 tombs' S' \<Longrightarrow>
   removes_done cid A tombs tombs' (S @ S')"
  unfolding removes_done_def set_append by blast

lemma fold_table_removes_inv:
  fixes d t rem
  defines "S \<equiv> map (\<lambda>f. (d, t, f)) rem"
  assumes inv: "ledger_inv files tombs A R" and names: "names_paths A (R @ S)"
    and part: "removed_part A R\<^sub>0 X dl files" and fit: "totals_fit A"
    and step: "fold_table_removes cid d (dl, files, tombs) (t, rem) = (dl', files', tombs')"
  shows "ledger_inv files' tombs' A (R @ S) \<and> removed_part A R\<^sub>0 X dl' files' \<and>
         removes_done cid A tombs tombs' S"
proof -
  have wf: "files_wf files" and ms: "mset (each_file files) = mset (live_of A R)"
    and tb: "fst ` set tombs \<subseteq> loc_path ` set R"
    using inv by (simp_all add: ledger_inv_def)
  let ?paths = "set (map pf_path rem)"
  let ?T = "filter (\<lambda>f. pf_path f \<in> ?paths) (files_at files d t)"
  let ?L = "map (\<lambda>f. (d, t, f)) ?T"
  have eqs: "dl' = fold delta_remove ?T dl"
    "files' = (case map_of files d of None \<Rightarrow> files
       | Some ts \<Rightarrow> (case map_of ts t of None \<Rightarrow> files
           | Some fs \<Rightarrow> set_files d t (filter (\<lambda>f. pf_path f \<notin> ?paths) fs) files))"
    "tombs' = foldl (set_tombstone cid (set (map pf_path ?T))) tombs rem"
    using step unfolding fold_table_removes_def Let_def prod.case prod.inject by blast+
  have wf': "files_wf files'" and split: "mset (each_file files) = mset (each_file files') + mset ?L"
    using keep_files_at [OF wf, where P = "\<lambda>f. pf_path f \<notin> ?paths" and d = d and t = t]
    unfolding eqs not_not by blast+
  have at: "f \<in> set (files_at files d t) \<longleftrightarrow> (d, t, f) \<in> set A - set R" for f
    using each_file_mem [OF wf, of d t f] mset_eq_setD [OF ms] by simp
  have L: "x \<in> set ?L \<longleftrightarrow> x \<in> set (live_of A R) \<and> x \<in> set S" for x
  proof
    assume "x \<in> set ?L"
    then obtain f g where x: "x = (d, t, f)" "f \<in> set (files_at files d t)" "g \<in> set rem" "pf_path f = pf_path g"
      by auto
    have "(d, t, g) = (d, t, f)"
      using names_pathsD(2) [OF names, of "(d, t, g)" "(d, t, f)"] x at by (simp add: S_def)
    then show "x \<in> set (live_of A R) \<and> x \<in> set S" using x at by (simp add: S_def)
  next
    assume "x \<in> set (live_of A R) \<and> x \<in> set S"
    then show "x \<in> set ?L" using at by (auto simp: S_def)
  qed
  have "distinct (live_of A R)" using names_pathsD(3) [OF names] by (simp add: live_of_def)
  then have dist: "distinct (each_file files)" using ms by (metis mset_eq_imp_distinct_iff)
  have "distinct (each_file files' @ ?L)" using dist split by (metis mset_append mset_eq_imp_distinct_iff)
  moreover have "set (each_file files' @ ?L) = set (live_of A R)"
    using mset_eq_setD [OF ms] split by (metis mset_append mset_eq_setD)
  ultimately have "distinct (each_file files')" "set (each_file files') = set (live_of A R) - set ?L"
    by auto
  moreover have "set ?L = set (live_of A R) \<inter> set S" using L by blast
  ultimately have "distinct (each_file files')" "set (each_file files') = set (live_of A (R @ S))"
    by auto
  moreover have "distinct (live_of A (R @ S))" using names_pathsD(3) [OF names] by (simp add: live_of_def)
  ultimately have live: "mset (each_file files') = mset (live_of A (R @ S))"
    using set_eq_iff_mset_eq_distinct by blast
  obtain Y where Y: "delta_is dl X Y" "mset (live_of A R\<^sub>0) = mset (each_file files) + mset Y"
    using part by (auto simp: removed_part_def)
  have "mset (live_of A R\<^sub>0) = mset (Y @ ?L) + mset (each_file files')" using Y(2) split by simp
  from delta_is_removes [OF Y(1) totals_fit_sub [OF totals_fit_live [OF fit] this]] this
  have part': "removed_part A R\<^sub>0 X dl' files'" by (auto simp: removed_part_def eqs(1))
  have tomb: "suppressed tombs' p \<longleftrightarrow> suppressed tombs p \<or>
      p \<in> pf_path ` set rem \<and> p \<notin> set (map pf_path ?T) \<and> tombstone_key cid p \<noteq> None" for p
    unfolding eqs(3) suppressed_def by (rule map_of_set_tombstones)
  have "fst ` set tombs' \<subseteq> loc_path ` set (R @ S)"
  proof
    fix p
    assume "p \<in> fst ` set tombs'"
    then have "suppressed tombs' p" by (simp only: dom_keys suppressed_def) simp
    then have "suppressed tombs p \<or> p \<in> pf_path ` set rem" unfolding tomb by blast
    then show "p \<in> loc_path ` set (R @ S)"
      using tb dom_keys [of p tombs] by (auto simp: suppressed_def S_def image_Un image_image)
  qed
  moreover have "x \<in> set A \<or> tombstone_key cid (loc_path x) = None \<or> suppressed tombs' (loc_path x)"
    if x: "x \<in> set S" for x
  proof (cases "loc_path x \<in> set (map pf_path ?T)")
    case True
    then obtain f where f: "f \<in> set (files_at files d t)" "pf_path f = loc_path x" by auto
    then have "x = (d, t, f)" using names_pathsD(2) [OF names, of x "(d, t, f)"] x at by simp
    then show ?thesis using f at by simp
  next
    case False
    moreover have "loc_path x \<in> pf_path ` set rem" using x by (auto simp: S_def)
    ultimately show ?thesis unfolding tomb by blast
  qed
  moreover have "\<forall>p. suppressed tombs p \<longrightarrow> suppressed tombs' p" unfolding tomb by blast
  ultimately show ?thesis
    unfolding ledger_inv_def removes_done_def using wf' live part' by (intro conjI ballI) simp_all
qed

lemma fold_tables_removes_inv:
  assumes "ledger_inv files tombs A R" "names_paths A (R @ each_table_file d ts)"
    "removed_part A R\<^sub>0 X dl files" "totals_fit A"
    "foldl (fold_table_removes cid d) (dl, files, tombs) ts = (dl', files', tombs')"
  shows "ledger_inv files' tombs' A (R @ each_table_file d ts) \<and> removed_part A R\<^sub>0 X dl' files' \<and>
         removes_done cid A tombs tombs' (each_table_file d ts)"
  using assms
proof (induction ts arbitrary: files R dl tombs)
  case (Cons tf ts)
  obtain t rem where tf: "tf = (t, rem)" by force
  let ?S = "map (\<lambda>f. (d, t, f)) rem"
  obtain dl1 files1 tombs1 where step: "fold_table_removes cid d (dl, files, tombs) (t, rem) = (dl1, files1, tombs1)"
    by (cases "fold_table_removes cid d (dl, files, tombs) (t, rem)")
  have "names_paths A (R @ ?S)"
    using Cons.prems(2) names_paths_mono(3) [of A "R @ ?S" "each_table_file d ts"] by (simp add: tf)
  note 1 = fold_table_removes_inv [OF Cons.prems(1) this Cons.prems(3,4) step]
  then have "ledger_inv files1 tombs1 A (R @ ?S)" "removed_part A R\<^sub>0 X dl1 files1" by simp_all
  from Cons.IH [OF this(1) _ this(2) Cons.prems(4)] Cons.prems(2,5) step 1
  show ?case by (auto simp: tf intro: removes_done_append)
qed (auto simp: removes_done_def)

lemma fold_dbs_removes_inv:
  assumes "ledger_inv files tombs A R" "names_paths A (R @ each_file m)"
    "removed_part A R\<^sub>0 X dl files" "totals_fit A"
    "foldl (fold_db_removes cid) (dl, files, tombs) m = (dl', files', tombs')"
  shows "ledger_inv files' tombs' A (R @ each_file m) \<and> removed_part A R\<^sub>0 X dl' files' \<and>
         removes_done cid A tombs tombs' (each_file m)"
  using assms
proof (induction m arbitrary: files R dl tombs)
  case (Cons dts m)
  obtain d ts where dts: "dts = (d, ts)" by force
  let ?S = "each_table_file d ts"
  obtain dl1 files1 tombs1 where step:
    "foldl (fold_table_removes cid d) (dl, files, tombs) ts = (dl1, files1, tombs1)"
    by (cases "foldl (fold_table_removes cid d) (dl, files, tombs) ts")
  have "names_paths A (R @ ?S)"
    using Cons.prems(2) names_paths_mono(3) [of A "R @ ?S" "each_file m"] by (simp add: dts)
  note 1 = fold_tables_removes_inv [OF Cons.prems(1) this Cons.prems(3,4) step]
  then have "ledger_inv files1 tombs1 A (R @ ?S)" "removed_part A R\<^sub>0 X dl1 files1" by simp_all
  from Cons.IH [OF this(1) _ this(2) Cons.prems(4)] Cons.prems(2,5) step 1
  show ?case by (auto simp: dts fold_db_removes_def intro: removes_done_append)
qed (auto simp: removes_done_def)

text \<open>One snapshot: the additions that are not suppressed and then the removals.\<close>

definition ledger_exact :: "ledger \<Rightarrow> bool" where
  "ledger_exact lg \<longleftrightarrow>
     lg_count lg = length (each_file (lg_files lg)) \<and>
     lg_size_bytes lg = int (bytes_sum (each_file (lg_files lg))) \<and>
     lg_row_count lg = rows_sum (each_file (lg_files lg))"

lemma add_persisted_snapshot_inv:
  fixes s lg cid
  defines "B \<equiv> each_file (ps_databases s)" and "S \<equiv> each_file (ps_removed_files s)"
    and "lg' \<equiv> add_persisted_snapshot s cid lg"
  assumes inv: "ledger_inv (lg_files lg) (lg_tombstones lg) A R" and names: "names_paths (A @ B) (R @ S)"
    and sup: "\<forall>x \<in> set B \<inter> set R. suppressed (lg_tombstones lg) (loc_path x)"
    and fit: "totals_fit (A @ B)" and ex: "ledger_exact lg"
  shows "ledger_inv (lg_files lg') (lg_tombstones lg') (A @ B) (R @ S) \<and> ledger_exact lg' \<and>
         removes_done cid (A @ B) (lg_tombstones lg) (lg_tombstones lg') S"
proof -
  let ?F = "lg_files lg" and ?T = "lg_tombstones lg"
  obtain dl1 files1 where add: "foldl (fold_db_adds ?T) (delta_zero, ?F) (ps_databases s) = (dl1, files1)" by force
  obtain dl files tombs where rem:
    "foldl (fold_db_removes cid) (dl1, files1, ?T) (ps_removed_files s) = (dl, files, tombs)"
    by (cases "foldl (fold_db_removes cid) (dl1, files1, ?T) (ps_removed_files s)")
  have "names_paths (A @ B) R" using names_paths_mono(3) [OF names] .
  moreover have "totals_fit (live_of B R)"
    by (rule totals_fit_sub [OF totals_fit_live [OF fit, of R], where M = "mset (live_of A R)"]) simp
  ultimately have 1: "ledger_inv files1 ?T (A @ B) R" "delta_is dl1 (live_of B R) []"
    using fold_dbs_adds_inv [OF inv _ _ delta_is_zero _ add] sup by (simp_all add: B_def)
  have "removed_part (A @ B) R (live_of B R) dl1 files1"
    unfolding removed_part_def using 1 by (intro exI [of _ "[]"]) (simp add: ledger_inv_def)
  note 2 = fold_dbs_removes_inv [OF 1(1) _ this fit rem]
  have lg': "lg_files lg' = files" "lg_tombstones lg' = tombs"
    "(lg_count lg', lg_size_bytes lg', lg_row_count lg') = apply_delta dl (lg_count lg, lg_size_bytes lg, lg_row_count lg)"
    using add rem
    by (simp_all add: lg'_def add_persisted_snapshot_def update_persisted_files_with_snapshot_def Let_def
        apply_delta_def)
  obtain Y where Y: "delta_is dl (live_of B R) Y" "mset (live_of (A @ B) R) = mset (each_file files) + mset Y"
    using 2 names by (auto simp: S_def removed_part_def)
  have old: "mset (each_file ?F) = mset (live_of A R)" using inv by (simp add: ledger_inv_def)
  note sums = sums_cong [OF old] mset_eq_length [OF old]
  have eq: "mset (live_of A R @ live_of B R) = mset (each_file files @ Y)" using Y(2) by simp
  from sums_cong [OF eq] mset_eq_length [OF eq] sums totals_fit_live [OF fit, of R] ex Y(1)
  have "ledger_exact lg'"
    using lg'(3) by (simp add: lg'(1) ledger_exact_def apply_delta_def delta_is_def totals_fit_def u64_add_exact)
  then show ?thesis using 2 names by (simp add: lg' S_def)
qed

lemma ledger_default_inv: "ledger_inv (lg_files ledger_default) (lg_tombstones ledger_default) [] [] \<and> ledger_exact ledger_default"
  by (simp add: ledger_default_def ledger_inv_def ledger_exact_def bytes_sum_def rows_sum_def)

lemma names_files_paths: "names_files A R \<Longrightarrow> names_paths A R"
  by (auto simp: names_files_def names_paths_def list_all_iff)

text \<open>The ledger is the second provider of the snapshot fold.\<close>

definition ledger_holds :: "ledger \<Rightarrow> persisted_snapshot list \<Rightarrow> bool" where
  "ledger_holds lg h \<longleftrightarrow>
     ledger_inv (lg_files lg) (lg_tombstones lg) (adds_of h) (rems_of h) \<and> ledger_exact lg"

interpretation ledger_fold: snapshot_fold "\<lambda>lg s. add_persisted_snapshot s None lg" ledger_holds lg_files
proof
  fix lg h s
  assume hold: "ledger_holds lg h" and ok: "history_ok (h @ [s])" and fit: "totals_fit (adds_of (h @ [s]))"
  have "set (each_file (ps_databases s)) \<inter> set (rems_of h) = {}"
    using ok by (auto simp: history_ok_def removed_after_added_append)
  moreover have "names_paths (adds_of h @ each_file (ps_databases s)) (rems_of h @ each_file (ps_removed_files s))"
    using ok by (simp add: history_ok_def names_files_paths)
  ultimately show "ledger_holds (add_persisted_snapshot s None lg) (h @ [s])"
    using add_persisted_snapshot_inv [of lg "adds_of h" "rems_of h" s None] hold fit by (simp add: ledger_holds_def)
next
  fix lg h
  assume "ledger_holds lg h"
  then show "files_wf (lg_files lg) \<and> mset (each_file (lg_files lg)) = mset (live h)"
    by (simp add: ledger_holds_def ledger_inv_def live_def)
qed

subsection \<open>Booting\<close>

lemma new_from_persisted_snapshots_fold:
  "new_from_persisted_snapshots ss = foldl (\<lambda>lg s. add_persisted_snapshot s None lg) ledger_default ss"
proof -
  let ?mk = "\<lambda>(files, tombs, n, sz, rows).
    \<lparr> lg_files = files, lg_count = n, lg_size_bytes = sz, lg_row_count = rows,
      lg_deleted_data = [], lg_tombstones = tombs, lg_eviction_tombstones = [] \<rparr>"
  let ?step = "\<lambda>(files, tombs, m) s.
     let (dl, files', tombs') = update_persisted_files_with_snapshot s None (files, tombs)
     in (files', tombs', apply_delta dl m)"
  have "?mk (foldl ?step st ss) = foldl (\<lambda>lg s. add_persisted_snapshot s None lg) (?mk st) ss" for st
  proof (induction ss arbitrary: st)
    case (Cons s ss)
    obtain files tombs n sz rows where st: "st = (files, tombs, n, sz, rows)" by (cases st)
    obtain dl files' tombs' where u: "update_persisted_files_with_snapshot s None (files, tombs) = (dl, files', tombs')"
      by (cases "update_persisted_files_with_snapshot s None (files, tombs)")
    have "?mk (?step st s) = add_persisted_snapshot s None (?mk st)"
      using u by (simp add: st add_persisted_snapshot_def apply_delta_def)
    with Cons.IH [of "?step st s"] show ?case by simp
  qed simp
  from this [of "([], [], 0, 0, 0)"] show ?thesis
    by (simp add: new_from_persisted_snapshots_def ledger_default_def case_prod_beta Let_def)
qed

lemma from_checkpoint_tables:
  "foldl (\<lambda>(files, n) (t, fs). (entry_upd d [] (entry_upd t [] (\<lambda>old. old @ fs)) files, u64_add n (length fs)))
     (files, n) ts = (files', n') \<Longrightarrow>
   files_wf files \<Longrightarrow> n + length (each_table_file d ts) \<le> u64_max \<Longrightarrow>
   files_wf files' \<and> mset (each_file files') = mset (each_file files) + mset (each_table_file d ts) \<and>
   n' = n + length (each_table_file d ts)"
proof (induction ts arbitrary: files n)
  case (Cons tf ts)
  obtain t fs where tf: "tf = (t, fs)" by force
  let ?f1 = "entry_upd d [] (entry_upd t [] (\<lambda>old. old @ fs)) files"
  have "files_wf ?f1" by (rule files_wf_entry [OF Cons.prems(2)]) (rule keys_distinct_entry_upd)
  moreover have "u64_add n (length fs) = n + length fs" using Cons.prems(3) by (simp add: tf u64_add_exact)
  ultimately show ?case
    using Cons.IH [of ?f1 "n + length fs"] Cons.prems by (simp add: tf mset_each_extend)
qed auto

lemma from_checkpoint_dbs:
  "foldl (\<lambda>st (d, ts). foldl (\<lambda>(files, n) (t, fs).
       (entry_upd d [] (entry_upd t [] (\<lambda>old. old @ fs)) files, u64_add n (length fs))) st ts)
     (files, n) m = (files', n') \<Longrightarrow>
   files_wf files \<Longrightarrow> n + length (each_file m) \<le> u64_max \<Longrightarrow>
   files_wf files' \<and> mset (each_file files') = mset (each_file files) + mset (each_file m) \<and>
   n' = n + length (each_file m)"
proof (induction m arbitrary: files n)
  case (Cons dts m)
  obtain d ts where dts: "dts = (d, ts)" by force
  obtain f1 n1 where step: "foldl (\<lambda>(files, n) (t, fs).
      (entry_upd d [] (entry_upd t [] (\<lambda>old. old @ fs)) files, u64_add n (length fs))) (files, n) ts = (f1, n1)"
    by force
  from from_checkpoint_tables [OF this Cons.prems(2)] Cons.prems(3)
  have "files_wf f1" "mset (each_file f1) = mset (each_file files) + mset (each_table_file d ts)"
    "n1 = n + length (each_table_file d ts)" by (simp_all add: dts)
  with Cons.IH [of f1 n1] Cons.prems(1,3) step show ?case by (simp add: dts)
qed auto

lemma ledger_from_checkpoint_holds:
  assumes "cp_holds c (adds_of h) (rems_of h)" "totals_fit (adds_of h)"
  shows "ledger_holds (ledger_from_checkpoint c) h"
proof -
  obtain files n where loop: "foldl (\<lambda>st (d, ts). foldl (\<lambda>(files, n) (t, fs).
       (entry_upd d [] (entry_upd t [] (\<lambda>old. old @ fs)) files, u64_add n (length fs))) st ts)
     ([], 0) (cp_databases c) = (files, n)" by force
  have ms: "mset (each_file (cp_databases c)) = mset (live_of (adds_of h) (rems_of h))" and "cp_totals c"
    using assms(1) by (simp_all add: cp_holds_def)
  have "length (each_file (cp_databases c)) \<le> u64_max"
    using mset_eq_length [OF ms] length_live_le [of "adds_of h" "rems_of h"] assms(2) by (simp add: totals_fit_def)
  with from_checkpoint_dbs [OF loop] have 1: "files_wf files"
    "mset (each_file files) = mset (each_file (cp_databases c))" "n = length (each_file (cp_databases c))"
    by simp_all
  with sums_cong [OF 1(2)] mset_eq_length [OF 1(2)] ms \<open>cp_totals c\<close> show ?thesis
    using loop
    by (simp add: ledger_from_checkpoint_def ledger_holds_def ledger_inv_def ledger_exact_def cp_totals_def)
qed

lemma ledger_holds_default: "ledger_holds ledger_default []"
  using ledger_default_inv by (simp add: ledger_holds_def)

lemma year_month_apply [simp]: "cp_year_month (fst (apply_snapshot (c, ix) s)) = cp_year_month c"
proof -
  have add: "cp_year_month (fst (foldl (\<lambda>(c, ix) (d, t, f). (add_file d t f c, ix(pf_id f \<mapsto> (d, t)))) cx xs)) =
      cp_year_month (fst cx)" for cx xs
    by (induction xs arbitrary: cx) (auto simp: add_file_def split: prod.splits)
  have rm: "cp_year_month (snd (remove_file d t i c)) = cp_year_month c" for d t i c
    by (auto simp: remove_file_def split: option.splits)
  have rem: "cp_year_month (fst (snd (foldl process_removed_file st xs))) = cp_year_month (fst (snd st))" for st xs
  proof (induction xs arbitrary: st)
    case (Cons x xs)
    then show ?case
      by (auto simp: process_removed_file_def rm add_pending_removed_def split: prod.splits option.splits)
  qed simp
  show ?thesis
    using add [of "(update_from_snapshot s c, ix)" "each_file (ps_databases s)"]
      rem [of "(False, add_snapshot_files (ps_databases s) (update_from_snapshot s c, ix))"
        "each_file (ps_removed_files s)"]
    by (auto simp: apply_snapshot_def process_removed_files_def add_snapshot_files_def recalculate_time_range_def
        update_from_snapshot_def split: prod.splits)
qed

lemma year_month_build [simp]: "cp_year_month (build_checkpoint node ym ss) = ym"
proof -
  have "cp_year_month (fst (foldl apply_snapshot cx h)) = cp_year_month (fst cx)" for cx h
  proof (induction h arbitrary: cx)
    case (Cons s h)
    then show ?case by (cases cx) simp
  qed simp
  then show ?thesis by (simp add: build_checkpoint_def checkpoint_new_def)
qed

definition at_table :: "nat \<Rightarrow> nat \<Rightarrow> located_file \<Rightarrow> bool" where
  "at_table d t x \<longleftrightarrow> fst x = d \<and> fst (snd x) = t"

lemma at_table_simp [simp]: "at_table d t (d', t', f) \<longleftrightarrow> d' = d \<and> t' = t"
  by (simp add: at_table_def)

lemma filter_each_table:
  assumes "keys_distinct ts"
  shows "filter (at_table d t) (each_table_file e ts) =
           (if e = d then map (\<lambda>f. (d, t, f)) (the_or [] (map_of ts t)) else [])"
  using assms
proof (induction ts)
  case (Cons p ts)
  obtain t' fs where p: "p = (t', fs)" by force
  have "t' = t \<Longrightarrow> map_of ts t = None"
    using Cons.prems p by (simp add: keys_distinct_def map_of_eq_None_iff)
  with Cons p show ?case by (auto simp: keys_distinct_def filter_map o_def)
qed simp

lemma filter_each_file:
  "files_wf m \<Longrightarrow>
   filter (at_table d t) (each_file m) = map (\<lambda>f. (d, t, f)) (files_at m d t)"
proof (induction m)
  case (Cons p m)
  obtain e ts where p: "p = (e, ts)" by force
  have none: "e = d \<Longrightarrow> map_of m d = None"
    using Cons.prems p by (auto simp: files_wf_def keys_distinct_def map_of_eq_None_iff)
  have "keys_distinct ts" "files_wf m" using Cons.prems p by (auto simp: files_wf_def keys_distinct_def)
  with Cons.IH none show ?case by (auto simp: p filter_each_table files_at_def)
qed (simp add: files_at_def)

lemma mset_files_at:
  assumes "files_wf m" "files_wf m'" "mset (each_file m) = mset (each_file m')"
  shows "mset (files_at m d t) = mset (files_at m' d t)"
proof -
  let ?P = "at_table d t"
  have "mset (filter ?P (each_file m)) = mset (filter ?P (each_file m'))"
    using assms(3) by (metis mset_filter)
  then have "mset (map (\<lambda>(_, _, f). f) (filter ?P (each_file m))) = mset (map (\<lambda>(_, _, f). f) (filter ?P (each_file m')))"
    by (metis mset_map)
  then show ?thesis by (simp add: filter_each_file [OF assms(1)] filter_each_file [OF assms(2)] o_def)
qed

lemma ledgers_agree:
  assumes "ledger_holds a h" "ledger_holds b h"
  shows "mset (files_at (lg_files a) d t) = mset (files_at (lg_files b) d t)" "get_metrics a = get_metrics b"
proof -
  have files: "files_wf (lg_files a)" "files_wf (lg_files b)"
    "mset (each_file (lg_files a)) = mset (each_file (lg_files b))"
    using assms by (simp_all add: ledger_holds_def ledger_inv_def)
  then show "mset (files_at (lg_files a) d t) = mset (files_at (lg_files b) d t)" by (rule mset_files_at)
  show "get_metrics a = get_metrics b"
    using assms sums_cong [OF files(3)] mset_eq_length [OF files(3)]
    by (simp add: get_metrics_def ledger_holds_def ledger_exact_def)
qed

lemma merged_months_hold:
  assumes ok: "history_ok (concat (map snd months))" and fit: "totals_fit (adds_of (concat (map snd months)))"
    and order: "sorted_wrt (<) (map fst months)" and perm: "mset months' = mset months"
  shows "ledger_holds
    (case merge_checkpoints (sort_key cp_year_month (map (\<lambda>(ym, h). build_checkpoint node ym (rev h)) months')) of
       None \<Rightarrow> ledger_default | Some c \<Rightarrow> ledger_from_checkpoint c) (concat (map snd months))"
proof -
  let ?b = "\<lambda>(ym, h). build_checkpoint node ym (rev h)"
  have key: "cp_year_month \<circ> ?b = fst" by (auto simp: fun_eq_iff)
  have inj: "inj_on cp_year_month (set (map ?b months'))"
  proof (rule inj_onI)
    fix c c'
    assume "c \<in> set (map ?b months')" "c' \<in> set (map ?b months')" "cp_year_month c = cp_year_month c'"
    then obtain p q where pq: "p \<in> set months" "q \<in> set months" "c = ?b p" "c' = ?b q" "fst p = fst q"
      using mset_eq_setD [OF perm] by auto
    have "inj_on fst (set months)" using order by (simp add: strict_sorted_iff distinct_map)
    with pq have "p = q" by (auto dest: inj_onD)
    with pq show "c = c'" by simp
  qed
  have "sort_key cp_year_month (map ?b months') = map ?b months"
  proof (rule sort_key_inj_key_eq [OF _ inj])
    show "mset (map ?b months') = mset (map ?b months)" using perm by simp
    show "sorted (map cp_year_month (map ?b months))"
      using order by (simp add: key strict_sorted_iff)
  qed
  then show ?thesis
  proof (cases "months = []")
    case False
    obtain m where "merge_checkpoints (map ?b months) = Some m"
      "cp_holds m (adds_of (concat (map snd months))) (rems_of (concat (map snd months)))"
      using merge_months [OF ok fit False] by blast
    with ledger_from_checkpoint_holds [OF _ fit] \<open>sort_key _ _ = _\<close> show ?thesis by simp
  qed (use ledger_holds_default perm in \<open>simp add: merge_checkpoints_def\<close>)
qed

subsection \<open>Manifests in any order\<close>

text \<open>
  The poller folds writer snapshots and compaction manifests as it finds them and collects
  tombstones against the high-water marks in between.
\<close>

datatype ledger_op =
    FoldManifest persisted_snapshot "string option"
  | CollectTombstones "(string \<times> nat) list" "string option"

fun ledger_step :: "ledger_op \<Rightarrow> ledger \<Rightarrow> ledger" where
  "ledger_step (FoldManifest s cid) lg = add_persisted_snapshot s cid lg"
| "ledger_step (CollectTombstones whw chw) lg = gc_tombstones whw chw lg"

fun op_adds :: "ledger_op \<Rightarrow> located_file list" where
  "op_adds (FoldManifest s cid) = each_file (ps_databases s)"
| "op_adds (CollectTombstones whw chw) = []"

fun op_rems :: "ledger_op \<Rightarrow> located_file list" where
  "op_rems (FoldManifest s cid) = each_file (ps_removed_files s)"
| "op_rems (CollectTombstones whw chw) = []"

definition ops_adds :: "ledger_op list \<Rightarrow> located_file list" where "ops_adds ops = concat (map op_adds ops)"
definition ops_rems :: "ledger_op list \<Rightarrow> located_file list" where "ops_rems ops = concat (map op_rems ops)"

fun op_keys :: "ledger_op \<Rightarrow> string \<Rightarrow> tombstone_gc option" where
  "op_keys (FoldManifest s cid) p = tombstone_key cid p"
| "op_keys (CollectTombstones whw chw) p = None"

text \<open>
  Every removal gives a tombstone key: a writer file by its path, a compacted one by the identifier
  of the manifest. A collection keeps the tombstones of files that are still to be added.
\<close>

definition removals_keyed :: "ledger_op list \<Rightarrow> bool" where
  "removals_keyed ops \<longleftrightarrow> list_all (\<lambda>op. list_all (\<lambda>x. op_keys op (loc_path x) \<noteq> None) (op_rems op)) ops"

fun op_keeps :: "ledger_op \<Rightarrow> tombstone_gc \<Rightarrow> bool" where
  "op_keeps (FoldManifest s cid) k = True"
| "op_keeps (CollectTombstones whw chw) k = keeps_tombstone whw chw k"

fun collects_ok :: "ledger_op list \<Rightarrow> ledger_op list \<Rightarrow> bool" where
  "collects_ok before [] = True"
| "collects_ok before (op # after) =
     (list_all (\<lambda>b. list_all (\<lambda>x. x \<in> set (ops_adds after) \<longrightarrow>
          (case op_keys b (loc_path x) of None \<Rightarrow> True | Some k \<Rightarrow> op_keeps op k)) (op_rems b)) before \<and>
      collects_ok (before @ [op]) after)"

definition ops_ok :: "ledger_op list \<Rightarrow> bool" where
  "ops_ok ops \<longleftrightarrow>
     names_paths (ops_adds ops) (ops_rems ops) \<and> totals_fit (ops_adds ops) \<and>
     removals_keyed ops \<and> collects_ok [] ops"

definition tombs_from :: "ledger_op list \<Rightarrow> (string \<times> tombstone_gc) list \<Rightarrow> bool" where
  "tombs_from ops tombs \<longleftrightarrow>
     (\<forall>(p, k) \<in> set tombs.
        (\<exists>op \<in> set ops. \<exists>x \<in> set (op_rems op). loc_path x = p \<and> op_keys op p = Some k))"

lemma ops_append [simp]:
  "ops_adds [] = []" "ops_rems [] = []"
  "ops_adds (op # ops) = op_adds op @ ops_adds ops" "ops_rems (op # ops) = op_rems op @ ops_rems ops"
  "ops_adds (ops @ ops') = ops_adds ops @ ops_adds ops'" "ops_rems (ops @ ops') = ops_rems ops @ ops_rems ops'"
  by (simp_all add: ops_adds_def ops_rems_def)

lemma set_tombstones_origin:
  "(p, k) \<in> set (foldl (set_tombstone cid present) tombs fs) \<Longrightarrow>
   (p, k) \<in> set tombs \<or> p \<in> pf_path ` set fs \<and> tombstone_key cid p = Some k"
proof (induction fs arbitrary: tombs)
  case (Cons f fs)
  from Cons.IH [of "set_tombstone cid present tombs f"] Cons.prems show ?case
    by (auto simp: set_tombstone_def split: option.splits if_splits dest: set_AList_update)
qed simp

lemma fold_tables_tombs_origin:
  "foldl (fold_table_removes cid d) (dl, files, tombs) ts = (dl', files', tombs') \<Longrightarrow> (p, k) \<in> set tombs' \<Longrightarrow>
   (p, k) \<in> set tombs \<or> p \<in> loc_path ` set (each_table_file d ts) \<and> tombstone_key cid p = Some k"
proof (induction ts arbitrary: dl files tombs)
  case (Cons tf ts)
  obtain t rem where tf: "tf = (t, rem)" by force
  obtain dl1 files1 tombs1 where step: "fold_table_removes cid d (dl, files, tombs) (t, rem) = (dl1, files1, tombs1)"
    by (cases "fold_table_removes cid d (dl, files, tombs) (t, rem)")
  obtain present where "tombs1 = foldl (set_tombstone cid present) tombs rem"
    using step unfolding fold_table_removes_def Let_def prod.case prod.inject by blast
  from set_tombstones_origin [of p k cid present tombs rem, folded this] Cons.IH [of dl1 files1 tombs1] Cons.prems step
  show ?case by (auto simp: tf image_Un image_image)
qed simp

lemma fold_dbs_tombs_origin:
  "foldl (fold_db_removes cid) (dl, files, tombs) m = (dl', files', tombs') \<Longrightarrow> (p, k) \<in> set tombs' \<Longrightarrow>
   (p, k) \<in> set tombs \<or> p \<in> loc_path ` set (each_file m) \<and> tombstone_key cid p = Some k"
proof (induction m arbitrary: dl files tombs)
  case (Cons dts m)
  obtain d ts where dts: "dts = (d, ts)" by force
  obtain dl1 files1 tombs1 where step:
    "foldl (fold_table_removes cid d) (dl, files, tombs) ts = (dl1, files1, tombs1)"
    by (cases "foldl (fold_table_removes cid d) (dl, files, tombs) ts")
  from fold_tables_tombs_origin [OF step, of p k] Cons.IH [of dl1 files1 tombs1] Cons.prems step
  show ?case by (auto simp: dts fold_db_removes_def image_Un)
qed simp

lemma add_snapshot_tombs_origin:
  assumes "(p, k) \<in> set (lg_tombstones (add_persisted_snapshot s cid lg))"
  shows "(p, k) \<in> set (lg_tombstones lg) \<or>
         p \<in> loc_path ` set (each_file (ps_removed_files s)) \<and> tombstone_key cid p = Some k"
proof -
  obtain dl1 files1 where add: "foldl (fold_db_adds (lg_tombstones lg)) (delta_zero, lg_files lg) (ps_databases s) = (dl1, files1)"
    by force
  obtain dl files tombs where rem:
    "foldl (fold_db_removes cid) (dl1, files1, lg_tombstones lg) (ps_removed_files s) = (dl, files, tombs)"
    by (cases "foldl (fold_db_removes cid) (dl1, files1, lg_tombstones lg) (ps_removed_files s)")
  have "lg_tombstones (add_persisted_snapshot s cid lg) = tombs"
    using add rem by (simp add: add_persisted_snapshot_def update_persisted_files_with_snapshot_def apply_delta_def)
  with fold_dbs_tombs_origin [OF rem, of p k] assms show ?thesis by simp
qed

text \<open>The invariant of a run: what is removed and still to be added is suppressed.\<close>

definition run_inv :: "ledger \<Rightarrow> ledger_op list \<Rightarrow> ledger_op list \<Rightarrow> bool" where
  "run_inv lg before after \<longleftrightarrow>
     ledger_inv (lg_files lg) (lg_tombstones lg) (ops_adds before) (ops_rems before) \<and> ledger_exact lg \<and>
     tombs_from before (lg_tombstones lg) \<and>
     (\<forall>x \<in> set (ops_rems before) \<inter> set (ops_adds after). suppressed (lg_tombstones lg) (loc_path x))"

lemma run_inv_fold:
  assumes inv: "run_inv lg before (FoldManifest s cid # after)"
    and names: "names_paths (ops_adds (before @ FoldManifest s cid # after)) (ops_rems (before @ FoldManifest s cid # after))"
    and fit: "totals_fit (ops_adds (before @ FoldManifest s cid # after))"
    and keyed: "removals_keyed [FoldManifest s cid]"
  shows "run_inv (add_persisted_snapshot s cid lg) (before @ [FoldManifest s cid]) after"
proof -
  let ?A = "ops_adds before" and ?R = "ops_rems before"
  let ?B = "each_file (ps_databases s)" and ?S = "each_file (ps_removed_files s)"
  let ?T = "lg_tombstones lg" and ?T' = "lg_tombstones (add_persisted_snapshot s cid lg)"
  have sup: "\<forall>x \<in> set ?B \<inter> set ?R. suppressed ?T (loc_path x)"
    and later: "\<forall>x \<in> set ?R \<inter> set (ops_adds after). suppressed ?T (loc_path x)"
    and lg: "ledger_inv (lg_files lg) ?T ?A ?R" "ledger_exact lg" and origin: "tombs_from before ?T"
    using inv by (auto simp: run_inv_def)
  have nm: "names_paths (?A @ ?B) (?R @ ?S)"
    using names names_paths_mono(1) [of "?A @ ?B" "ops_adds after" "?R @ ?S" "ops_rems after"] by simp
  have ft: "totals_fit (?A @ ?B)" using fit by (simp add: totals_fit_def)
  note step = add_persisted_snapshot_inv [OF lg(1) nm sup ft lg(2), of cid]
  have mono: "suppressed ?T p \<Longrightarrow> suppressed ?T' p" for p
    using step by (simp add: removes_done_def)
  have new: "x \<in> set (?A @ ?B) \<or> suppressed ?T' (loc_path x)" if "x \<in> set ?S" for x
  proof -
    have "tombstone_key cid (loc_path x) \<noteq> None" using keyed that by (simp add: removals_keyed_def list_all_iff)
    moreover have "\<forall>x \<in> set ?S. x \<in> set (?A @ ?B) \<or> tombstone_key cid (loc_path x) = None \<or> suppressed ?T' (loc_path x)"
      using step unfolding removes_done_def by blast
    from bspec [OF this that] calculation show ?thesis by simp
  qed
  have fresh: "set (?A @ ?B) \<inter> set (ops_adds after) = {}"
    using names_pathsD(3) [OF names] by auto
  have "tombs_from (before @ [FoldManifest s cid]) ?T'"
    unfolding tombs_from_def
  proof safe
    fix p k
    assume "(p, k) \<in> set ?T'"
    then consider "(p, k) \<in> set ?T" | x where "x \<in> set ?S" "p = loc_path x" "tombstone_key cid p = Some k"
      using add_snapshot_tombs_origin [of p k s cid lg] by auto
    then show "\<exists>op \<in> set (before @ [FoldManifest s cid]). \<exists>x \<in> set (op_rems op). loc_path x = p \<and> op_keys op p = Some k"
    proof cases
      case 1
      with origin show ?thesis by (auto simp: tombs_from_def)
    next
      case 2
      then show ?thesis by (intro bexI [of _ "FoldManifest s cid"]) auto
    qed
  qed
  moreover have "suppressed ?T' (loc_path x)" if "x \<in> set (?R @ ?S)" "x \<in> set (ops_adds after)" for x
  proof (cases "x \<in> set ?R")
    case True
    with later that(2) have "suppressed ?T (loc_path x)" by blast
    then show ?thesis by (rule mono)
  next
    case False
    with that(1) have "x \<in> set ?S" by simp
    from new [OF this] fresh that(2) show ?thesis by blast
  qed
  ultimately show ?thesis using step by (simp add: run_inv_def)
qed

lemma run_inv_collect:
  assumes inv: "run_inv lg before (CollectTombstones whw chw # after)"
    and names: "names_paths (ops_adds before @ ops_adds after) (ops_rems before)"
    and keep: "collects_ok before (CollectTombstones whw chw # after)"
  shows "run_inv (gc_tombstones whw chw lg) (before @ [CollectTombstones whw chw]) after"
proof -
  let ?T = "lg_tombstones lg"
  let ?T' = "filter (\<lambda>(_, gc). keeps_tombstone whw chw gc) ?T"
  have origin: "tombs_from before ?T" and sup: "\<forall>x \<in> set (ops_rems before) \<inter> set (ops_adds after). suppressed ?T (loc_path x)"
    using inv by (auto simp: run_inv_def)
  have "suppressed ?T' (loc_path x)" if x: "x \<in> set (ops_rems before) \<inter> set (ops_adds after)" for x
  proof -
    obtain k where k: "(loc_path x, k) \<in> set ?T"
      using bspec [OF sup x] by (auto simp: suppressed_def dest: map_of_SomeD)
    then obtain op y where y: "op \<in> set before" "y \<in> set (op_rems op)" "loc_path y = loc_path x"
        "op_keys op (loc_path x) = Some k"
      using origin by (auto simp: tombs_from_def)
    have "y \<in> set (ops_rems before)" using y by (auto simp: ops_rems_def)
    then have "y = x" using names_pathsD(2) [OF names, of y x] y(3) x by simp
    with y(2) have "x \<in> set (op_rems op)" by simp
    moreover have "\<forall>b \<in> set before. \<forall>x \<in> set (op_rems b). x \<in> set (ops_adds after) \<longrightarrow>
        (case op_keys b (loc_path x) of None \<Rightarrow> True | Some k \<Rightarrow> op_keeps (CollectTombstones whw chw) k)"
      using keep unfolding collects_ok.simps list_all_iff by blast
    ultimately have "case op_keys op (loc_path x) of None \<Rightarrow> True | Some k \<Rightarrow> op_keeps (CollectTombstones whw chw) k"
      using y(1) x by blast
    then have "keeps_tombstone whw chw k" using y(4) by simp
    with k have "(loc_path x, k) \<in> set ?T'" by simp
    then have "loc_path x \<in> fst ` set ?T'" by force
    then show ?thesis by (simp only: dom_keys suppressed_def) simp
  qed
  moreover have "tombs_from (before @ [CollectTombstones whw chw]) ?T'"
    using origin by (auto simp: tombs_from_def)
  moreover have "ledger_inv (lg_files lg) ?T' (ops_adds before) (ops_rems before)"
    using inv by (auto simp: run_inv_def ledger_inv_def)
  ultimately show ?thesis
    using inv by (auto simp: run_inv_def gc_tombstones_def ledger_exact_def)
qed

definition ledger_run :: "ledger_op list \<Rightarrow> ledger" where
  "ledger_run ops = fold ledger_step ops ledger_default"

lemma run_inv_prefix:
  assumes "ops_ok (ops @ later)"
  shows "run_inv (ledger_run ops) ops later"
proof -
  have "run_inv (fold ledger_step after lg) (before @ after) later"
    if "run_inv lg before (after @ later)"
      "names_paths (ops_adds (before @ after @ later)) (ops_rems (before @ after @ later))"
      "totals_fit (ops_adds (before @ after @ later))" "removals_keyed (after @ later)" "collects_ok before (after @ later)"
      for lg before after
    using that
  proof (induction after arbitrary: lg before)
    case (Cons op after)
    have "run_inv (ledger_step op lg) (before @ [op]) (after @ later)"
    proof (cases op)
      case (FoldManifest s cid)
      with Cons.prems show ?thesis
        using run_inv_fold [of lg before s cid "after @ later"] by (simp add: removals_keyed_def)
    next
      case (CollectTombstones whw chw)
      have "names_paths (ops_adds before @ ops_adds (after @ later)) (ops_rems before)"
        using Cons.prems(2) names_paths_mono(3) [of _ "ops_rems before"] by (simp add: CollectTombstones)
      with Cons.prems CollectTombstones show ?thesis using run_inv_collect by simp
    qed
    with Cons.IH [of "ledger_step op lg" "before @ [op]"] Cons.prems show ?case
      by (simp add: removals_keyed_def)
  qed simp
  from this [of ledger_default "[]" ops] assms show ?thesis
    using ledger_default_inv
    by (simp add: ledger_run_def ops_ok_def run_inv_def tombs_from_def ledger_default_def)
qed

lemmas run_inv_run = run_inv_prefix [where later = "[]", simplified]

subsection \<open>Removing deleted and expired files\<close>

definition queue_loc :: "removal_queue \<Rightarrow> located_file \<Rightarrow> removal_queue" where
  "queue_loc q x = (case x of (d, t, f) \<Rightarrow> queue_for_removal d t q f)"

definition deleted_reqs :: "db_files \<Rightarrow> nat \<times> deleted_tables \<Rightarrow> located_file list" where
  "deleted_reqs files dd =
     (case dd of (d, deleted) \<Rightarrow>
        (case deleted of
           AllTables \<Rightarrow> each_table_file d (the_or [] (map_of files d))
         | TableList ids \<Rightarrow> concat (map (\<lambda>t. map (\<lambda>f. (d, t, f)) (files_at files d t)) ids)))"

definition expired_reqs :: "ledger \<Rightarrow> (nat \<times> nat) \<times> int \<Rightarrow> located_file list" where
  "expired_reqs lg rp =
     (case rp of ((d, t), cutoff) \<Rightarrow>
        if is_deleted (lg_deleted_data lg) d t then []
        else map (\<lambda>f. (d, t, f)) (filter (\<lambda>f. pf_max_time f < cutoff) (files_at (lg_files lg) d t)))"

definition removal_reqs :: "((nat \<times> nat) \<times> int) list \<Rightarrow> ledger \<Rightarrow> located_file list" where
  "removal_reqs rps lg =
     concat (map (deleted_reqs (lg_files lg)) (lg_deleted_data lg)) @ concat (map (expired_reqs lg) rps)"

lemma foldl_queue_table: "foldl (queue_for_removal d t) q fs = foldl queue_loc q (map (\<lambda>f. (d, t, f)) fs)"
  by (induction fs arbitrary: q) (simp_all add: queue_loc_def)

lemma concat_nils: "concat (map (\<lambda>_. []) xs) = []"
  by (induction xs) simp_all

lemma queue_deleted_reqs: "queue_deleted files q dd = foldl queue_loc q (deleted_reqs files dd)"
proof -
  have "foldl (\<lambda>q (t, fs). foldl (queue_for_removal d t) q fs) q ts = foldl queue_loc q (each_table_file d ts)" for q d ts
    by (induction ts arbitrary: q) (auto simp: foldl_queue_table)
  moreover have "foldl (\<lambda>q t. foldl (queue_for_removal d t) q (g t)) q ids =
      foldl queue_loc q (concat (map (\<lambda>t. map (\<lambda>f. (d, t, f)) (g t)) ids))" for q d g ids
    by (induction ids arbitrary: q) (auto simp: foldl_queue_table)
  ultimately show ?thesis
    by (auto simp: queue_deleted_def deleted_reqs_def files_at_def concat_nils split: prod.splits option.splits deleted_tables.splits)
qed

lemma queue_removals_reqs:
  "queue_removals rps lg =
     foldl queue_loc \<lparr> rq_removed = [], rq_paths = [], rq_size = 0, rq_rows = 0 \<rparr> (removal_reqs rps lg)"
proof -
  have "foldl (queue_deleted (lg_files lg)) q dds = foldl queue_loc q (concat (map (deleted_reqs (lg_files lg)) dds))" for q dds
    by (induction dds arbitrary: q) (simp_all add: queue_deleted_reqs)
  moreover have "queue_expired lg q rp = foldl queue_loc q (expired_reqs lg rp)" for q rp
    by (auto simp: queue_expired_def expired_reqs_def foldl_queue_table split: prod.splits)
  then have "foldl (queue_expired lg) q rps = foldl queue_loc q (concat (map (expired_reqs lg) rps))" for q rps
    by (induction rps arbitrary: q) simp_all
  ultimately show ?thesis by (simp add: queue_removals_def removal_reqs_def)
qed

definition queue_ok :: "removal_queue \<Rightarrow> located_file list \<Rightarrow> bool" where
  "queue_ok q Q \<longleftrightarrow>
     mset (each_file (rq_removed q)) = mset Q \<and> files_wf (rq_removed q) \<and> rq_paths q = map loc_path Q \<and>
     rq_size q = bytes_sum Q \<and> rq_rows q = rows_sum Q \<and> distinct Q"

lemma queue_locs:
  assumes "queue_ok q Q" "set Q \<union> set reqs \<subseteq> set U" "distinct (map loc_path U)" "totals_fit U"
  shows "\<exists>Q'. queue_ok (foldl queue_loc q reqs) Q' \<and> set Q' = set Q \<union> set reqs"
  using assms(1,2)
proof (induction reqs arbitrary: q Q)
  case (Cons x reqs)
  obtain d t f where x: "x = (d, t, f)" by (cases x)
  have inj: "inj_on loc_path (set U)" using assms(3) by (simp add: distinct_map)
  show ?case
  proof (cases "x \<in> set Q")
    case True
    then have "pf_path f \<in> set (rq_paths q)" using Cons.prems(1) by (force simp: queue_ok_def x)
    then have "queue_loc q x = q" by (simp add: x queue_loc_def queue_for_removal_def)
    with Cons.IH [of q Q] Cons.prems True show ?thesis by (auto simp: insert_absorb)
  next
    case False
    have new: "pf_path f \<notin> set (rq_paths q)"
    proof
      assume "pf_path f \<in> set (rq_paths q)"
      then obtain y where y: "y \<in> set Q" "loc_path y = loc_path x"
        using Cons.prems(1) by (auto simp: queue_ok_def x)
      have "y = x" by (rule inj_onD [OF inj y(2)]) (use y(1) Cons.prems(2) in auto)
      with y(1) False show False by simp
    qed
    have sub: "set (Q @ [x]) \<subseteq> set U" "distinct (Q @ [x])" using False Cons.prems by (auto simp: queue_ok_def)
    then obtain M where "mset U = mset (Q @ [x]) + M"
      using assms(3) by (metis distinct_map mset_set_set set_mset_mset subset_imp_msubset_mset_set
          mset_subset_eq_exists_conv List.finite_set)
    from totals_fit_sub [OF assms(4) this]
    have "queue_ok (queue_loc q x) (Q @ [x])"
      using new Cons.prems(1) sub(2)
      by (auto simp: queue_ok_def queue_loc_def queue_for_removal_def x mset_each_push totals_fit_def
          bytes_sum_def rows_sum_def u64_add_exact)
    with Cons.IH [of "queue_loc q x" "Q @ [x]"] Cons.prems(2) sub show ?thesis by auto
  qed
qed auto

definition doomed :: "((nat \<times> nat) \<times> int) list \<Rightarrow> ledger \<Rightarrow> located_file \<Rightarrow> bool" where
  "doomed rps lg x \<longleftrightarrow>
     is_deleted (lg_deleted_data lg) (fst x) (fst (snd x)) \<or>
     list_ex (\<lambda>(dt, cutoff). dt = (fst x, fst (snd x)) \<and> pf_max_time (snd (snd x)) < cutoff) rps"

lemma removal_reqs_doomed:
  assumes wf: "files_wf (lg_files lg)" and keys: "keys_distinct (lg_deleted_data lg)"
  shows "set (removal_reqs rps lg) = {x \<in> set (each_file (lg_files lg)). doomed rps lg x}"
proof -
  have all: "x \<in> set (each_table_file d (the_or [] (map_of (lg_files lg) d))) \<longleftrightarrow>
      x \<in> set (each_file (lg_files lg)) \<and> fst x = d" for x d
  proof -
    obtain d' t f where x: "x = (d', t, f)" by (cases x)
    have "keys_distinct (the_or [] (map_of (lg_files lg) d))"
      using map_of_wf_table [OF wf] by (cases "map_of (lg_files lg) d") (simp_all add: keys_distinct_def)
    then show ?thesis
      using each_table_file_mem each_file_mem [OF wf, of d' t f] by (auto simp: x files_at_def)
  qed
  have mem: "(d, dt) \<in> set (lg_deleted_data lg) \<longleftrightarrow> map_of (lg_deleted_data lg) d = Some dt" for d dt
    using keys by (simp add: keys_distinct_def)
  have "x \<in> set (removal_reqs rps lg) \<longleftrightarrow> x \<in> set (each_file (lg_files lg)) \<and> doomed rps lg x" for x
  proof -
    obtain d t f where x: "x = (d, t, f)" by (cases x)
    have at: "f \<in> set (files_at (lg_files lg) d t) \<longleftrightarrow> x \<in> set (each_file (lg_files lg))"
      using each_file_mem [OF wf, of d t f] by (simp add: x)
    have "x \<in> set (deleted_reqs (lg_files lg) (e, dt)) \<longleftrightarrow>
        e = d \<and> x \<in> set (each_file (lg_files lg)) \<and> (case dt of AllTables \<Rightarrow> True | TableList ids \<Rightarrow> t \<in> set ids)" for e dt
      using all [of x e] at by (cases dt) (auto simp: deleted_reqs_def x)
    then have del: "(\<exists>dd \<in> set (lg_deleted_data lg). x \<in> set (deleted_reqs (lg_files lg) dd)) \<longleftrightarrow>
        x \<in> set (each_file (lg_files lg)) \<and> is_deleted (lg_deleted_data lg) d t"
      by (auto simp: is_deleted_def mem Bex_def split: option.splits deleted_tables.splits)
    have "(\<exists>rp \<in> set rps. x \<in> set (expired_reqs lg rp)) \<longleftrightarrow>
        x \<in> set (each_file (lg_files lg)) \<and> \<not> is_deleted (lg_deleted_data lg) d t \<and>
        list_ex (\<lambda>(dt, cutoff). dt = (d, t) \<and> pf_max_time f < cutoff) rps"
      using at by (auto simp: expired_reqs_def list_ex_iff x Bex_def split: if_splits)
    with del show ?thesis by (auto simp: removal_reqs_def doomed_def x)
  qed
  then show ?thesis by blast
qed

lemma each_file_keep:
  "each_file (map (\<lambda>(d, ts). (d, map (\<lambda>(t, fs). (t, filter P fs)) ts)) m) = filter (\<lambda>(_, _, f). P f) (each_file m)"
proof -
  have "each_table_file d (map (\<lambda>(t, fs). (t, filter P fs)) ts) = filter (\<lambda>(_, _, f). P f) (each_table_file d ts)" for d ts
    by (induction ts) (auto simp: filter_map o_def)
  then show ?thesis by (induction m) auto
qed

lemma files_wf_keep:
  "files_wf m \<Longrightarrow> files_wf (map (\<lambda>(d, ts). (d, map (\<lambda>(t, fs). (t, filter P fs)) ts)) m)"
proof -
  have "fst \<circ> (\<lambda>(t :: nat, fs). (t, filter P fs)) = fst"
    "fst \<circ> (\<lambda>(d :: nat, ts). (d, map (\<lambda>(t :: nat, fs). (t, filter P fs)) ts)) = fst"
    by (simp_all add: fun_eq_iff)
  then show "files_wf m \<Longrightarrow> ?thesis" by (auto simp: files_wf_def keys_distinct_def list_all_iff)
qed

lemma removal_exact:
  assumes wf: "files_wf (lg_files lg)" and keys: "keys_distinct (lg_deleted_data lg)"
    and paths: "distinct (map loc_path (each_file (lg_files lg)))" and fit: "totals_fit (each_file (lg_files lg))"
    and ex: "ledger_exact lg" and res: "remove_files_for_deletion rps lg = (removed, lg')"
  shows "set (each_file removed) = {x \<in> set (each_file (lg_files lg)). doomed rps lg x}"
    and "distinct (each_file removed)"
    and "each_file (lg_files lg') = filter (\<lambda>x. \<not> doomed rps lg x) (each_file (lg_files lg))"
    and "files_wf (lg_files lg')" and "ledger_exact lg'"
proof -
  let ?U = "each_file (lg_files lg)" and ?q = "queue_removals rps lg"
  have q0: "queue_ok \<lparr> rq_removed = [], rq_paths = [], rq_size = 0, rq_rows = 0 \<rparr> []"
    by (simp add: queue_ok_def bytes_sum_def rows_sum_def)
  have "set [] \<union> set (removal_reqs rps lg) \<subseteq> set ?U" by (auto simp: removal_reqs_doomed [OF wf keys])
  from queue_locs [OF q0 this paths fit] obtain Q where Q: "queue_ok ?q Q" "set Q = {x \<in> set ?U. doomed rps lg x}"
    by (auto simp: queue_removals_reqs removal_reqs_doomed [OF wf keys])
  have removed: "removed = rq_removed ?q" "lg' = apply_removals ?q lg"
    using res by (simp_all add: remove_files_for_deletion_def Let_def)
  have ms: "mset (each_file removed) = mset Q" using Q(1) by (simp add: removed queue_ok_def)
  show "set (each_file removed) = {x \<in> set ?U. doomed rps lg x}" using mset_eq_setD [OF ms] Q(2) by simp
  show "distinct (each_file removed)" using mset_eq_imp_distinct_iff [OF ms] Q(1) by (simp add: queue_ok_def)
  have inj: "inj_on loc_path (set ?U)" using paths by (simp add: distinct_map)
  have keep: "pf_path f \<in> set (rq_paths ?q) \<longleftrightarrow> doomed rps lg (d, t, f)" if "(d, t, f) \<in> set ?U" for d t f
  proof -
    have "pf_path f \<in> set (rq_paths ?q) \<longleftrightarrow> (\<exists>y \<in> set Q. loc_path y = loc_path (d, t, f))"
    proof -
      have ps: "set (rq_paths ?q) = loc_path ` set Q" using Q(1) by (simp add: queue_ok_def)
      show ?thesis unfolding ps image_iff loc_simps by (rule bex_cong [OF refl]) (rule eq_commute)
    qed
    also have "\<dots> \<longleftrightarrow> (d, t, f) \<in> set Q"
    proof
      assume "\<exists>y \<in> set Q. loc_path y = loc_path (d, t, f)"
      then obtain y where y: "y \<in> set Q" "loc_path y = loc_path (d, t, f)" ..
      then have "y = (d, t, f)" using inj_onD [OF inj y(2)] that Q(2) by simp
      with y(1) show "(d, t, f) \<in> set Q" by simp
    qed blast
    finally show ?thesis using that Q(2) by simp
  qed
  have part: "mset ?U = mset (filter (\<lambda>x. \<not> doomed rps lg x) ?U) + mset Q"
  proof -
    have "distinct ?U" using paths by (simp add: distinct_map)
    then have "distinct (filter (doomed rps lg) ?U)" by simp
    moreover have "distinct Q" "set Q = set (filter (doomed rps lg) ?U)" using Q by (simp_all add: queue_ok_def)
    ultimately have "mset Q = mset (filter (doomed rps lg) ?U)" using set_eq_iff_mset_eq_distinct by blast
    then show ?thesis using multiset_partition [of "mset ?U" "doomed rps lg"] by (simp add: add.commute)
  qed
  have files: "each_file (map (\<lambda>(d, ts). (d, map (\<lambda>(t, fs). (t, filter (\<lambda>f. pf_path f \<notin> set (rq_paths ?q)) fs)) ts))
      (lg_files lg)) = filter (\<lambda>x. \<not> doomed rps lg x) ?U"
    unfolding each_file_keep
  proof (rule filter_cong)
    fix x
    assume "x \<in> set ?U"
    then show "(case x of (_, _, f) \<Rightarrow> pf_path f \<notin> set (rq_paths ?q)) = (\<not> doomed rps lg x)"
      using keep [of "fst x" "fst (snd x)" "snd (snd x)"] by (simp add: case_prod_beta)
  qed simp
  show files': "each_file (lg_files lg') = filter (\<lambda>x. \<not> doomed rps lg x) ?U"
  proof (cases "rq_removed ?q = []")
    case True
    then have "Q = []" using ms by (simp add: removed)
    then have "{x \<in> set ?U. doomed rps lg x} = {}" using Q(2) by simp
    then have "\<not> doomed rps lg x" if "x \<in> set ?U" for x using that by blast
    then have "filter (\<lambda>x. \<not> doomed rps lg x) ?U = ?U" by (simp add: filter_id_conv)
    moreover have "lg' = lg" using True by (simp add: removed apply_removals_def)
    ultimately show ?thesis by simp
  next
    case False
    then have "lg_files lg' = map (\<lambda>(d, ts). (d, map (\<lambda>(t, fs).
        (t, filter (\<lambda>f. pf_path f \<notin> set (rq_paths ?q)) fs)) ts)) (lg_files lg)"
      by (simp add: removed apply_removals_def)
    then show ?thesis using files by (simp only:)
  qed
  show "files_wf (lg_files lg')"
    unfolding removed apply_removals_def using wf files_wf_keep [OF wf] by (cases "rq_removed ?q = []") simp_all
  have "mset ?U = mset (each_file (lg_files lg') @ Q)" unfolding mset_append files' by (rule part)
  note sums = sums_cong [OF this] mset_eq_length [OF this]
  have lens: "length (rq_paths ?q) = length Q" "rq_size ?q = bytes_sum Q" "rq_rows ?q = rows_sum Q"
    using Q(1) by (simp_all add: queue_ok_def)
  show "ledger_exact lg'"
  proof (cases "rq_removed ?q = []")
    case True
    then show ?thesis using ex by (simp add: removed apply_removals_def)
  next
    case False
    then have "lg_count lg' = lg_count lg - length Q" "lg_size_bytes lg' = lg_size_bytes lg - int (bytes_sum Q)"
      "lg_row_count lg' = lg_row_count lg - rows_sum Q"
      by (simp_all add: removed apply_removals_def lens)
    then show ?thesis using ex sums by (simp add: ledger_exact_def)
  qed
qed

section \<open>Properties\<close>

lemma ops_live:
  assumes "ops_ok ops"
  shows "files_wf (lg_files (ledger_run ops))"
    "mset (each_file (lg_files (ledger_run ops))) = mset (live_of (ops_adds ops) (ops_rems ops))"
    "ledger_exact (ledger_run ops)"
  using run_inv_run [OF assms] by (simp_all add: run_inv_def ledger_inv_def)

lemma mset_live_of: "mset (live_of A R) = filter_mset (\<lambda>x. x \<notin> set R) (mset A)"
  by (simp add: live_of_def)

definition is_manifest :: "ledger_op \<Rightarrow> bool" where
  "is_manifest op = (case op of FoldManifest _ _ \<Rightarrow> True | CollectTombstones _ _ \<Rightarrow> False)"

lemma ops_manifests:
  "ops_adds ops = ops_adds (filter is_manifest ops)" "ops_rems ops = ops_rems (filter is_manifest ops)"
proof -
  have "ops_adds ops = ops_adds (filter is_manifest ops) \<and> ops_rems ops = ops_rems (filter is_manifest ops)"
  proof (induction ops)
    case (Cons op ops)
    then show ?case by (cases op) (simp_all add: is_manifest_def)
  qed simp
  then show "ops_adds ops = ops_adds (filter is_manifest ops)" "ops_rems ops = ops_rems (filter is_manifest ops)"
    by simp_all
qed

lemma live_of_permuted:
  assumes "mset ms = mset ms'"
  shows "mset (live_of (ops_adds ms) (ops_rems ms)) = mset (live_of (ops_adds ms') (ops_rems ms'))"
proof -
  have "mset (ops_adds ms) = mset (ops_adds ms')"
    using assms unfolding ops_adds_def mset_concat by (metis mset_map sum_mset_sum_list)
  moreover have "set (ops_rems ms) = set (ops_rems ms')"
    using mset_eq_setD [OF assms] by (simp add: ops_rems_def)
  ultimately show ?thesis by (simp add: mset_live_of)
qed


definition demo_gen1 :: parquet_file where "demo_gen1 = demo_file 1 ''w/dbs/d/t/x/0000000005.parquet'' 0"
definition demo_gen2 :: parquet_file where "demo_gen2 = demo_file 2 ''c/dbs/d/t/gen2/u.parquet'' 0"
definition demo_ops :: "ledger_op list" where
  "demo_ops =
     [FoldManifest (demo_snapshot 1 [(0, [(0, [demo_gen2])])] [(0, [(0, [demo_gen1])])]) (Some ''01A''),
      CollectTombstones [(''w'', 4)] (Some ''01A''),
      FoldManifest (demo_snapshot 2 [(0, [(0, [demo_gen1])])] []) None]"

lemmas demo_ops_simps =
  demo_ops_def demo_gen1_def demo_gen2_def ops_ok_def names_paths_def removals_keyed_def tombstone_key_def
  parse_gen1_path_def strip_suffix_def all_digits_def is_digit_def parse_uint_def parse_digits_def digits_val_def
  digit_val_def keeps_tombstone_def is_manifest_def suffix_to_prefix



definition demo_extra :: "persisted_snapshot list" where
  "demo_extra = [demo_snapshot 4 [(1, [(7, [demo_file 5 ''e'' 180])])] [(0, [(0, [demo_file 2 ''b'' 60])])]]"



definition demo_ledger :: ledger where
  "demo_ledger =
     \<lparr> lg_files = [(0, [(0, [demo_file 1 ''a'' 0, demo_file 2 ''b'' 60]), (1, [demo_file 3 ''c'' 60])]),
                    (1, [(7, [demo_file 4 ''d'' 0])])],
       lg_count = 4, lg_size_bytes = 410, lg_row_count = 40, lg_deleted_data = [(1, AllTables)],
       lg_tombstones = [], lg_eviction_tombstones = [] \<rparr>"

lemmas demo_ledger_simps =
  demo_ledger_def demo_file_def files_wf_def keys_distinct_def totals_fit_def ledger_exact_def bytes_sum_def
  rows_sum_def u64_max_def doomed_def is_deleted_def


text \<open>
  C31. A deletion can be forgotten. \<open>remove_files_for_deletion\<close> reads the marks under the read lock
  and clears all of them under the write lock. A table that is marked in between, while at least one
  file is due for removal, loses its mark: its files stay in the ledger and no later call removes
  them.
\<close>

theorem deletion_mark_lost:
  assumes "rq_removed (queue_removals rps lg) \<noteq> []" "\<not> is_deleted (lg_deleted_data lg) d t"
    "f \<in> set (files_at (lg_files lg) d t)" "pf_path f \<notin> set (rq_paths (queue_removals rps lg))"
  shows "let lg1 = snd (delete_table purge d t lg); lg2 = apply_removals (queue_removals rps lg) lg1
         in is_deleted (lg_deleted_data lg1) d t \<and> \<not> is_deleted (lg_deleted_data lg2) d t \<and>
            f \<in> set (files_at (lg_files lg2) d t)"
proof -
  let ?P = "\<lambda>f. pf_path f \<notin> set (rq_paths (queue_removals rps lg))"
  have keep: "files_at (map (\<lambda>(d, ts). (d, map (\<lambda>(t, fs). (t, filter P fs)) ts)) m) d t = filter P (files_at m d t)"
    for P m
  proof -
    have "map_of (map (\<lambda>(t, fs). (t, filter P fs)) ts) t = map_option (filter P) (map_of ts t)" for ts
      by (induction ts) auto
    moreover have "map_of (map (\<lambda>(d, ts). (d, map (\<lambda>(t, fs). (t, filter P fs)) ts)) m) d =
        map_option (map (\<lambda>(t, fs). (t, filter P fs))) (map_of m d)"
      by (induction m) auto
    ultimately show ?thesis by (simp add: files_at_def the_or_def split: option.splits)
  qed
  have "is_deleted (lg_deleted_data (snd (delete_table purge d t lg))) d t"
    by (auto simp: delete_table_def is_deleted_def update_conv' split: option.splits deleted_tables.splits)
  moreover have "lg_files (snd (delete_table purge d t lg)) = lg_files lg" by (simp add: delete_table_def)
  ultimately show ?thesis
    using assms by (simp add: Let_def apply_removals_def keep is_deleted_def)
qed

theorem deletion_mark_lost_witness:
  "let q = queue_removals [] demo_ledger; lg1 = snd (delete_table (None :: (unit + unit) option) 0 1 demo_ledger)
   in \<not> is_deleted (lg_deleted_data (apply_removals q lg1)) 0 1 \<and>
      demo_file 3 ''c'' 60 \<in> set (files_at (lg_files (apply_removals q lg1)) 0 1)"
proof -
  have q: "queue_removals [] demo_ledger =
      \<lparr> rq_removed = [(1, [(7, [demo_file 4 ''d'' 0])])], rq_paths = [''d''], rq_size = 104, rq_rows = 10 \<rparr>"
    by (simp add: queue_removals_def queue_deleted_def queue_for_removal_def demo_ledger_def demo_file_def
        push_file_def u64_add_def)
  have "rq_removed (queue_removals [] demo_ledger) \<noteq> []" "\<not> is_deleted (lg_deleted_data demo_ledger) 0 1"
    "demo_file 3 ''c'' 60 \<in> set (files_at (lg_files demo_ledger) 0 1)"
    "pf_path (demo_file 3 ''c'' 60) \<notin> set (rq_paths (queue_removals [] demo_ledger))"
    by (simp_all add: q) (simp_all add: demo_ledger_def is_deleted_def files_at_def demo_file_def)
  from deletion_mark_lost [OF this, of "None :: (unit + unit) option"] show ?thesis by (simp add: Let_def)
qed

text \<open>
  C32. Pruning is safe. The files returned for a time filter come newest first, are the stored files
  whose range meets the bounds, and miss no file that can hold a row inside the bounds; without
  bounds all files of the table are returned.
\<close>

theorem get_files_filtered_sound:
  "sorted_wrt (\<lambda>f g. pf_min_time g \<le> pf_min_time f) (get_files_filtered d t flt lg) \<and>
   mset (get_files_filtered d t flt lg) =
     filter_mset (\<lambda>f. test_time_stamp_min_max flt (pf_min_time f) (pf_max_time f)) (mset (files_at (lg_files lg) d t)) \<and>
   (f \<in> set (files_at (lg_files lg) d t) \<and> pf_min_time f \<le> ts \<and> ts \<le> pf_max_time f \<and>
       (case time_lower_bound_ns flt of None \<Rightarrow> True | Some l \<Rightarrow> l \<le> ts) \<and>
       (case time_upper_bound_ns flt of None \<Rightarrow> True | Some u \<Rightarrow> ts \<le> u) \<longrightarrow>
       f \<in> set (get_files_filtered d t flt lg)) \<and>
   mset (get_files d t lg) = mset (files_at (lg_files lg) d t)"
proof -
  have "sorted (map (\<lambda>f. - pf_min_time f) (get_files_filtered d t flt lg))"
    unfolding get_files_filtered_def by (rule sorted_sort_key)
  then have "sorted_wrt (\<lambda>f g. pf_min_time g \<le> pf_min_time f) (get_files_filtered d t flt lg)"
    by (simp add: sorted_map)
  moreover have "test_time_stamp_min_max flt (pf_min_time f) (pf_max_time f)"
    if "pf_min_time f \<le> ts" "ts \<le> pf_max_time f"
      "case time_lower_bound_ns flt of None \<Rightarrow> True | Some l \<Rightarrow> l \<le> ts"
      "case time_upper_bound_ns flt of None \<Rightarrow> True | Some u \<Rightarrow> ts \<le> u" for f :: parquet_file and ts
    using that by (auto simp: test_time_stamp_min_max_def split: option.splits)
  moreover have "mset (get_files d t lg) = mset (files_at (lg_files lg) d t)"
    by (simp add: get_files_def get_files_filtered_def chunk_filter_default_def test_time_stamp_min_max_def)
  ultimately show ?thesis by (auto simp: get_files_filtered_def)
qed

theorem get_files_filtered_sound_witness:
  "demo_file 2 ''b'' 60 \<in> set (get_files_filtered 0 0 \<lparr> time_lower_bound_ns = Some 61, time_upper_bound_ns = None \<rparr> demo_ledger) \<and>
   mset (get_files 0 0 demo_ledger) = mset (files_at (lg_files demo_ledger) 0 0)"
proof -
  have "demo_file 2 ''b'' 60 \<in> set (files_at (lg_files demo_ledger) 0 0) \<and>
      pf_min_time (demo_file 2 ''b'' 60) \<le> 62 \<and> 62 \<le> pf_max_time (demo_file 2 ''b'' 60)"
    by (simp add: demo_ledger_def demo_file_def files_at_def)
  with get_files_filtered_sound
    [of 0 0 "\<lparr> time_lower_bound_ns = Some 61, time_upper_bound_ns = None \<rparr>" demo_ledger "demo_file 2 ''b'' 60" 62]
  show ?thesis by simp
qed

text \<open>
  The count of files drifts. Adding a file the ledger already has changes no table and no other
  total, but the number of files it reports grows by one each time.
\<close>

theorem add_persisted_file_counts_duplicates:
  assumes "f \<in> set (files_at (lg_files lg) d t)" "lg_count lg < u64_max"
  shows "let lg' = add_persisted_file d t f lg
         in lg_files lg' = lg_files lg \<and> lg_row_count lg' = lg_row_count lg \<and> lg_size_bytes lg' = lg_size_bytes lg \<and>
            lg_count lg' = lg_count lg + 1"
proof -
  have nop: "map_of m k = Some v \<Longrightarrow> g v = v \<Longrightarrow> entry_upd k e g m = m" for k :: nat and v e g m
    by (induction m) (auto split: if_splits)
  obtain ts where ts: "map_of (lg_files lg) d = Some ts"
    using assms(1) by (cases "map_of (lg_files lg) d") (auto simp: files_at_def)
  obtain fs where fs: "map_of ts t = Some fs"
    using assms(1) ts by (cases "map_of ts t") (auto simp: files_at_def)
  have "entry_upd d [] (entry_upd t [] (\<lambda>fs. fs)) (lg_files lg) = lg_files lg"
    by (rule nop [OF ts]) (rule nop [OF fs], rule refl)
  then show ?thesis using assms by (simp add: add_persisted_file_def Let_def u64_add_exact)
qed

theorem add_persisted_file_counts_duplicates_witness:
  "lg_count (add_persisted_file 0 1 (demo_file 3 ''c'' 60) demo_ledger) = 5 \<and>
   lg_files (add_persisted_file 0 1 (demo_file 3 ''c'' 60) demo_ledger) = lg_files demo_ledger"
proof -
  have "demo_file 3 ''c'' 60 \<in> set (files_at (lg_files demo_ledger) 0 1)" "lg_count demo_ledger < u64_max"
    by (simp_all add: demo_ledger_def files_at_def demo_file_def u64_max_def)
  from add_persisted_file_counts_duplicates [OF this] show ?thesis by (simp add: Let_def demo_ledger_def)
qed

end
