(* ===== verification/Table_Buffer.thy ===== *)
theory Table_Buffer
  imports Wal_Types Persisted_Files
begin

text \<open>
  The in-memory buffer of a table (influxdb3_write/src/write_buffer/table_buffer.rs): rows are
  stored by column, in chunks keyed by chunk time, until a snapshot takes the chunks older than its
  marker. An Arrow array builder is the list of values and nulls appended to it; a record batch is
  the list of its named columns. A string is its bytes.
\<close>

section \<open>Columns\<close>

datatype influx_field_type = IBoolean | IInteger | IUInteger | IFloat | IString

datatype influx_column_type = CTag | CTimestamp | CField influx_field_type

datatype builder =
    BBool "bool option list"
  | BI64 "int option list"
  | BF64 "nat option list"
  | BU64 "nat option list"
  | BString "string option list"
  | BTag "string option list"
  | BTime "int option list"

fun append_null :: "builder \<Rightarrow> builder" where
  "append_null (BBool b) = BBool (b @ [None])"
| "append_null (BI64 b) = BI64 (b @ [None])"
| "append_null (BF64 b) = BF64 (b @ [None])"
| "append_null (BU64 b) = BU64 (b @ [None])"
| "append_null (BString b) = BString (b @ [None])"
| "append_null (BTag b) = BTag (b @ [None])"
| "append_null (BTime b) = BTime (b @ [None])"

fun into_influxcol :: "builder \<Rightarrow> influx_column_type" where
  "into_influxcol (BBool b) = CField IBoolean"
| "into_influxcol (BI64 b) = CField IInteger"
| "into_influxcol (BF64 b) = CField IFloat"
| "into_influxcol (BU64 b) = CField IUInteger"
| "into_influxcol (BString b) = CField IString"
| "into_influxcol (BTag b) = CTag"
| "into_influxcol (BTime b) = CTimestamp"

fun array_ref_nulls_for_type :: "influx_column_type \<Rightarrow> nat \<Rightarrow> builder" where
  "array_ref_nulls_for_type (CField IBoolean) len = BBool (replicate len None)"
| "array_ref_nulls_for_type CTimestamp len = BTime (replicate len None)"
| "array_ref_nulls_for_type CTag len = BTag (replicate len None)"
| "array_ref_nulls_for_type (CField IInteger) len = BI64 (replicate len None)"
| "array_ref_nulls_for_type (CField IFloat) len = BF64 (replicate len None)"
| "array_ref_nulls_for_type (CField IString) len = BString (replicate len None)"
| "array_ref_nulls_for_type (CField IUInteger) len = BU64 (replicate len None)"

text \<open>The builder a value of a new column starts: nulls for all the rows before it.\<close>

fun new_builder :: "field_data \<Rightarrow> nat \<Rightarrow> builder panicking" where
  "new_builder (FTimestamp _) n = Inr (BTime (replicate n None))"
| "new_builder (FTag _) n = Inr (BTag (replicate n None))"
| "new_builder (FString _) n = Inr (BString (replicate n None))"
| "new_builder (FInteger _) n = Inr (BI64 (replicate n None))"
| "new_builder (FUInteger _) n = Inr (BU64 (replicate n None))"
| "new_builder (FFloat _) n = Inr (BF64 (replicate n None))"
| "new_builder (FBoolean _) n = Inr (BBool (replicate n None))"
| "new_builder (FKey _) n = Inl (Panic ''key type should never be constructed'')"

definition unexpected_field_type :: "builder panicking" where
  "unexpected_field_type = Inl (Panic ''unexpected field type'')"

definition append_value :: "field_data \<Rightarrow> builder \<Rightarrow> builder panicking" where
  "append_value val b =
     (case val of
        FTimestamp v \<Rightarrow> (case b of BTime xs \<Rightarrow> Inr (BTime (xs @ [Some v])) | _ \<Rightarrow> unexpected_field_type)
      | FTag v \<Rightarrow> (case b of BTag xs \<Rightarrow> Inr (BTag (xs @ [Some v])) | _ \<Rightarrow> unexpected_field_type)
      | FString v \<Rightarrow> (case b of BString xs \<Rightarrow> Inr (BString (xs @ [Some v])) | _ \<Rightarrow> unexpected_field_type)
      | FInteger v \<Rightarrow> (case b of BI64 xs \<Rightarrow> Inr (BI64 (xs @ [Some v])) | _ \<Rightarrow> unexpected_field_type)
      | FUInteger v \<Rightarrow> (case b of BU64 xs \<Rightarrow> Inr (BU64 (xs @ [Some v])) | _ \<Rightarrow> unexpected_field_type)
      | FFloat v \<Rightarrow> (case b of BF64 xs \<Rightarrow> Inr (BF64 (xs @ [Some v])) | _ \<Rightarrow> unexpected_field_type)
      | FBoolean v \<Rightarrow> (case b of BBool xs \<Rightarrow> Inr (BBool (xs @ [Some v])) | _ \<Rightarrow> unexpected_field_type)
      | FKey _ \<Rightarrow> Inl (Panic ''key type should never be constructed''))"

section \<open>Chunks\<close>

record mutable_table_chunk =
  mc_timestamp_min :: int
  mc_timestamp_max :: int
  mc_data :: "(nat \<times> builder) list"
  mc_row_count :: nat
  mc_string_bytes_per_column :: "(nat \<times> nat) list"

definition mutable_table_chunk_new :: mutable_table_chunk where
  "mutable_table_chunk_new =
     \<lparr> mc_timestamp_min = i64_max, mc_timestamp_max = i64_min, mc_data = [], mc_row_count = 0,
       mc_string_bytes_per_column = [] \<rparr>"

definition ARROW_VAR_COL_MAX_BYTES :: nat where "ARROW_VAR_COL_MAX_BYTES = 2 ^ 31 - 1"

definition string_bytes :: "field_data \<Rightarrow> nat option" where
  "string_bytes v = (case v of FString s \<Rightarrow> Some (length s) | FTag s \<Rightarrow> Some (length s) | _ \<Rightarrow> None)"

definition count_bytes :: "(nat \<times> nat) list \<Rightarrow> field \<Rightarrow> (nat \<times> nat) list" where
  "count_bytes m f =
     (case string_bytes (field_val f) of None \<Rightarrow> m | Some n \<Rightarrow> entry_upd (field_id f) 0 (\<lambda>k. k + n) m)"

definition incoming_per_column :: "row list \<Rightarrow> (nat \<times> nat) list" where
  "incoming_per_column rows = foldl (\<lambda>m r. foldl count_bytes m (row_fields r)) [] rows"

definition would_exceed_limit_with :: "mutable_table_chunk \<Rightarrow> (nat \<times> nat) list \<Rightarrow> bool" where
  "would_exceed_limit_with mc incoming =
     list_ex (\<lambda>(col_id, additional).
        the_or 0 (map_of (mc_string_bytes_per_column mc) col_id) + additional > ARROW_VAR_COL_MAX_BYTES) incoming"

text \<open>One field of the row at index \<open>n\<close> of the chunk.\<close>

definition add_field :: "nat \<Rightarrow> field \<Rightarrow> mutable_table_chunk \<Rightarrow> mutable_table_chunk panicking" where
  "add_field n f mc =
     (let mc1 = (case field_val f of
                   FTimestamp v \<Rightarrow> mc\<lparr> mc_timestamp_min := min (mc_timestamp_min mc) v,
                                       mc_timestamp_max := max (mc_timestamp_max mc) v \<rparr>
                 | _ \<Rightarrow> mc\<lparr> mc_string_bytes_per_column := count_bytes (mc_string_bytes_per_column mc) f \<rparr>)
      in bind_res (case map_of (mc_data mc) (field_id f) of
                     Some b \<Rightarrow> Inr b | None \<Rightarrow> new_builder (field_val f) n) (\<lambda>b.
         bind_res (append_value (field_val f) b) (\<lambda>b'.
           Inr (mc1\<lparr> mc_data := btree_upd (field_id f) b' (\<lambda>_. b') (mc_data mc) \<rparr>))))"

definition add_row :: "nat \<Rightarrow> row \<Rightarrow> mutable_table_chunk \<Rightarrow> mutable_table_chunk panicking" where
  "add_row n r mc =
     bind_res (fold_res (add_field n) (row_fields r) mc) (\<lambda>mc'.
       Inr (mc'\<lparr> mc_data := map (\<lambda>(col, b). (col, if col \<in> field_id ` set (row_fields r) then b else append_null b))
                              (mc_data mc') \<rparr>))"

definition add_rows :: "row list \<Rightarrow> mutable_table_chunk \<Rightarrow> mutable_table_chunk panicking" where
  "add_rows rows mc =
     bind_res (fold_res (\<lambda>(row_index, r). add_row (row_index + mc_row_count mc) r) (enumerate 0 rows) mc) (\<lambda>mc'.
       Inr (mc'\<lparr> mc_row_count := mc_row_count mc' + length rows \<rparr>))"

text \<open>\<open>TimestampMinMax::new\<close> panics on an empty range.\<close>

definition timestamp_min_max_new :: "int \<Rightarrow> int \<Rightarrow> (int \<times> int) panicking" where
  "timestamp_min_max_new mn mx = (if mn \<le> mx then Inr (mn, mx) else Inl (Panic ''expected min <= max''))"

definition timestamp_union :: "int \<times> int \<Rightarrow> int \<times> int \<Rightarrow> int \<times> int" where
  "timestamp_union a b = (min (fst a) (fst b), max (snd a) (snd b))"

definition chunk_timestamp_min_max :: "mutable_table_chunk \<Rightarrow> (int \<times> int) panicking" where
  "chunk_timestamp_min_max mc = timestamp_min_max_new (mc_timestamp_min mc) (mc_timestamp_max mc)"

section \<open>Record batches\<close>

text \<open>
  What the buffer reads of a \<open>TableDefinition\<close>: the field names in the order of its schema, and the
  identifier, name and type of its columns. The conditions of \<open>RecordBatch::try_new\<close> are that the
  columns have the types of the schema and one length.
\<close>

record table_def =
  td_schema :: "(string \<times> influx_column_type) list"
  td_columns :: "(nat \<times> string \<times> influx_column_type) list"
  td_series_key :: "string list"

type_synonym record_batch = "(string \<times> builder) list"

datatype table_buffer_error = FieldNotFound string | RecordBatchError

fun builder_cells :: "builder \<Rightarrow> field_data option list" where
  "builder_cells (BBool b) = map (map_option FBoolean) b"
| "builder_cells (BI64 b) = map (map_option FInteger) b"
| "builder_cells (BF64 b) = map (map_option FFloat) b"
| "builder_cells (BU64 b) = map (map_option FUInteger) b"
| "builder_cells (BString b) = map (map_option FString) b"
| "builder_cells (BTag b) = map (map_option FTag) b"
| "builder_cells (BTime b) = map (map_option FTimestamp) b"

definition column_definition :: "table_def \<Rightarrow> string \<Rightarrow> (nat \<times> influx_column_type) option" where
  "column_definition td name =
     map_option (\<lambda>(i, _, ty). (i, ty)) (List.find (\<lambda>(_, nm, _). nm = name) (td_columns td))"

definition column_id_to_name :: "table_def \<Rightarrow> nat \<Rightarrow> string option" where
  "column_id_to_name td i = map_option fst (map_of (td_columns td) i)"

definition column_fits :: "nat \<Rightarrow> string \<times> influx_column_type \<Rightarrow> builder \<Rightarrow> bool" where
  "column_fits n fld b \<longleftrightarrow>
     into_influxcol b = snd fld \<and> length (builder_cells b) = n \<and> (snd fld = CTimestamp \<longrightarrow> None \<notin> set (builder_cells b))"

definition record_batch_try_new ::
    "(string \<times> influx_column_type) list \<Rightarrow> builder list \<Rightarrow> table_buffer_error + record_batch" where
  "record_batch_try_new schema cols =
     (if list_all2 (column_fits (length (builder_cells (hd cols)))) schema cols
      then Inr (zip (map fst schema) cols) else Inl RecordBatchError)"

text \<open>
  \<open>SchemaBuilder::build\<close> (core/schema) refuses a series key with a column that is missing, a tag
  outside the series key and a repeated name.
\<close>

definition schema_builds :: "string list option \<Rightarrow> (string \<times> influx_column_type) list \<Rightarrow> bool" where
  "schema_builds series_key flds \<longleftrightarrow>
     (case series_key of None \<Rightarrow> True
      | Some sk \<Rightarrow> list_all (\<lambda>k. k \<in> fst ` set flds) sk \<and>
                   list_all (\<lambda>(nm, ty). ty = CTag \<longrightarrow> nm \<in> set sk) flds) \<and>
     distinct (map fst flds)"

fun res_map :: "('a \<Rightarrow> 'e + 'b) \<Rightarrow> 'a list \<Rightarrow> 'e + 'b list" where
  "res_map f [] = Inr []"
| "res_map f (x # xs) = bind_res (f x) (\<lambda>y. bind_res (res_map f xs) (\<lambda>ys. Inr (y # ys)))"

definition batch_column :: "table_def \<Rightarrow> mutable_table_chunk \<Rightarrow> string \<times> influx_column_type \<Rightarrow> builder panicking" where
  "batch_column td mc fld =
     (case column_definition td (fst fld) of
        None \<Rightarrow> Inl (Panic ''a valid column name'')
      | Some (i, ty) \<Rightarrow>
          Inr (case map_of (mc_data mc) i of Some b \<Rightarrow> b | None \<Rightarrow> array_ref_nulls_for_type ty (mc_row_count mc)))"

definition chunk_record_batch ::
    "table_def \<Rightarrow> mutable_table_chunk \<Rightarrow> (table_buffer_error + record_batch) panicking" where
  "chunk_record_batch td mc =
     bind_res (res_map (batch_column td mc) (td_schema td)) (\<lambda>cols. Inr (record_batch_try_new (td_schema td) cols))"

definition into_schema_record_batch ::
    "table_def \<Rightarrow> mutable_table_chunk \<Rightarrow> ((string \<times> influx_column_type) list \<times> record_batch) panicking" where
  "into_schema_record_batch td mc =
     bind_res (res_map (\<lambda>(col_id, b). case column_id_to_name td col_id of
                  None \<Rightarrow> Inl (Panic ''valid column id'')
                | Some nm \<Rightarrow> Inr ((nm, into_influxcol b), b)) (mc_data mc)) (\<lambda>present.
       let absent = map (\<lambda>(_, nm, ty). ((nm, ty), array_ref_nulls_for_type ty (mc_row_count mc)))
                      (filter (\<lambda>(col_id, _). col_id \<notin> fst ` set (mc_data mc)) (td_columns td));
           schema = map fst (present @ absent)
       in if \<not> schema_builds (if mc_data mc = [] then None else Some (td_series_key td)) schema
          then Inl (Panic ''should always be able to build schema'')
          else case record_batch_try_new schema (map snd (present @ absent)) of
                 Inl _ \<Rightarrow> Inl (Panic ''should always be able to build record batch'')
               | Inr rb \<Rightarrow> Inr (schema, rb))"

section \<open>The buffer\<close>

record snapshot_chunk =
  sc_chunk_time :: int
  sc_timestamp_min_max :: "int \<times> int"
  sc_record_batch :: record_batch
  sc_schema :: "(string \<times> influx_column_type) list"

record table_buffer =
  tb_chunks :: "(int \<times> mutable_table_chunk list) list"
  tb_snapshotting :: "snapshot_chunk list"

definition table_buffer_new :: table_buffer where
  "table_buffer_new = \<lparr> tb_chunks = [], tb_snapshotting = [] \<rparr>"

definition buffer_chunk :: "int \<Rightarrow> row list \<Rightarrow> table_buffer \<Rightarrow> table_buffer panicking" where
  "buffer_chunk chunk_time rows tb =
     (let chunks = the_or [] (map_of (tb_chunks tb) chunk_time);
          needs_new_chunk = chunks = [] \<or> would_exceed_limit_with (last chunks) (incoming_per_column rows);
          chunks' = (if needs_new_chunk then chunks @ [mutable_table_chunk_new] else chunks)
      in bind_res (add_rows rows (last chunks')) (\<lambda>c.
           Inr (tb\<lparr> tb_chunks := btree_upd chunk_time [] (\<lambda>_. butlast chunks' @ [c]) (tb_chunks tb) \<rparr>)))"

type_synonym batches = "(int \<times> (int \<times> int) \<times> record_batch list) list"

definition add_batch :: "int \<Rightarrow> int \<times> int \<Rightarrow> record_batch \<Rightarrow> batches \<Rightarrow> batches" where
  "add_batch chunk_time ts rb m =
     entry_upd chunk_time (ts, []) (\<lambda>(ts', v). (timestamp_union ts' ts, v @ [rb])) m"

definition find_column :: "record_batch \<Rightarrow> string \<times> influx_column_type \<Rightarrow> table_buffer_error + builder" where
  "find_column rb fld =
     (case map_of rb (fst fld) of None \<Rightarrow> Inl (FieldNotFound (fst fld)) | Some b \<Rightarrow> Inr b)"

definition snapshot_batch :: "table_def \<Rightarrow> snapshot_chunk \<Rightarrow> table_buffer_error + record_batch" where
  "snapshot_batch td sc =
     bind_res (res_map (find_column (sc_record_batch sc)) (td_schema td)) (record_batch_try_new (td_schema td))"

text \<open>The two loops of the query: chunks being persisted, then the chunks still written to.\<close>

definition snapshotting_batches ::
    "table_def \<Rightarrow> chunk_filter \<Rightarrow> table_buffer \<Rightarrow> table_buffer_error + batches" where
  "snapshotting_batches td flt tb =
     fold_res (\<lambda>sc m. bind_res (snapshot_batch td sc) (\<lambda>rb.
         Inr (add_batch (sc_chunk_time sc) (sc_timestamp_min_max sc) rb m)))
       (filter (\<lambda>sc. test_time_stamp_min_max flt (fst (sc_timestamp_min_max sc)) (snd (sc_timestamp_min_max sc)))
          (tb_snapshotting tb)) []"

definition mutable_batch ::
    "table_def \<Rightarrow> int \<times> mutable_table_chunk \<Rightarrow> table_buffer_error + batches \<Rightarrow>
     (table_buffer_error + batches) panicking" where
  "mutable_batch td tc acc =
     (case acc of
        Inl e \<Rightarrow> Inr (Inl e)
      | Inr m \<Rightarrow>
          bind_res (chunk_timestamp_min_max (snd tc)) (\<lambda>ts.
            bind_res (chunk_record_batch td (snd tc)) (\<lambda>r.
              Inr (bind_res r (\<lambda>rb. Inr (add_batch (fst tc) ts rb m))))))"

definition each_chunk :: "table_buffer \<Rightarrow> (int \<times> mutable_table_chunk) list" where
  "each_chunk tb = concat (map (\<lambda>(t, cs). map (\<lambda>c. (t, c)) cs) (tb_chunks tb))"

definition partitioned_record_batches ::
    "table_def \<Rightarrow> chunk_filter \<Rightarrow> table_buffer \<Rightarrow> (table_buffer_error + batches) panicking" where
  "partitioned_record_batches td flt tb =
     fold_res (mutable_batch td)
       (filter (\<lambda>tc. test_time_stamp_min_max flt (mc_timestamp_min (snd tc)) (mc_timestamp_max (snd tc))) (each_chunk tb))
       (snapshotting_batches td flt tb)"

text \<open>
  The closure of the source names its accumulator \<open>(a_min, b_min)\<close> and the range of the chunk
  \<open>(a_max, b_max)\<close>, so it takes the minimum of the accumulator's two ends and the maximum of the
  chunk's.
\<close>

definition timestamp_min_max_step :: "int \<times> int \<Rightarrow> int \<times> int \<Rightarrow> int \<times> int" where
  "timestamp_min_max_step acc ch =
     (case (acc, ch) of ((a_min, b_min), (a_max, b_max)) \<Rightarrow> (min a_min b_min, max a_max b_max))"

definition buffer_timestamp_min_max :: "table_buffer \<Rightarrow> (int \<times> int) panicking" where
  "buffer_timestamp_min_max tb =
     (let (mn, mx) = (if tb_chunks tb = [] then (0, 0)
            else foldl timestamp_min_max_step (i64_max, i64_min)
                   (map (\<lambda>(_, c). (mc_timestamp_min c, mc_timestamp_max c)) (each_chunk tb)))
      in bind_res (timestamp_min_max_new mn mx) (\<lambda>ts.
           Inr (foldl (\<lambda>ts sc. timestamp_union ts (sc_timestamp_min_max sc)) ts (tb_snapshotting tb))))"

definition snapshot_one :: "table_def \<Rightarrow> int \<times> mutable_table_chunk \<Rightarrow> snapshot_chunk panicking" where
  "snapshot_one td tc =
     bind_res (chunk_timestamp_min_max (snd tc)) (\<lambda>ts.
       bind_res (into_schema_record_batch td (snd tc)) (\<lambda>(schema, rb).
         Inr \<lparr> sc_chunk_time = fst tc, sc_timestamp_min_max = ts, sc_record_batch = rb, sc_schema = schema \<rparr>))"

definition table_snapshot :: "table_def \<Rightarrow> int \<Rightarrow> table_buffer \<Rightarrow> (snapshot_chunk list \<times> table_buffer) panicking" where
  "table_snapshot td older_than_chunk_time tb =
     bind_res (res_map (snapshot_one td) (filter (\<lambda>tc. fst tc < older_than_chunk_time) (each_chunk tb))) (\<lambda>scs.
       Inr (scs, \<lparr> tb_chunks = filter (\<lambda>tcs. \<not> fst tcs < older_than_chunk_time) (tb_chunks tb),
                   tb_snapshotting = scs \<rparr>))"

definition clear_snapshots :: "table_buffer \<Rightarrow> table_buffer" where
  "clear_snapshots tb = tb\<lparr> tb_snapshotting := [] \<rparr>"

section \<open>What a chunk holds\<close>

fun field_type :: "field_data \<Rightarrow> influx_column_type option" where
  "field_type (FTimestamp _) = Some CTimestamp"
| "field_type (FTag _) = Some CTag"
| "field_type (FString _) = Some (CField IString)"
| "field_type (FInteger _) = Some (CField IInteger)"
| "field_type (FUInteger _) = Some (CField IUInteger)"
| "field_type (FFloat _) = Some (CField IFloat)"
| "field_type (FBoolean _) = Some (CField IBoolean)"
| "field_type (FKey _) = None"

definition fields_value :: "field list \<Rightarrow> nat \<Rightarrow> field_data option" where
  "fields_value fs c = map_of (map (\<lambda>f. (field_id f, field_val f)) fs) c"

definition row_value :: "row \<Rightarrow> nat \<Rightarrow> field_data option" where
  "row_value r c = fields_value (row_fields r) c"

definition td_type :: "table_def \<Rightarrow> nat \<Rightarrow> influx_column_type option" where
  "td_type td c = map_option snd (map_of (td_columns td) c)"

definition times_of :: "field list \<Rightarrow> int list" where
  "times_of fs = List.map_filter (\<lambda>f. case field_val f of FTimestamp v \<Rightarrow> Some v | _ \<Rightarrow> None) fs"

definition col_bytes :: "nat \<Rightarrow> field list \<Rightarrow> nat" where
  "col_bytes c fs = sum_list (map (\<lambda>f. if field_id f = c then the_or 0 (string_bytes (field_val f)) else 0) fs)"

text \<open>A row of the table: one value per column, of the column's type, with its time as the only timestamp.\<close>

definition row_ok :: "table_def \<Rightarrow> row \<Rightarrow> bool" where
  "row_ok td r \<longleftrightarrow>
     distinct (map field_id (row_fields r)) \<and>
     list_all (\<lambda>f. field_type (field_val f) \<noteq> None \<and> field_type (field_val f) = td_type td (field_id f)) (row_fields r) \<and>
     times_of (row_fields r) = [row_time r]"

text \<open>The columns after the rows \<open>rows\<close> and the fields \<open>fs\<close> of the next one.\<close>

definition column_holds ::
    "table_def \<Rightarrow> row list \<Rightarrow> field_data option \<Rightarrow> nat \<Rightarrow> builder option \<Rightarrow> bool" where
  "column_holds td rows v c ob =
     (case ob of
        Some b \<Rightarrow> td_type td c = Some (into_influxcol b) \<and>
          builder_cells b = map (\<lambda>r. row_value r c) rows @ (if v = None then [] else [v])
      | None \<Rightarrow> list_all (\<lambda>r. row_value r c = None) rows \<and> v = None)"

definition columns_hold :: "table_def \<Rightarrow> row list \<Rightarrow> field list \<Rightarrow> mutable_table_chunk \<Rightarrow> bool" where
  "columns_hold td rows fs mc \<longleftrightarrow>
     keys_sorted (mc_data mc) \<and> (\<forall>c. column_holds td rows (fields_value fs c) c (map_of (mc_data mc) c))"

definition totals_hold :: "field list \<Rightarrow> mutable_table_chunk \<Rightarrow> bool" where
  "totals_hold fs mc \<longleftrightarrow>
     mc_timestamp_min mc = fold min (times_of fs) i64_max \<and> mc_timestamp_max mc = fold max (times_of fs) i64_min \<and>
     (\<forall>c. the_or 0 (map_of (mc_string_bytes_per_column mc) c) = col_bytes c fs)"

definition rows_fields :: "row list \<Rightarrow> field list" where
  "rows_fields rows = concat (map row_fields rows)"

definition chunk_holds :: "table_def \<Rightarrow> row list \<Rightarrow> mutable_table_chunk \<Rightarrow> bool" where
  "chunk_holds td rows mc \<longleftrightarrow>
     columns_hold td rows [] mc \<and> totals_hold (rows_fields rows) mc \<and> mc_row_count mc = length rows"

lemma new_builder_cells:
  "field_type v = Some ty \<Longrightarrow> \<exists>b. new_builder v n = Inr b \<and> into_influxcol b = ty \<and> builder_cells b = replicate n None"
  by (cases v) auto

lemma append_value_cells:
  "field_type v = Some (into_influxcol b) \<Longrightarrow>
   \<exists>b'. append_value v b = Inr b' \<and> into_influxcol b' = into_influxcol b \<and> builder_cells b' = builder_cells b @ [Some v]"
  by (cases v; cases b) (simp_all add: append_value_def)

lemma append_null_cells [simp]:
  "into_influxcol (append_null b) = into_influxcol b" "builder_cells (append_null b) = builder_cells b @ [None]"
  by (cases b; simp)+

lemma nulls_for_type [simp]:
  "into_influxcol (array_ref_nulls_for_type ty n) = ty" "builder_cells (array_ref_nulls_for_type ty n) = replicate n None"
  by (induction ty n rule: array_ref_nulls_for_type.induct) simp_all

lemma fields_value_snoc:
  "field_id f \<notin> field_id ` set fs \<Longrightarrow>
   fields_value (fs @ [f]) c = (if c = field_id f then Some (field_val f) else fields_value fs c)"
  by (induction fs) (auto simp: fields_value_def)

lemma fields_value_None: "fields_value fs c = None \<longleftrightarrow> c \<notin> field_id ` set fs"
  by (auto simp: fields_value_def map_of_eq_None_iff image_image)

lemma the_or_count_bytes:
  "the_or 0 (map_of (count_bytes m f) c) =
   the_or 0 (map_of m c) + (if field_id f = c then the_or 0 (string_bytes (field_val f)) else 0)"
  by (auto simp: count_bytes_def map_of_entry_upd split: option.splits)

lemma add_field_totals:
  assumes "add_field n f mc = Inr mc'"
  shows "mc_timestamp_min mc' = fold min (times_of [f]) (mc_timestamp_min mc)"
    "mc_timestamp_max mc' = fold max (times_of [f]) (mc_timestamp_max mc)"
    "mc_string_bytes_per_column mc' = count_bytes (mc_string_bytes_per_column mc) f"
  using assms
  by (cases "field_val f";
      auto simp: add_field_def bind_res_eq_Inr times_of_def List.map_filter_def count_bytes_def string_bytes_def
        min.commute max.commute)+

lemma times_of_append [simp]: "times_of (fs @ gs) = times_of fs @ times_of gs"
  by (simp add: times_of_def List.map_filter_def)

lemma col_bytes_append [simp]: "col_bytes c (fs @ gs) = col_bytes c fs + col_bytes c gs"
  by (simp add: col_bytes_def)

lemma totals_hold_field:
  assumes "totals_hold fs mc" "add_field n f mc = Inr mc'"
  shows "totals_hold (fs @ [f]) mc'"
  using assms(1) add_field_totals [OF assms(2)]
  by (simp add: totals_hold_def the_or_count_bytes col_bytes_def [of _ "[f]"])

lemma nulls_eq: "list_all (\<lambda>r. row_value r c = None) rows \<Longrightarrow> replicate (length rows) None = map (\<lambda>r. row_value r c) rows"
  by (induction rows) auto

lemma columns_hold_field:
  assumes inv: "columns_hold td rows fs mc" and new: "field_id f \<notin> field_id ` set fs"
    and ty: "field_type (field_val f) = Some ty" "td_type td (field_id f) = Some ty"
  shows "\<exists>mc'. add_field (length rows) f mc = Inr mc' \<and> columns_hold td rows (fs @ [f]) mc' \<and>
           mc_row_count mc' = mc_row_count mc"
proof -
  let ?c = "field_id f"
  have "fields_value fs ?c = None" using new by (simp add: fields_value_None)
  moreover have "column_holds td rows (fields_value fs ?c) ?c (map_of (mc_data mc) ?c)"
    using inv by (simp add: columns_hold_def)
  ultimately have "\<exists>b. (case map_of (mc_data mc) ?c of Some b \<Rightarrow> Inr b | None \<Rightarrow> new_builder (field_val f) (length rows)) = Inr b \<and>
      into_influxcol b = ty \<and> builder_cells b = map (\<lambda>r. row_value r ?c) rows"
    using ty(2) new_builder_cells [OF ty(1), of "length rows"]
    by (auto simp: column_holds_def nulls_eq split: option.splits)
  then obtain b where b: "(case map_of (mc_data mc) ?c of Some b \<Rightarrow> Inr b | None \<Rightarrow> new_builder (field_val f) (length rows)) = Inr b"
      "into_influxcol b = ty" "builder_cells b = map (\<lambda>r. row_value r ?c) rows" by blast
  from append_value_cells [of "field_val f" b] ty(1) b(2) obtain b' where b':
    "append_value (field_val f) b = Inr b'" "into_influxcol b' = ty" "builder_cells b' = builder_cells b @ [Some (field_val f)]"
    by auto
  obtain mc' where mc': "add_field (length rows) f mc = Inr mc'" by (auto simp: add_field_def Let_def b(1) b'(1))
  then have data: "mc_data mc' = btree_upd ?c b' (\<lambda>_. b') (mc_data mc)" "mc_row_count mc' = mc_row_count mc"
    by (auto simp: add_field_def Let_def b(1) b'(1) split: field_data.splits)
  have sorted: "keys_sorted (mc_data mc)" using inv by (simp add: columns_hold_def)
  have "column_holds td rows (fields_value (fs @ [f]) c) c (map_of (mc_data mc') c)" for c
  proof (cases "c = ?c")
    case True
    then show ?thesis
      using b'(2,3) b(3) ty(2) by (simp add: column_holds_def data map_of_btree_upd [OF sorted] fields_value_snoc [OF new])
  next
    case False
    then show ?thesis
      using inv by (simp add: columns_hold_def data map_of_btree_upd [OF sorted] fields_value_snoc [OF new])
  qed
  with sorted mc' data show ?thesis by (simp add: columns_hold_def keys_sorted_btree_upd)
qed

lemma map_of_mapped_values: "map_of (map (\<lambda>(k, v). (k, g k v)) m) k = map_option (g k) (map_of m k)"
  by (induction m) auto

lemma columns_hold_row:
  assumes "columns_hold td rows (row_fields r) mc"
  shows "columns_hold td (rows @ [r]) []
    (mc\<lparr> mc_data := map (\<lambda>(col, b). (col, if col \<in> field_id ` set (row_fields r) then b else append_null b)) (mc_data mc) \<rparr>)"
proof -
  have "keys_sorted (map (\<lambda>(col, b). (col, if col \<in> field_id ` set (row_fields r) then b else append_null b)) (mc_data mc))"
    using assms by (simp add: columns_hold_def keys_sorted_def comp_def case_prod_beta)
  moreover have "column_holds td (rows @ [r]) (fields_value [] c) c
      (map_option (\<lambda>b. if c \<in> field_id ` set (row_fields r) then b else append_null b) (map_of (mc_data mc) c))" for c
  proof -
    have h: "column_holds td rows (row_value r c) c (map_of (mc_data mc) c)"
      using assms by (simp add: columns_hold_def row_value_def)
    have n: "fields_value [] c = None" by (simp add: fields_value_def)
    have m: "c \<in> field_id ` set (row_fields r) \<longleftrightarrow> row_value r c \<noteq> None"
      using fields_value_None [of "row_fields r" c] by (simp add: row_value_def)
    show ?thesis
    proof (cases "map_of (mc_data mc) c")
      case None
      with h n show ?thesis by (simp add: column_holds_def)
    next
      case (Some b)
      with h n m show ?thesis by (cases "row_value r c") (simp_all add: column_holds_def)
    qed
  qed
  ultimately show ?thesis by (simp add: columns_hold_def map_of_mapped_values)
qed

lemma add_row_holds:
  assumes "columns_hold td rows [] mc" "totals_hold fs mc" "row_ok td r"
  shows "\<exists>mc'. add_row (length rows) r mc = Inr mc' \<and> columns_hold td (rows @ [r]) [] mc' \<and>
           totals_hold (fs @ row_fields r) mc' \<and> mc_row_count mc' = mc_row_count mc"
proof -
  define P where "P ys m \<longleftrightarrow> columns_hold td rows ys m \<and> totals_hold (fs @ ys) m \<and> mc_row_count m = mc_row_count mc" for ys m
  have "\<exists>m. fold_res (add_field (length rows)) (row_fields r) mc = Inr m \<and> P (row_fields r) m"
  proof (rule fold_res_holds)
    show "P [] mc" using assms(1,2) by (simp add: P_def)
  next
    fix ys f todo m
    assume r: "row_fields r = ys @ f # todo" and p: "P ys m"
    have "field_id f \<notin> field_id ` set ys" using assms(3) r by (auto simp: row_ok_def)
    moreover obtain ty where "field_type (field_val f) = Some ty" "td_type td (field_id f) = Some ty"
      using assms(3) r by (auto simp: row_ok_def)
    ultimately obtain m' where m': "add_field (length rows) f m = Inr m'" "columns_hold td rows (ys @ [f]) m'"
        "mc_row_count m' = mc_row_count m"
      using columns_hold_field [of td rows ys m f] p by (auto simp: P_def)
    have "totals_hold (fs @ ys @ [f]) m'" using totals_hold_field [OF _ m'(1), of "fs @ ys"] p by (simp add: P_def)
    with m' p show "\<exists>m'. add_field (length rows) f m = Inr m' \<and> P (ys @ [f]) m'" by (simp add: P_def)
  qed
  then obtain m where m: "fold_res (add_field (length rows)) (row_fields r) mc = Inr m" "P (row_fields r) m" by blast
  from m(2) have "columns_hold td rows (row_fields r) m" by (simp add: P_def)
  from columns_hold_row [OF this] m show ?thesis by (simp add: add_row_def P_def totals_hold_def)
qed

lemma enumerate_split: "enumerate n xs = ys @ (i, x) # zs \<Longrightarrow> i = n + length ys \<and> xs = map snd ys @ x # map snd zs"
proof (induction xs arbitrary: n ys)
  case (Cons a xs)
  from Cons.prems Cons.IH [of "Suc n" "tl ys"] show ?case by (cases ys) auto
qed simp

lemma add_rows_holds:
  assumes "chunk_holds td rows mc" "list_all (row_ok td) new"
  shows "\<exists>mc'. add_rows new mc = Inr mc' \<and> chunk_holds td (rows @ new) mc'"
proof -
  define P where "P ys m \<longleftrightarrow> columns_hold td (rows @ map snd ys) [] m \<and>
      totals_hold (rows_fields (rows @ map snd ys)) m \<and> mc_row_count m = mc_row_count mc" for ys :: "(nat \<times> row) list" and m
  have "\<exists>m. fold_res (\<lambda>(i, r). add_row (i + mc_row_count mc) r) (enumerate 0 new) mc = Inr m \<and> P (enumerate 0 new) m"
  proof (rule fold_res_holds)
    show "P [] mc" using assms(1) by (simp add: P_def chunk_holds_def)
  next
    fix ys x todo m
    assume e: "enumerate 0 new = ys @ x # todo" and p: "P ys m"
    obtain i r where x: "x = (i, r)" by force
    from enumerate_split [of 0 new ys i r todo] e x have i: "i = length ys" "new = map snd ys @ r # map snd todo" by auto
    have "i + mc_row_count mc = length (rows @ map snd ys)" using assms(1) i by (simp add: chunk_holds_def)
    moreover have "row_ok td r" using assms(2) i by simp
    ultimately show "\<exists>m'. (case x of (i, r) \<Rightarrow> add_row (i + mc_row_count mc) r) m = Inr m' \<and> P (ys @ [x]) m'"
      using add_row_holds [of td "rows @ map snd ys" m "rows_fields (rows @ map snd ys)" r] p
      by (auto simp: P_def x rows_fields_def)
  qed
  then show ?thesis
    using assms(1) by (auto simp: add_rows_def P_def chunk_holds_def columns_hold_def totals_hold_def)
qed

lemma chunk_holds_new: "chunk_holds td [] mutable_table_chunk_new"
  by (simp add: chunk_holds_def columns_hold_def column_holds_def totals_hold_def rows_fields_def mutable_table_chunk_new_def
      fields_value_def times_of_def col_bytes_def keys_sorted_def List.map_filter_def)

section \<open>Record batches of a chunk\<close>

definition column_name :: "table_def \<Rightarrow> nat \<Rightarrow> string" where
  "column_name td i = the_or [] (column_id_to_name td i)"

definition td_ok :: "table_def \<Rightarrow> bool" where
  "td_ok td \<longleftrightarrow>
     distinct (map fst (td_columns td)) \<and> distinct (map (fst \<circ> snd) (td_columns td)) \<and>
     distinct (map fst (td_schema td)) \<and> set (td_schema td) = set (map snd (td_columns td)) \<and>
     set (td_series_key td) = set (map (fst \<circ> snd) (filter (\<lambda>(_, _, ty). ty = CTag) (td_columns td))) \<and>
     length (filter (\<lambda>(_, _, ty). ty = CTimestamp) (td_columns td)) = 1"

text \<open>A batch shows the rows: each column of the table has the rows' values in order.\<close>

definition batch_shows :: "table_def \<Rightarrow> row list \<Rightarrow> record_batch \<Rightarrow> bool" where
  "batch_shows td rows rb \<longleftrightarrow>
     list_all (\<lambda>(i, nm, ty). case map_of rb nm of
        None \<Rightarrow> False | Some b \<Rightarrow> into_influxcol b = ty \<and> builder_cells b = map (\<lambda>r. row_value r i) rows) (td_columns td)"

lemma res_map_ok: "(\<And>x. x \<in> set xs \<Longrightarrow> f x = Inr (g x)) \<Longrightarrow> res_map f xs = Inr (map g xs)"
  by (induction xs) simp_all

lemma find_named:
  "distinct (map (fst \<circ> snd) cols) \<Longrightarrow> (i, nm, ty) \<in> set cols \<Longrightarrow>
   List.find (\<lambda>(_, nm', _). nm' = nm) cols = Some (i, nm, ty)"
  by (induction cols) (force split: prod.splits if_splits)+

lemma column_definition_at:
  assumes "td_ok td" "(i, nm, ty) \<in> set (td_columns td)"
  shows "column_definition td nm = Some (i, ty)" "column_id_to_name td i = Some nm" "td_type td i = Some ty"
    "column_name td i = nm"
proof -
  have "distinct (map (fst \<circ> snd) (td_columns td))" using assms(1) by (simp add: td_ok_def)
  then have "List.find (\<lambda>(_, nm', _). nm' = nm) (td_columns td) = Some (i, nm, ty)"
    using assms(2) by (rule find_named)
  then show "column_definition td nm = Some (i, ty)" by (simp add: column_definition_def)
  have "map_of (td_columns td) i = Some (nm, ty)" using assms by (simp add: td_ok_def)
  then show "column_id_to_name td i = Some nm" "td_type td i = Some ty" "column_name td i = nm"
    by (simp_all add: column_id_to_name_def td_type_def column_name_def)
qed

lemma td_type_column:
  assumes "td_ok td" "td_type td i = Some ty"
  shows "(i, column_name td i, ty) \<in> set (td_columns td)"
  using assms by (auto simp: td_type_def column_name_def column_id_to_name_def td_ok_def dest: map_of_SomeD)

lemma one_time_column:
  assumes "td_ok td" "td_type td c = Some CTimestamp" "td_type td d = Some CTimestamp"
  shows "c = d"
proof -
  let ?T = "filter (\<lambda>(_, _, ty). ty = CTimestamp) (td_columns td)"
  have "length ?T = 1" using assms(1) by (simp add: td_ok_def)
  then obtain x where "?T = [x]" by (cases ?T) auto
  then have T: "set ?T = {x}" by simp
  have "(c, column_name td c, CTimestamp) \<in> set ?T" "(d, column_name td d, CTimestamp) \<in> set ?T"
    using td_type_column [OF assms(1,2)] td_type_column [OF assms(1,3)] by simp_all
  then show ?thesis unfolding T by auto
qed

lemma row_has_time:
  assumes "td_ok td" "row_ok td r" "td_type td c = Some CTimestamp"
  shows "row_value r c \<noteq> None"
proof -
  have "times_of (row_fields r) = [row_time r]" using assms(2) by (simp add: row_ok_def)
  then have "row_time r \<in> set (times_of (row_fields r))" by simp
  then obtain f where f: "f \<in> set (row_fields r)" "field_val f = FTimestamp (row_time r)"
    by (auto simp: times_of_def List.map_filter_def split: field_data.splits)
  then have "td_type td (field_id f) = Some CTimestamp" using assms(2) by (auto simp: row_ok_def list_all_iff)
  with one_time_column [OF assms(1,3)] f show ?thesis
    using fields_value_None [of "row_fields r" c] by (auto simp: row_value_def)
qed

lemma try_new_pairs:
  assumes "\<And>fld b. (fld, b) \<in> set ps \<Longrightarrow> column_fits n fld b"
  shows "record_batch_try_new (map fst ps) (map snd ps) = Inr (map (\<lambda>(fld, b). (fst fld, b)) ps)"
proof (cases ps)
  case (Cons p ps')
  then have "length (builder_cells (snd p)) = n" using assms [of "fst p" "snd p"] by (simp add: column_fits_def)
  then have "list_all2 (column_fits (length (builder_cells (hd (map snd ps))))) (map fst ps) (map snd ps)"
    using assms Cons by (simp add: list_all2_map1 list_all2_map2 list_all2_same)
  then show ?thesis
    unfolding record_batch_try_new_def by (simp add: zip_map_fst_snd zip_map1 zip_map2 comp_def case_prod_beta zip_same_conv_map)
qed (simp add: record_batch_try_new_def)

lemma column_fits_rows:
  assumes "td_ok td" "list_all (row_ok td) rows" "(i, nm, ty) \<in> set (td_columns td)"
    and "into_influxcol b = ty" "builder_cells b = map (\<lambda>r. row_value r i) rows"
  shows "column_fits (length rows) (nm, ty) b"
proof -
  have "None \<notin> set (map (\<lambda>r. row_value r i) rows)" if "ty = CTimestamp"
  proof
    assume "None \<in> set (map (\<lambda>r. row_value r i) rows)"
    then obtain r where "r \<in> set rows" "None = row_value r i" unfolding set_map by blast
    with row_has_time [OF assms(1), of r i] column_definition_at(3) [OF assms(1,3)] assms(2) that show False
      by (auto simp: list_all_iff)
  qed
  with assms(4,5) show ?thesis by (simp add: column_fits_def)
qed

lemma batch_showsI:
  assumes "td_ok td" "distinct (map fst rb)"
    and "\<And>i nm ty. (i, nm, ty) \<in> set (td_columns td) \<Longrightarrow>
           \<exists>b. (nm, b) \<in> set rb \<and> into_influxcol b = ty \<and> builder_cells b = map (\<lambda>r. row_value r i) rows"
  shows "batch_shows td rows rb"
  unfolding batch_shows_def list_all_iff
proof safe
  fix i nm ty
  assume "(i, nm, ty) \<in> set (td_columns td)"
  from assms(3) [OF this] obtain b where
    "(nm, b) \<in> set rb" "into_influxcol b = ty" "builder_cells b = map (\<lambda>r. row_value r i) rows" by blast
  moreover then have "map_of rb nm = Some b" using assms(2) by simp
  ultimately show "case map_of rb nm of None \<Rightarrow> False
      | Some b \<Rightarrow> into_influxcol b = ty \<and> builder_cells b = map (\<lambda>r. row_value r i) rows" by simp
qed

lemma batch_showsD:
  assumes "batch_shows td rows rb" "(i, nm, ty) \<in> set (td_columns td)"
  shows "\<exists>b. map_of rb nm = Some b \<and> into_influxcol b = ty \<and> builder_cells b = map (\<lambda>r. row_value r i) rows"
  using assms by (force simp: batch_shows_def list_all_iff split: option.splits)

text \<open>A batch in the order of the schema, from a builder for each of its columns.\<close>

lemma schema_batch:
  assumes td: "td_ok td" and rows: "list_all (row_ok td) rows"
    and g: "\<And>i nm ty. (i, nm, ty) \<in> set (td_columns td) \<Longrightarrow>
              into_influxcol (g (nm, ty)) = ty \<and> builder_cells (g (nm, ty)) = map (\<lambda>r. row_value r i) rows"
  shows "\<exists>rb. record_batch_try_new (td_schema td) (map g (td_schema td)) = Inr rb \<and> batch_shows td rows rb"
proof -
  let ?ps = "map (\<lambda>fld. (fld, g fld)) (td_schema td)"
  have "column_fits (length rows) fld b" if "(fld, b) \<in> set ?ps" for fld b
  proof -
    from that obtain nm ty where fld: "fld = (nm, ty)" "(nm, ty) \<in> set (td_schema td)" "b = g (nm, ty)" by force
    then obtain i where i: "(i, nm, ty) \<in> set (td_columns td)" using td by (force simp: td_ok_def)
    from column_fits_rows [OF td rows i] g [OF i] fld show ?thesis by simp
  qed
  from try_new_pairs [of ?ps, OF this]
  have new: "record_batch_try_new (td_schema td) (map g (td_schema td)) = Inr (map (\<lambda>fld. (fst fld, g fld)) (td_schema td))"
    by (simp add: comp_def)
  have "batch_shows td rows (map (\<lambda>fld. (fst fld, g fld)) (td_schema td))"
  proof (rule batch_showsI [OF td])
    show "distinct (map fst (map (\<lambda>fld. (fst fld, g fld)) (td_schema td)))"
      using td by (simp add: td_ok_def comp_def)
  next
    fix i nm ty
    assume i: "(i, nm, ty) \<in> set (td_columns td)"
    then have "(nm, ty) \<in> set (td_schema td)" using td by (force simp: td_ok_def)
    with g [OF i] show "\<exists>b. (nm, b) \<in> set (map (\<lambda>fld. (fst fld, g fld)) (td_schema td)) \<and>
        into_influxcol b = ty \<and> builder_cells b = map (\<lambda>r. row_value r i) rows"
      by (intro exI [of _ "g (nm, ty)"]) force
  qed
  with new show ?thesis by blast
qed

lemma chunk_column:
  assumes "chunk_holds td rows mc" "td_type td i = Some ty"
  defines "b \<equiv> (case map_of (mc_data mc) i of Some b \<Rightarrow> b | None \<Rightarrow> array_ref_nulls_for_type ty (mc_row_count mc))"
  shows "into_influxcol b = ty \<and> builder_cells b = map (\<lambda>r. row_value r i) rows"
proof -
  have "column_holds td rows None i (map_of (mc_data mc) i)"
    using assms(1) by (simp add: chunk_holds_def columns_hold_def fields_value_def)
  then show ?thesis
    using assms by (auto simp: column_holds_def chunk_holds_def nulls_eq split: option.splits)
qed

lemma chunk_record_batch_shows:
  assumes "td_ok td" "list_all (row_ok td) rows" "chunk_holds td rows mc"
  shows "\<exists>rb. chunk_record_batch td mc = Inr (Inr rb) \<and> batch_shows td rows rb"
proof -
  define g where "g fld = (case column_definition td (fst fld) of
      None \<Rightarrow> BBool [] | Some (i, ty) \<Rightarrow>
        (case map_of (mc_data mc) i of Some b \<Rightarrow> b | None \<Rightarrow> array_ref_nulls_for_type ty (mc_row_count mc)))" for fld :: "string \<times> influx_column_type"
  have "into_influxcol (g (nm, ty)) = ty \<and> builder_cells (g (nm, ty)) = map (\<lambda>r. row_value r i) rows"
    if "(i, nm, ty) \<in> set (td_columns td)" for i nm ty
    using chunk_column [OF assms(3) column_definition_at(3) [OF assms(1) that]] column_definition_at(1) [OF assms(1) that]
    by (simp add: g_def)
  from schema_batch [OF assms(1,2) this] obtain rb where
    rb: "record_batch_try_new (td_schema td) (map g (td_schema td)) = Inr rb" "batch_shows td rows rb" by blast
  have "batch_column td mc fld = Inr (g fld)" if "fld \<in> set (td_schema td)" for fld
  proof -
    from that obtain i where "(i, fst fld, snd fld) \<in> set (td_columns td)" using assms(1) by (force simp: td_ok_def)
    from column_definition_at(1) [OF assms(1) this] show ?thesis by (simp add: batch_column_def g_def)
  qed
  then have "res_map (batch_column td mc) (td_schema td) = Inr (map g (td_schema td))" by (rule res_map_ok)
  with rb show ?thesis by (simp add: chunk_record_batch_def)
qed

lemma snapshot_batch_shows:
  assumes "td_ok td" "list_all (row_ok td) rows" "batch_shows td rows (sc_record_batch sc)"
  shows "\<exists>rb. snapshot_batch td sc = Inr rb \<and> batch_shows td rows rb"
proof -
  define g where "g fld = the_or (BBool []) (map_of (sc_record_batch sc) (fst fld))" for fld :: "string \<times> influx_column_type"
  have "into_influxcol (g (nm, ty)) = ty \<and> builder_cells (g (nm, ty)) = map (\<lambda>r. row_value r i) rows"
    if "(i, nm, ty) \<in> set (td_columns td)" for i nm ty
    using batch_showsD [OF assms(3) that] by (auto simp: g_def)
  from schema_batch [OF assms(1,2) this] obtain rb where
    rb: "record_batch_try_new (td_schema td) (map g (td_schema td)) = Inr rb" "batch_shows td rows rb" by blast
  have "find_column (sc_record_batch sc) fld = Inr (g fld)" if "fld \<in> set (td_schema td)" for fld
  proof -
    from that obtain i where "(i, fst fld, snd fld) \<in> set (td_columns td)" using assms(1) by (force simp: td_ok_def)
    from batch_showsD [OF assms(3) this] show ?thesis by (auto simp: find_column_def g_def)
  qed
  then have "res_map (find_column (sc_record_batch sc)) (td_schema td) = Inr (map g (td_schema td))" by (rule res_map_ok)
  with rb show ?thesis by (simp add: snapshot_batch_def)
qed

text \<open>The columns of the batch a snapshot takes: those with data by identifier, then the others.\<close>

definition taken_columns :: "table_def \<Rightarrow> mutable_table_chunk \<Rightarrow> (nat \<times> influx_column_type \<times> builder) list" where
  "taken_columns td mc =
     map (\<lambda>(i, b). (i, into_influxcol b, b)) (mc_data mc) @
     map (\<lambda>(i, _, ty). (i, ty, array_ref_nulls_for_type ty (mc_row_count mc)))
       (filter (\<lambda>(i, _). i \<notin> fst ` set (mc_data mc)) (td_columns td))"

lemma taken_columns_hold:
  assumes "td_ok td" "chunk_holds td rows mc"
  shows "distinct (map fst (taken_columns td mc))" "fst ` set (taken_columns td mc) = fst ` set (td_columns td)"
    "(i, ty, b) \<in> set (taken_columns td mc) \<Longrightarrow>
       td_type td i = Some ty \<and> into_influxcol b = ty \<and> builder_cells b = map (\<lambda>r. row_value r i) rows"
proof -
  have dist: "distinct (map fst (mc_data mc))" "distinct (map fst (td_columns td))"
    using assms by (auto simp: chunk_holds_def columns_hold_def td_ok_def keys_distinct_def dest!: keys_sorted_imp_distinct)
  have typed: "td_type td c \<noteq> None" if "(c, b) \<in> set (mc_data mc)" for c b
  proof -
    have "map_of (mc_data mc) c = Some b" using that dist(1) by simp
    moreover have "column_holds td rows None c (map_of (mc_data mc) c)"
      using assms(2) by (simp add: chunk_holds_def columns_hold_def fields_value_def)
    ultimately show ?thesis by (simp add: column_holds_def)
  qed
  have sub: "fst ` set (mc_data mc) \<subseteq> fst ` set (td_columns td)"
  proof clarify
    fix c b
    assume "(c, b) \<in> set (mc_data mc)"
    from typed [OF this] show "fst (c, b) \<in> fst ` set (td_columns td)"
      by (simp add: td_type_def map_of_eq_None_iff)
  qed
  define rest where "rest = filter (\<lambda>(i, _). i \<notin> fst ` set (mc_data mc)) (td_columns td)"
  have ids: "map fst (taken_columns td mc) = map fst (mc_data mc) @ map fst rest"
    by (simp add: taken_columns_def rest_def case_prod_beta)
  have rest: "fst ` set rest = fst ` set (td_columns td) - fst ` set (mc_data mc)" by (force simp: rest_def)
  show "fst ` set (taken_columns td mc) = fst ` set (td_columns td)"
    using arg_cong [OF ids, of set] rest sub by auto
  have "distinct (map fst rest)" using dist(2) by (simp add: rest_def distinct_map_filter)
  then show "distinct (map fst (taken_columns td mc))" unfolding ids using dist(1) rest by auto
  show "td_type td i = Some ty \<and> into_influxcol b = ty \<and> builder_cells b = map (\<lambda>r. row_value r i) rows"
    if "(i, ty, b) \<in> set (taken_columns td mc)"
  proof (cases "map_of (mc_data mc) i")
    case None
    then have "i \<notin> fst ` set (mc_data mc)" by (simp add: map_of_eq_None_iff)
    with that obtain nm where "(i, nm, ty) \<in> set (td_columns td)" "b = array_ref_nulls_for_type ty (mc_row_count mc)"
      by (force simp: taken_columns_def)
    with chunk_column [OF assms(2), of i ty] column_definition_at(3) [OF assms(1)] None show ?thesis by auto
  next
    case (Some b')
    then have "(i, b') \<in> set (mc_data mc)" by (rule map_of_SomeD)
    with that dist(1) Some have "b = b'" "ty = into_influxcol b'"
      by (auto simp: taken_columns_def image_iff dest: eq_key_imp_eq_value)
    moreover obtain ty' where ty': "td_type td i = Some ty'" using typed [OF \<open>(i, b') \<in> set (mc_data mc)\<close>] by auto
    ultimately show ?thesis using chunk_column [OF assms(2) ty'] Some by auto
  qed
qed

lemma into_schema_shows:
  assumes td: "td_ok td" and rows: "list_all (row_ok td) rows" and mc: "chunk_holds td rows mc"
  shows "\<exists>schema rb. into_schema_record_batch td mc = Inr (schema, rb) \<and> batch_shows td rows rb"
proof -
  note taken = taken_columns_hold [OF td mc]
  define ps where "ps = map (\<lambda>(i, ty, b). ((column_name td i, ty), b)) (taken_columns td mc)"
  have cols: "(i, column_name td i, ty) \<in> set (td_columns td)" if "(i, ty, b) \<in> set (taken_columns td mc)" for i ty b
    using taken(3) [OF that] td_type_column [OF td] by simp
  have fits: "column_fits (length rows) fld b" if "(fld, b) \<in> set ps" for fld b
  proof -
    from that obtain i where i: "(i, snd fld, b) \<in> set (taken_columns td mc)" "fst fld = column_name td i"
      by (force simp: ps_def)
    from column_fits_rows [OF td rows cols [OF i(1)]] taken(3) [OF i(1)] i(2) show ?thesis by (metis prod.collapse)
  qed
  have names: "map (fst \<circ> fst) ps = map (column_name td) (map fst (taken_columns td mc))"
    by (simp add: ps_def case_prod_beta)
  have "inj_on (column_name td) (fst ` set (td_columns td))"
  proof (rule inj_onI)
    fix i j
    assume "i \<in> fst ` set (td_columns td)" "j \<in> fst ` set (td_columns td)" and eq: "column_name td i = column_name td j"
    then obtain nm ty nm' ty' where
      ij: "(i, nm, ty) \<in> set (td_columns td)" "(j, nm', ty') \<in> set (td_columns td)" by force
    have "nm = nm'" using column_definition_at(4) [OF td ij(1)] column_definition_at(4) [OF td ij(2)] eq by simp
    with column_definition_at(1) [OF td ij(1)] column_definition_at(1) [OF td ij(2)] show "i = j" by simp
  qed
  then have dist: "distinct (map (fst \<circ> fst) ps)"
    unfolding names by (subst distinct_map) (use taken(1,2) in simp)
  have flds: "fst ` set ps = set (map snd (td_columns td))"
  proof (intro equalityI subsetI)
    fix fld
    assume "fld \<in> fst ` set ps"
    then obtain i b where "(i, snd fld, b) \<in> set (taken_columns td mc)" "fst fld = column_name td i" by (force simp: ps_def)
    with cols [OF this(1)] show "fld \<in> set (map snd (td_columns td))" by (metis prod.collapse image_eqI snd_conv set_map)
  next
    fix fld
    assume "fld \<in> set (map snd (td_columns td))"
    then obtain i where i: "(i, fst fld, snd fld) \<in> set (td_columns td)" by force
    then obtain ty' b where t: "(i, ty', b) \<in> set (taken_columns td mc)" using taken(2) by (force simp: image_iff)
    with taken(3) [OF t] column_definition_at(3,4) [OF td i] have "(fld, b) \<in> set ps" by (force simp: ps_def)
    then show "fld \<in> fst ` set ps" by force
  qed
  define present where "present = map (\<lambda>(i, b). ((column_name td i, into_influxcol b), b)) (mc_data mc)"
  define absent where "absent = map (\<lambda>(_, nm, ty). ((nm, ty), array_ref_nulls_for_type ty (mc_row_count mc)))
      (filter (\<lambda>(i, _). i \<notin> fst ` set (mc_data mc)) (td_columns td))"
  have ps: "present @ absent = ps"
    unfolding present_def absent_def ps_def taken_columns_def
    using column_definition_at(4) [OF td] by auto
  have "column_id_to_name td i = Some (column_name td i)" if "(i, b) \<in> set (mc_data mc)" for i b
  proof -
    have "(i, into_influxcol b, b) \<in> set (taken_columns td mc)" using that by (force simp: taken_columns_def)
    from column_definition_at(2) [OF td cols [OF this]] show ?thesis .
  qed
  then have "res_map (\<lambda>(i, b). case column_id_to_name td i of
          None \<Rightarrow> Inl (Panic ''valid column id'') | Some nm \<Rightarrow> Inr ((nm, into_influxcol b), b)) (mc_data mc) = Inr present"
    unfolding present_def by (intro res_map_ok) auto
  moreover have "schema_builds (if mc_data mc = [] then None else Some (td_series_key td)) (map fst ps)"
    using dist flds td
    by (auto simp: schema_builds_def list_all_iff td_ok_def image_image image_iff comp_def)
  moreover have "record_batch_try_new (map fst ps) (map snd ps) = Inr (map (\<lambda>(fld, b). (fst fld, b)) ps)"
    using fits by (rule try_new_pairs)
  moreover have "batch_shows td rows (map (\<lambda>(fld, b). (fst fld, b)) ps)"
  proof (rule batch_showsI [OF td])
    show "distinct (map fst (map (\<lambda>(fld, b). (fst fld, b)) ps))" using dist by (simp add: comp_def case_prod_beta)
  next
    fix i nm ty
    assume i: "(i, nm, ty) \<in> set (td_columns td)"
    then obtain ty' b where t: "(i, ty', b) \<in> set (taken_columns td mc)" using taken(2) by (force simp: image_iff)
    with taken(3) [OF t] column_definition_at(3,4) [OF td i]
    show "\<exists>b. (nm, b) \<in> set (map (\<lambda>(fld, b). (fst fld, b)) ps) \<and> into_influxcol b = ty \<and>
        builder_cells b = map (\<lambda>r. row_value r i) rows"
      by (intro exI [of _ b]) (force simp: ps_def)
  qed
  ultimately show ?thesis
    unfolding into_schema_record_batch_def by (simp add: Let_def absent_def [symmetric] ps del: map_append if_weak_cong)
qed

section \<open>The buffer as rows\<close>

text \<open>A piece is a chunk time with the rows of one chunk.\<close>

type_synonym pieces = "(int \<times> row list) list"

definition rows_at :: "pieces \<Rightarrow> int \<Rightarrow> row list" where
  "rows_at ps t = concat (map snd (filter (\<lambda>p. fst p = t) ps))"

definition rows_range :: "row list \<Rightarrow> int \<times> int" where
  "rows_range rows = (fold min (map row_time rows) i64_max, fold max (map row_time rows) i64_min)"

definition rows_hold :: "table_def \<Rightarrow> row list \<Rightarrow> mutable_table_chunk \<Rightarrow> bool" where
  "rows_hold td rows mc \<longleftrightarrow> chunk_holds td rows mc \<and> rows \<noteq> [] \<and> list_all (row_ok td) rows"

definition piece_taken :: "table_def \<Rightarrow> int \<times> row list \<Rightarrow> snapshot_chunk \<Rightarrow> bool" where
  "piece_taken td p sc \<longleftrightarrow>
     sc_chunk_time sc = fst p \<and> sc_timestamp_min_max sc = rows_range (snd p) \<and>
     batch_shows td (snd p) (sc_record_batch sc) \<and> snd p \<noteq> [] \<and> list_all (row_ok td) (snd p)"

definition group_holds ::
    "table_def \<Rightarrow> int \<times> row list list \<Rightarrow> int \<times> mutable_table_chunk list \<Rightarrow> bool" where
  "group_holds td g tcs \<longleftrightarrow> fst g = fst tcs \<and> snd g \<noteq> [] \<and> list_all2 (rows_hold td) (snd g) (snd tcs)"

definition group_pieces :: "(int \<times> row list list) list \<Rightarrow> pieces" where
  "group_pieces gs = concat (map (\<lambda>(t, rss). map (Pair t) rss) gs)"

definition buffer_holds :: "table_def \<Rightarrow> pieces \<Rightarrow> pieces \<Rightarrow> table_buffer \<Rightarrow> bool" where
  "buffer_holds td S R tb \<longleftrightarrow>
     list_all2 (piece_taken td) S (tb_snapshotting tb) \<and> keys_sorted (tb_chunks tb) \<and>
     (\<exists>gs. list_all2 (group_holds td) gs (tb_chunks tb) \<and> R = group_pieces gs)"

lemma rows_at_simps [simp]:
  "rows_at [] t = []" "rows_at (p # ps) t = (if fst p = t then snd p else []) @ rows_at ps t"
  "rows_at (ps @ qs) t = rows_at ps t @ rows_at qs t"
  by (simp_all add: rows_at_def)

lemma group_pieces_simps [simp]:
  "group_pieces [] = []" "group_pieces (g # gs) = map (Pair (fst g)) (snd g) @ group_pieces gs"
  by (simp_all add: group_pieces_def case_prod_beta)

lemma rows_at_pairs [simp]: "rows_at (map (Pair t) rss) t' = (if t' = t then concat rss else [])"
  by (induction rss) auto

lemma rows_at_groups: "keys_sorted gs \<Longrightarrow> rows_at (group_pieces gs) t = concat (the_or [] (map_of gs t))"
proof (induction gs)
  case (Cons g gs)
  then have "\<forall>k \<in> fst ` set gs. fst g < k" "keys_sorted gs" by (auto simp: keys_sorted_def)
  moreover then have "map_of gs t = None" if "t = fst g" using that by (auto simp: map_of_eq_None_iff)
  ultimately show ?case using Cons.IH by (cases g) auto
qed simp

lemma times_of_rows: "list_all (row_ok td) rows \<Longrightarrow> times_of (rows_fields rows) = map row_time rows"
  by (induction rows) (auto simp: rows_fields_def row_ok_def times_of_def List.map_filter_def)

lemma rows_range_bounds:
  assumes "r \<in> set rows"
  shows "fst (rows_range rows) \<le> row_time r" "row_time r \<le> snd (rows_range rows)"
proof -
  have "fold min xs a \<le> x \<and> x \<le> fold max xs b" if "x \<in> set xs" for xs :: "int list" and x a b
    using Min.set_eq_fold [of a xs] Max.set_eq_fold [of b xs] that
    by (metis List.finite_set Min_le Max_ge list.set_intros(2))
  with assms show "fst (rows_range rows) \<le> row_time r" "row_time r \<le> snd (rows_range rows)"
    by (auto simp: rows_range_def)
qed

lemma rows_hold_range:
  assumes "rows_hold td rows mc"
  shows "(mc_timestamp_min mc, mc_timestamp_max mc) = rows_range rows" "chunk_timestamp_min_max mc = Inr (rows_range rows)"
proof -
  show range: "(mc_timestamp_min mc, mc_timestamp_max mc) = rows_range rows"
    using assms times_of_rows [of td rows] by (simp add: rows_hold_def chunk_holds_def totals_hold_def rows_range_def)
  obtain r where "r \<in> set rows" using assms by (cases rows) (auto simp: rows_hold_def)
  from rows_range_bounds [OF this] have "fst (rows_range rows) \<le> snd (rows_range rows)" by linarith
  with range show "chunk_timestamp_min_max mc = Inr (rows_range rows)"
    by (simp add: chunk_timestamp_min_max_def timestamp_min_max_new_def) (metis fst_conv snd_conv)
qed

lemma list_all2_btree_upd:
  assumes "list_all2 (group_holds td) gs m" "group_holds td (k, v) (k, w)"
  shows "list_all2 (group_holds td) (btree_upd k [] (\<lambda>_. v) gs) (btree_upd k [] (\<lambda>_. w) m)"
  using assms by (induction gs m rule: list_all2_induct) (auto simp: group_holds_def)

lemma groups_keys: "list_all2 (group_holds td) gs m \<Longrightarrow> map fst gs = map fst m"
  by (induction gs m rule: list_all2_induct) (auto simp: group_holds_def)

lemma group_lookup:
  "list_all2 (group_holds td) gs m \<Longrightarrow> list_all2 (rows_hold td) (the_or [] (map_of gs t)) (the_or [] (map_of m t))"
  by (induction gs m rule: list_all2_induct) (auto simp: group_holds_def)

lemma groups_chunks:
  "list_all2 (group_holds td) gs m \<Longrightarrow>
   list_all2 (\<lambda>p tc. fst p = fst tc \<and> rows_hold td (snd p) (snd tc)) (group_pieces gs)
     (concat (map (\<lambda>(t, cs). map (\<lambda>c. (t, c)) cs) m))"
  by (induction gs m rule: list_all2_induct)
     (auto simp: group_holds_def list_all2_map1 list_all2_map2 case_prod_beta intro!: list_all2_appendI)

lemma buffer_chunk_holds:
  assumes holds: "buffer_holds td S R tb" and rows: "list_all (row_ok td) rows" "rows \<noteq> []"
  shows "\<exists>tb' R'. buffer_chunk t rows tb = Inr tb' \<and> buffer_holds td S R' tb' \<and>
           rows_at R' = (rows_at R)(t := rows_at R t @ rows)"
proof -
  obtain gs where gs: "list_all2 (group_holds td) gs (tb_chunks tb)" "R = group_pieces gs"
    using holds by (auto simp: buffer_holds_def)
  have sorted: "keys_sorted (tb_chunks tb)" using holds by (simp add: buffer_holds_def)
  then have sorted_gs: "keys_sorted gs" using groups_keys [OF gs(1)] by (simp add: keys_sorted_def)
  define cs where "cs = the_or [] (map_of (tb_chunks tb) t)"
  define rss where "rss = the_or [] (map_of gs t)"
  have all: "list_all2 (rows_hold td) rss cs" unfolding rss_def cs_def by (rule group_lookup [OF gs(1)])
  define fresh where "fresh \<longleftrightarrow> cs = [] \<or> would_exceed_limit_with (last cs) (incoming_per_column rows)"
  define cs' where "cs' = (if fresh then cs @ [mutable_table_chunk_new] else cs)"
  define old where "old = (if fresh then [] else last rss)"
  have "chunk_holds td old (last cs')" and ok: "list_all (row_ok td) old"
    and rest: "list_all2 (rows_hold td) (if fresh then rss else butlast rss) (butlast cs')"
    and eq: "concat (if fresh then rss else butlast rss) @ old = concat rss"
  proof -
    have "rows_hold td (last rss) (last cs)" if "cs \<noteq> []"
    proof -
      have "rss \<noteq> []" using all that by auto
      with all that show ?thesis by (simp add: list_all2_conv_all_nth last_conv_nth)
    qed
    then show "chunk_holds td old (last cs')" "list_all (row_ok td) old"
      using chunk_holds_new by (auto simp: old_def cs'_def fresh_def rows_hold_def)
    show "list_all2 (rows_hold td) (if fresh then rss else butlast rss) (butlast cs')"
      using all by (auto simp: cs'_def list_all2_conv_all_nth nth_butlast)
    show "concat (if fresh then rss else butlast rss) @ old = concat rss"
      using all by (cases rss rule: rev_cases) (auto simp: old_def fresh_def)
  qed
  from add_rows_holds [OF this(1) rows(1)] obtain c where
    c: "add_rows rows (last cs') = Inr c" "chunk_holds td (old @ rows) c" by blast
  define new where "new = (if fresh then rss else butlast rss) @ [old @ rows]"
  have "group_holds td (t, new) (t, butlast cs' @ [c])"
    using rest ok rows c(2) by (simp add: group_holds_def new_def rows_hold_def list_all2_appendI)
  from list_all2_btree_upd [OF gs(1) this]
  have upd: "list_all2 (group_holds td) (btree_upd t [] (\<lambda>_. new) gs) (btree_upd t [] (\<lambda>_. butlast cs' @ [c]) (tb_chunks tb))" .
  have run: "buffer_chunk t rows tb = Inr (tb\<lparr> tb_chunks := btree_upd t [] (\<lambda>_. butlast cs' @ [c]) (tb_chunks tb) \<rparr>)"
    using c(1) unfolding buffer_chunk_def Let_def cs_def [symmetric] fresh_def [symmetric] cs'_def [symmetric] by simp
  have "rows_at (group_pieces (btree_upd t [] (\<lambda>_. new) gs)) t' = ((rows_at R)(t := rows_at R t @ rows)) t'" for t'
    using eq by (simp add: rows_at_groups keys_sorted_btree_upd sorted_gs map_of_btree_upd gs(2) rss_def [symmetric] new_def)
  then have rows_at: "rows_at (group_pieces (btree_upd t [] (\<lambda>_. new) gs)) = (rows_at R)(t := rows_at R t @ rows)" by (rule ext)
  have "buffer_holds td S (group_pieces (btree_upd t [] (\<lambda>_. new) gs))
      (tb\<lparr> tb_chunks := btree_upd t [] (\<lambda>_. butlast cs' @ [c]) (tb_chunks tb) \<rparr>)"
    using holds upd sorted by (auto simp: buffer_holds_def keys_sorted_btree_upd)
  with run rows_at show ?thesis by blast
qed

lemma list_all2_filter_key:
  "list_all2 (\<lambda>x y. key x = key' y \<and> P x y) xs ys \<Longrightarrow>
   list_all2 (\<lambda>x y. key x = key' y \<and> P x y) (filter (\<lambda>x. K (key x)) xs) (filter (\<lambda>y. K (key' y)) ys)"
  by (induction xs ys rule: list_all2_induct) auto

lemma res_map_all2:
  "list_all2 (\<lambda>x y. \<exists>z. f y = Inr z \<and> P x z) xs ys \<Longrightarrow> \<exists>zs. res_map f ys = Inr zs \<and> list_all2 P xs zs"
  by (induction xs ys rule: list_all2_induct) auto

lemma keys_sorted_filter: "keys_sorted m \<Longrightarrow> keys_sorted (filter P m)"
  by (simp add: keys_sorted_def sorted_wrt_map sorted_wrt_filter)

lemma rows_at_filter: "rows_at (filter (\<lambda>p. K (fst p)) ps) t = (if K t then rows_at ps t else [])"
  by (induction ps) auto

lemma group_pieces_filter:
  "filter (\<lambda>p. K (fst p)) (group_pieces gs) = group_pieces (filter (\<lambda>g. K (fst g)) gs)"
  by (induction gs) (simp_all add: filter_map comp_def filter_empty_conv)

lemma buffer_pieces:
  "buffer_holds td S R tb \<Longrightarrow>
   list_all2 (\<lambda>p tc. fst p = fst tc \<and> rows_hold td (snd p) (snd tc)) R (each_chunk tb)"
  using groups_chunks by (auto simp: buffer_holds_def each_chunk_def)

lemma snapshot_one_taken:
  assumes "td_ok td" "fst p = fst tc" "rows_hold td (snd p) (snd tc)"
  shows "\<exists>sc. snapshot_one td tc = Inr sc \<and> piece_taken td p sc"
proof -
  have h: "list_all (row_ok td) (snd p)" "chunk_holds td (snd p) (snd tc)" "snd p \<noteq> []" using assms(3) by (simp_all add: rows_hold_def)
  from into_schema_shows [OF assms(1) h(1,2)] obtain schema rb where
    "into_schema_record_batch td (snd tc) = Inr (schema, rb)" "batch_shows td (snd p) rb" by blast
  with rows_hold_range(2) [OF assms(3)] h(1,3) assms(2) show ?thesis by (simp add: snapshot_one_def piece_taken_def)
qed

lemma table_snapshot_holds:
  assumes td: "td_ok td" and holds: "buffer_holds td S R tb"
  shows "\<exists>scs tb'. table_snapshot td m tb = Inr (scs, tb') \<and> scs = tb_snapshotting tb' \<and>
           buffer_holds td (filter (\<lambda>p. fst p < m) R) (filter (\<lambda>p. \<not> fst p < m) R) tb'"
proof -
  obtain gs where gs: "list_all2 (group_holds td) gs (tb_chunks tb)" "R = group_pieces gs"
    using holds by (auto simp: buffer_holds_def)
  have "list_all2 (\<lambda>p tc. fst p = fst tc \<and> rows_hold td (snd p) (snd tc))
      (filter (\<lambda>p. fst p < m) R) (filter (\<lambda>tc. fst tc < m) (each_chunk tb))"
    by (rule list_all2_filter_key [OF buffer_pieces [OF holds]])
  then have "list_all2 (\<lambda>p tc. \<exists>sc. snapshot_one td tc = Inr sc \<and> piece_taken td p sc)
      (filter (\<lambda>p. fst p < m) R) (filter (\<lambda>tc. fst tc < m) (each_chunk tb))"
    by (rule list_all2_mono) (use snapshot_one_taken [OF td] in blast)
  from res_map_all2 [OF this] obtain scs where
    scs: "res_map (snapshot_one td) (filter (\<lambda>tc. fst tc < m) (each_chunk tb)) = Inr scs"
      "list_all2 (piece_taken td) (filter (\<lambda>p. fst p < m) R) scs" by blast
  have "list_all2 (group_holds td) (filter (\<lambda>g. \<not> fst g < m) gs) (filter (\<lambda>tcs. \<not> fst tcs < m) (tb_chunks tb))"
    using list_all2_filter_key [of fst fst "\<lambda>g tcs. snd g \<noteq> [] \<and> list_all2 (rows_hold td) (snd g) (snd tcs)" gs "tb_chunks tb"] gs(1)
    by (simp add: group_holds_def [abs_def])
  moreover have "keys_sorted (filter (\<lambda>tcs. \<not> fst tcs < m) (tb_chunks tb))"
    using holds by (simp add: buffer_holds_def keys_sorted_filter)
  ultimately have "buffer_holds td (filter (\<lambda>p. fst p < m) R) (filter (\<lambda>p. \<not> fst p < m) R)
      \<lparr> tb_chunks = filter (\<lambda>tcs. \<not> fst tcs < m) (tb_chunks tb), tb_snapshotting = scs \<rparr>"
    using scs(2) group_pieces_filter [of "\<lambda>k. \<not> k < m" gs] unfolding buffer_holds_def gs(2) by auto
  with scs(1) show ?thesis by (simp add: table_snapshot_def case_prod_beta)
qed

subsection \<open>Operations\<close>

text \<open>
  The calls a buffer gets, and what they mean for the rows it shows: those being persisted by the
  current snapshot and those still written to.
\<close>

datatype buffer_op = BufferChunk int "row list" | SnapshotBefore int | ClearSnapshots

fun buffer_step :: "table_def \<Rightarrow> buffer_op \<Rightarrow> table_buffer \<Rightarrow> table_buffer panicking" where
  "buffer_step td (BufferChunk t rows) tb = buffer_chunk t rows tb"
| "buffer_step td (SnapshotBefore m) tb = bind_res (table_snapshot td m tb) (\<lambda>(_, tb'). Inr tb')"
| "buffer_step td ClearSnapshots tb = Inr (clear_snapshots tb)"

fun op_ok :: "table_def \<Rightarrow> buffer_op \<Rightarrow> bool" where
  "op_ok td (BufferChunk t rows) = (rows \<noteq> [] \<and> list_all (row_ok td) rows)"
| "op_ok td _ = True"

type_synonym shown_rows = "(int \<Rightarrow> row list) \<times> (int \<Rightarrow> row list)"

fun shown_step :: "buffer_op \<Rightarrow> shown_rows \<Rightarrow> shown_rows" where
  "shown_step (BufferChunk t rows) (s, r) = (s, r(t := r t @ rows))"
| "shown_step (SnapshotBefore m) (s, r) = (\<lambda>t. if t < m then r t else [], \<lambda>t. if t < m then [] else r t)"
| "shown_step ClearSnapshots (s, r) = (\<lambda>_. [], r)"

definition buffer_shows :: "table_def \<Rightarrow> shown_rows \<Rightarrow> table_buffer \<Rightarrow> bool" where
  "buffer_shows td sr tb \<longleftrightarrow> (\<exists>S R. buffer_holds td S R tb \<and> sr = (rows_at S, rows_at R))"

lemma buffer_step_shows:
  assumes "td_ok td" "op_ok td op" "buffer_shows td sr tb"
  shows "\<exists>tb'. buffer_step td op tb = Inr tb' \<and> buffer_shows td (shown_step op sr) tb'"
proof -
  obtain S R where h: "buffer_holds td S R tb" "sr = (rows_at S, rows_at R)" using assms(3) by (auto simp: buffer_shows_def)
  show ?thesis
  proof (cases op)
    case (BufferChunk t rows)
    with buffer_chunk_holds [OF h(1), of rows t] assms(2) obtain tb' R' where
      "buffer_chunk t rows tb = Inr tb'" "buffer_holds td S R' tb'" "rows_at R' = (rows_at R)(t := rows_at R t @ rows)"
      by auto
    moreover then have "buffer_shows td (rows_at S, rows_at R') tb'" unfolding buffer_shows_def by blast
    ultimately show ?thesis using BufferChunk h(2) by simp
  next
    case (SnapshotBefore m)
    from table_snapshot_holds [OF assms(1) h(1), of m] obtain scs tb' where
      t: "table_snapshot td m tb = Inr (scs, tb')" "buffer_holds td (filter (\<lambda>p. fst p < m) R) (filter (\<lambda>p. \<not> fst p < m) R) tb'"
      by blast
    have "shown_step op sr = (rows_at (filter (\<lambda>p. fst p < m) R), rows_at (filter (\<lambda>p. \<not> fst p < m) R))"
      using SnapshotBefore h(2) rows_at_filter [of "\<lambda>k. k < m" R] rows_at_filter [of "\<lambda>k. \<not> k < m" R] by (auto simp: fun_eq_iff)
    with t SnapshotBefore show ?thesis unfolding buffer_shows_def by auto
  next
    case ClearSnapshots
    with h have "buffer_holds td [] R (clear_snapshots tb)" by (auto simp: buffer_holds_def clear_snapshots_def)
    moreover have "shown_step op sr = (rows_at [], rows_at R)" using ClearSnapshots h(2) by (auto simp: fun_eq_iff)
    ultimately show ?thesis using ClearSnapshots unfolding buffer_shows_def by auto
  qed
qed

lemma buffer_run_shows:
  assumes "td_ok td" "list_all (op_ok td) ops"
  shows "\<exists>tb. fold_res (buffer_step td) ops table_buffer_new = Inr tb \<and>
           buffer_shows td (fold shown_step ops (\<lambda>_. [], \<lambda>_. [])) tb"
proof (rule fold_res_holds)
  have "buffer_holds td [] [] table_buffer_new"
    by (auto simp: buffer_holds_def table_buffer_new_def keys_sorted_def intro: exI [of _ "[]"])
  then show "buffer_shows td (fold shown_step [] (\<lambda>_. [], \<lambda>_. [])) table_buffer_new"
    by (auto simp: buffer_shows_def fun_eq_iff intro!: exI [of _ "[]"])
next
  fix ys op todo tb
  assume "ops = ys @ op # todo" "buffer_shows td (fold shown_step ys (\<lambda>_. [], \<lambda>_. [])) tb"
  with buffer_step_shows [OF assms(1), of op] assms(2)
  show "\<exists>tb'. buffer_step td op tb = Inr tb' \<and> buffer_shows td (fold shown_step (ys @ [op]) (\<lambda>_. [], \<lambda>_. [])) tb'" by simp
qed

subsection \<open>Queries\<close>

definition batches_at :: "batches \<Rightarrow> int \<Rightarrow> record_batch list" where
  "batches_at m t = (case map_of m t of None \<Rightarrow> [] | Some (_, v) \<Rightarrow> v)"

definition range_covers :: "batches \<Rightarrow> int \<Rightarrow> row list \<Rightarrow> bool" where
  "range_covers m t rows =
     (case map_of m t of
        None \<Rightarrow> rows = []
      | Some (ts, _) \<Rightarrow> list_all (\<lambda>r. fst ts \<le> row_time r \<and> row_time r \<le> snd ts) rows)"

definition batches_hold :: "table_def \<Rightarrow> pieces \<Rightarrow> batches \<Rightarrow> bool" where
  "batches_hold td ps m \<longleftrightarrow>
     (\<forall>t. list_all2 (\<lambda>p rb. batch_shows td (snd p) rb) (filter (\<lambda>p. fst p = t) ps) (batches_at m t) \<and>
          range_covers m t (rows_at ps t))"

lemma add_batch_holds:
  assumes "batches_hold td ps m" "batch_shows td (snd p) rb"
  shows "batches_hold td (ps @ [p]) (add_batch (fst p) (rows_range (snd p)) rb m)"
  unfolding batches_hold_def
proof (intro allI conjI)
  fix t
  have h: "list_all2 (\<lambda>p rb. batch_shows td (snd p) rb) (filter (\<lambda>p. fst p = t) ps) (batches_at m t)"
      "range_covers m t (rows_at ps t)"
    using assms(1) by (simp_all add: batches_hold_def)
  note look = add_batch_def map_of_entry_upd case_prod_beta
  show "list_all2 (\<lambda>p rb. batch_shows td (snd p) rb) (filter (\<lambda>p. fst p = t) (ps @ [p]))
      (batches_at (add_batch (fst p) (rows_range (snd p)) rb m) t)"
    using h(1) assms(2) by (cases "map_of m t") (auto simp: batches_at_def look intro!: list_all2_appendI)
  have range: "list_all (\<lambda>r. fst (rows_range (snd p)) \<le> row_time r \<and> row_time r \<le> snd (rows_range (snd p))) (snd p)"
    using rows_range_bounds by (auto simp: list_all_iff)
  show "range_covers (add_batch (fst p) (rows_range (snd p)) rb m) t (rows_at (ps @ [p]) t)"
  proof (cases "t = fst p")
    case True
    show ?thesis
    proof (cases "map_of m t")
      case None
      with h(2) True range show ?thesis by (simp add: range_covers_def look timestamp_union_def)
    next
      case (Some x)
      with h(2) True range show ?thesis
        by (auto simp: range_covers_def look timestamp_union_def list_all_iff min.coboundedI1 min.coboundedI2
            max.coboundedI1 max.coboundedI2 split: prod.splits)
    qed
  next
    case False
    with h(2) show ?thesis by (simp add: range_covers_def look)
  qed
qed

lemma fold_res_all2:
  assumes "list_all2 Q xs ys" "I [] s"
    and step: "\<And>zs x y s. Q x y \<Longrightarrow> I zs s \<Longrightarrow> \<exists>s'. f y s = Inr s' \<and> I (zs @ [x]) s'"
  shows "\<exists>s'. fold_res f ys s = Inr s' \<and> I xs s'"
proof -
  have "\<exists>s'. fold_res f ys s = Inr s' \<and> I (zs @ xs) s'" if "I zs s" for zs s
    using assms(1) that
  proof (induction xs ys arbitrary: zs s rule: list_all2_induct)
    case (Cons x xs y ys)
    from step [OF Cons.hyps(1) Cons.prems] obtain s' where "f y s = Inr s'" "I (zs @ [x]) s'" by blast
    with Cons.IH [of "zs @ [x]" s'] show ?case by simp
  qed simp
  from this [OF assms(2)] show ?thesis by simp
qed

lemma list_all2_filter:
  "list_all2 P xs ys \<Longrightarrow> (\<And>x y. P x y \<Longrightarrow> A x = B y) \<Longrightarrow> list_all2 P (filter A xs) (filter B ys)"
  by (induction xs ys rule: list_all2_induct) auto

definition may_match :: "chunk_filter \<Rightarrow> int \<times> row list \<Rightarrow> bool" where
  "may_match flt p = test_time_stamp_min_max flt (fst (rows_range (snd p))) (snd (rows_range (snd p)))"

lemma snapshotting_batches_hold:
  assumes td: "td_ok td" and "list_all2 (piece_taken td) S (tb_snapshotting tb)"
  shows "\<exists>m. snapshotting_batches td flt tb = Inr m \<and> batches_hold td (filter (may_match flt) S) m"
  unfolding snapshotting_batches_def
proof (rule fold_res_all2 [where Q = "piece_taken td"])
  show "list_all2 (piece_taken td) (filter (may_match flt) S)
      (filter (\<lambda>sc. test_time_stamp_min_max flt (fst (sc_timestamp_min_max sc)) (snd (sc_timestamp_min_max sc)))
        (tb_snapshotting tb))"
    by (rule list_all2_filter [OF assms(2)]) (simp add: piece_taken_def may_match_def)
  show "batches_hold td [] []" by (simp add: batches_hold_def batches_at_def range_covers_def)
next
  fix ps p sc m
  assume p: "piece_taken td p sc" and m: "batches_hold td ps m"
  from p snapshot_batch_shows [OF td, of "snd p" sc] obtain rb where
    "snapshot_batch td sc = Inr rb" "batch_shows td (snd p) rb" by (auto simp: piece_taken_def)
  with add_batch_holds [OF m this(2)] p
  show "\<exists>m'. bind_res (snapshot_batch td sc) (\<lambda>rb. Inr (add_batch (sc_chunk_time sc) (sc_timestamp_min_max sc) rb m)) = Inr m' \<and>
      batches_hold td (ps @ [p]) m'" by (simp add: piece_taken_def)
qed

lemma partitioned_record_batches_hold:
  assumes td: "td_ok td" and holds: "buffer_holds td S R tb"
  shows "\<exists>m. partitioned_record_batches td flt tb = Inr (Inr m) \<and>
           batches_hold td (filter (may_match flt) S @ filter (may_match flt) R) m"
proof -
  let ?S = "filter (may_match flt) S" and ?Q = "\<lambda>(p :: int \<times> row list) tc. fst p = fst tc \<and> rows_hold td (snd p) (snd tc)"
  from snapshotting_batches_hold [OF td, of S tb flt] holds obtain m0 where
    m0: "snapshotting_batches td flt tb = Inr m0" "batches_hold td ?S m0" by (auto simp: buffer_holds_def)
  have "\<exists>acc. partitioned_record_batches td flt tb = Inr acc \<and>
      (\<exists>m. acc = Inr m \<and> batches_hold td (?S @ filter (may_match flt) R) m)"
    unfolding partitioned_record_batches_def m0(1)
  proof (rule fold_res_all2 [where Q = ?Q and I = "\<lambda>ps acc. \<exists>m. acc = Inr m \<and> batches_hold td (?S @ ps) m"])
    show "list_all2 ?Q (filter (may_match flt) R)
       (filter (\<lambda>tc. test_time_stamp_min_max flt (mc_timestamp_min (snd tc)) (mc_timestamp_max (snd tc))) (each_chunk tb))"
    proof (rule list_all2_filter [OF buffer_pieces [OF holds]])
      fix p tc
      assume "?Q p tc"
      then have "rows_hold td (snd p) (snd tc)" by simp
      from rows_hold_range(1) [OF this]
      show "may_match flt p = test_time_stamp_min_max flt (mc_timestamp_min (snd tc)) (mc_timestamp_max (snd tc))"
        unfolding may_match_def by (metis fst_conv snd_conv)
    qed
    show "\<exists>m. Inr m0 = Inr m \<and> batches_hold td (?S @ []) m" using m0(2) by simp
  next
    fix ps p tc and acc :: "table_buffer_error + batches"
    assume p: "?Q p tc" and "\<exists>m. acc = Inr m \<and> batches_hold td (?S @ ps) m"
    then obtain m where m: "acc = Inr m" "batches_hold td (?S @ ps) m" by blast
    from p have r: "rows_hold td (snd p) (snd tc)" "fst p = fst tc" by simp_all
    with chunk_record_batch_shows [OF td, of "snd p" "snd tc"] obtain rb where
      rb: "chunk_record_batch td (snd tc) = Inr (Inr rb)" "batch_shows td (snd p) rb" by (auto simp: rows_hold_def)
    with add_batch_holds [OF m(2) rb(2)] m(1) rows_hold_range(2) [OF r(1)] r(2)
    show "\<exists>acc'. mutable_batch td tc acc = Inr acc' \<and> (\<exists>m. acc' = Inr m \<and> batches_hold td (?S @ ps @ [p]) m)"
      by (simp add: mutable_batch_def)
  qed
  then show ?thesis by blast
qed

definition filter_admits :: "chunk_filter \<Rightarrow> int \<Rightarrow> bool" where
  "filter_admits flt x \<longleftrightarrow>
     (case time_lower_bound_ns flt of None \<Rightarrow> True | Some l \<Rightarrow> l \<le> x) \<and>
     (case time_upper_bound_ns flt of None \<Rightarrow> True | Some u \<Rightarrow> x \<le> u)"

lemma admitted_may_match:
  fixes p :: "int \<times> row list"
  assumes "r \<in> set (snd p)" "filter_admits flt (row_time r)"
  shows "may_match flt p"
  using rows_range_bounds [OF assms(1)] assms(2)
  by (auto simp: may_match_def filter_admits_def test_time_stamp_min_max_def split: option.splits)

lemma rows_at_may_match:
  "mset (rows_at (filter (may_match flt) ps) t) \<subseteq># mset (rows_at ps t)"
  "r \<in> set (rows_at ps t) \<Longrightarrow> filter_admits flt (row_time r) \<Longrightarrow> r \<in> set (rows_at (filter (may_match flt) ps) t)"
  "flt = chunk_filter_default \<Longrightarrow> filter (may_match flt) ps = ps"
proof -
  show "mset (rows_at (filter (may_match flt) ps) t) \<subseteq># mset (rows_at ps t)"
    by (induction ps) (auto intro: subset_mset.add_mono subset_mset.add_increasing)
  show "r \<in> set (rows_at ps t) \<Longrightarrow> filter_admits flt (row_time r) \<Longrightarrow> r \<in> set (rows_at (filter (may_match flt) ps) t)"
    by (induction ps) (auto dest: admitted_may_match)
  show "flt = chunk_filter_default \<Longrightarrow> filter (may_match flt) ps = ps"
    by (simp add: may_match_def test_time_stamp_min_max_def chunk_filter_default_def)
qed

section \<open>Properties\<close>


definition demo_td :: table_def where
  "demo_td = \<lparr> td_schema = [(''host'', CTag), (''time'', CTimestamp), (''used'', CField IInteger)],
               td_columns = [(0, ''host'', CTag), (1, ''used'', CField IInteger), (2, ''time'', CTimestamp)],
               td_series_key = [''host''] \<rparr>"

definition demo_row :: "int \<Rightarrow> int \<Rightarrow> row" where
  "demo_row t v = \<lparr> row_time = t, row_fields =
     [\<lparr> field_id = 0, field_val = FTag ''a'' \<rparr>, \<lparr> field_id = 1, field_val = FInteger v \<rparr>,
      \<lparr> field_id = 2, field_val = FTimestamp t \<rparr>] \<rparr>"

definition bare_row :: "int \<Rightarrow> row" where
  "bare_row t = \<lparr> row_time = t, row_fields = [\<lparr> field_id = 2, field_val = FTimestamp t \<rparr>] \<rparr>"

lemmas demo_row_simps =
  demo_td_def demo_row_def bare_row_def row_ok_def td_ok_def td_type_def times_of_def List.map_filter_def

definition demo_calls :: "buffer_op list" where
  "demo_calls = [BufferChunk 0 [bare_row 5], BufferChunk 0 [demo_row 7 1, bare_row 6], BufferChunk 10 [demo_row 12 2],
     SnapshotBefore 10, BufferChunk 0 [demo_row 3 4]]"


lemma res_map_fails: "x \<in> set xs \<Longrightarrow> f x = Inl e \<Longrightarrow> \<exists>e'. res_map f xs = Inl e'"
  by (induction xs) (auto simp: bind_res_def split: sum.splits)

lemma fold_res_fails: "x \<in> set xs \<Longrightarrow> (\<And>s. \<exists>e. f x s = Inl e) \<Longrightarrow> \<exists>e. fold_res f xs s = Inl e"
proof (induction xs arbitrary: s)
  case (Cons y ys)
  then show ?case by (cases "f y s") (auto, metis Inl_Inr_False)
qed simp

lemma mutable_batches_after_error: "fold_res (mutable_batch td) tcs (Inl e) = Inr (Inl e)"
  by (induction tcs) (simp_all add: mutable_batch_def)


definition wider_td :: table_def where
  "wider_td = \<lparr> td_schema = [(''host'', CTag), (''temp'', CField IFloat), (''time'', CTimestamp), (''used'', CField IInteger)],
     td_columns = [(0, ''host'', CTag), (1, ''used'', CField IInteger), (2, ''time'', CTimestamp), (3, ''temp'', CField IFloat)],
     td_series_key = [''host''] \<rparr>"

lemmas buffer_run_simps =
  buffer_chunk_def would_exceed_limit_with_def incoming_per_column_def count_bytes_def string_bytes_def
  table_buffer_new_def mutable_table_chunk_new_def add_rows_def add_row_def add_field_def append_value_def
  table_snapshot_def each_chunk_def snapshot_one_def chunk_timestamp_min_max_def timestamp_min_max_new_def
  into_schema_record_batch_def column_id_to_name_def schema_builds_def record_batch_try_new_def column_fits_def
  demo_td_def bare_row_def i64_max_def i64_min_def


lemma fold_range_last:
  assumes "list_all (\<lambda>x. i64_min \<le> fst x \<and> fst x \<le> snd x) xs" "fst acc = i64_min" "i64_min \<le> snd acc"
  shows "foldl timestamp_min_max_step acc (xs @ [y]) = (i64_min, max (fst y) (snd y))"
  using assms
proof (induction xs arbitrary: acc)
  case Nil
  then show ?case by (simp add: timestamp_min_max_step_def case_prod_beta)
next
  case (Cons x xs)
  have "timestamp_min_max_step acc x = (i64_min, snd x)"
    using Cons.prems by (simp add: timestamp_min_max_step_def case_prod_beta max_def)
  with Cons.IH [of "(i64_min, snd x)"] Cons.prems show ?case by auto
qed

text \<open>
  The time range of a buffer is not that of its rows: whatever the chunks hold, it starts at the
  smallest timestamp there is and ends at the end of the last chunk alone. So a row of an earlier
  chunk can lie outside it, and a query that tests the range first skips the whole buffer.
\<close>

theorem buffer_range_is_last_chunk:
  assumes "each_chunk tb = tcs @ [(t, c)]" "tb_snapshotting tb = []"
    and "list_all (\<lambda>(_, c). i64_min \<le> mc_timestamp_min c \<and> mc_timestamp_min c \<le> mc_timestamp_max c) (each_chunk tb)"
  shows "buffer_timestamp_min_max tb = Inr (i64_min, mc_timestamp_max c)"
proof -
  let ?r = "\<lambda>(_, c). (mc_timestamp_min c, mc_timestamp_max c)"
  have "tb_chunks tb \<noteq> []" using assms(1) by (auto simp: each_chunk_def)
  moreover have "foldl timestamp_min_max_step (i64_max, i64_min) (map ?r (each_chunk tb)) = (i64_min, mc_timestamp_max c)"
  proof (cases tcs)
    case Nil
    with assms(1,3) show ?thesis by (simp add: timestamp_min_max_step_def i64_max_def i64_min_def max_def)
  next
    case (Cons x tcs')
    have "timestamp_min_max_step (i64_max, i64_min) (?r x) = (i64_min, snd (?r x))"
      using assms(1,3) Cons by (auto simp: timestamp_min_max_step_def case_prod_beta max_def i64_max_def i64_min_def)
    with fold_range_last [of "map ?r tcs'" "(i64_min, snd (?r x))" "?r (t, c)"] assms(1,3) Cons
    show ?thesis by (auto simp: list_all_iff case_prod_beta)
  qed
  moreover have "i64_min \<le> mc_timestamp_max c" using assms(1,3) by auto
  ultimately show ?thesis
    using assms(2) unfolding buffer_timestamp_min_max_def by (simp add: timestamp_min_max_new_def)
qed

definition long_row :: "int \<Rightarrow> row" where
  "long_row t = \<lparr> row_time = t, row_fields =
     [\<lparr> field_id = 0, field_val = FTag (replicate ARROW_VAR_COL_MAX_BYTES CHR ''x'') \<rparr>,
      \<lparr> field_id = 2, field_val = FTimestamp t \<rparr>] \<rparr>"

theorem buffer_range_is_last_chunk_witness:
  "\<exists>tb. fold_res (buffer_step demo_td) [BufferChunk 0 [long_row 9], BufferChunk 0 [demo_row 5 1]] table_buffer_new = Inr tb \<and>
     buffer_timestamp_min_max tb = Inr (i64_min, 5) \<and>
     \<not> test_time_stamp_min_max \<lparr> time_lower_bound_ns = Some 8, time_upper_bound_ns = None \<rparr> i64_min 5"
proof -
  have pos: "0 < ARROW_VAR_COL_MAX_BYTES" by (simp add: ARROW_VAR_COL_MAX_BYTES_def)
  obtain tb where tb: "fold_res (buffer_step demo_td) [BufferChunk 0 [long_row 9], BufferChunk 0 [demo_row 5 1]] table_buffer_new = Inr tb"
    and chunks: "map (\<lambda>(t, c). (t, mc_timestamp_min c, mc_timestamp_max c)) (each_chunk tb) = [(0, 9, 9), (0, 5, 5)]"
      "tb_snapshotting tb = []"
    by (simp add: buffer_run_simps long_row_def demo_row_def Let_def)
  then obtain c d where e: "each_chunk tb = [(0, c)] @ [(0, d)]" "mc_timestamp_min c = 9" "mc_timestamp_max c = 9"
      "mc_timestamp_min d = 5" "mc_timestamp_max d = 5"
    by (auto simp: map_eq_Cons_conv)
  from buffer_range_is_last_chunk [OF e(1) chunks(2)] e have "buffer_timestamp_min_max tb = Inr (i64_min, 5)"
    by (simp add: i64_min_def)
  with tb show ?thesis by (simp add: test_time_stamp_min_max_def)
qed

end
