(* ===== verification/Paths.thy ===== *)
theory Paths
  imports Object_Store Persisted_Files
begin

text \<open>
  The object names of the write path (influxdb3_write/src/paths.rs): where parquet files, table
  indices, snapshot manifests, compaction manifests and checkpoints live, and how the names are
  read back. A regular expression of the source is the segment-wise match it describes; its \<open>\d\<close> is
  an ASCII digit here, and names have no line breaks. The lemmas show that names read back, identify
  and order what they name.
\<close>

datatype path_error =
    PathInvalidFormat string string
  | InvalidDbId string
  | InvalidTableId string
  | InvalidSequenceNumber string string

definition PARQUET_FILE_EXTENSION :: string where "PARQUET_FILE_EXTENSION = ''parquet''"
definition SNAPSHOT_INFO_FILE_EXTENSION :: string where "SNAPSHOT_INFO_FILE_EXTENSION = ''info.json''"
definition COMPACTION_INFO_FILE_EXTENSION :: string where "COMPACTION_INFO_FILE_EXTENSION = ''compaction.json''"
definition CHECKPOINT_FILE_EXTENSION :: string where "CHECKPOINT_FILE_EXTENSION = ''checkpoint.json''"

lemmas extension_defs =
  PARQUET_FILE_EXTENSION_def SNAPSHOT_INFO_FILE_EXTENSION_def COMPACTION_INFO_FILE_EXTENSION_def
  CHECKPOINT_FILE_EXTENSION_def

definition object_store_file_stem :: "nat \<Rightarrow> nat" where
  "object_store_file_stem n = u64_max - n"

section \<open>Parquet files\<close>

text \<open>\<open>date_string\<close> is chrono's rendering of the chunk time as \<open>%Y-%m-%d/%H-%M\<close> in UTC.\<close>

definition parquet_file_path_with_chunk_ordinal ::
    "path_api \<Rightarrow> (int \<Rightarrow> string) \<Rightarrow> string \<Rightarrow> nat \<Rightarrow> nat \<Rightarrow> int \<Rightarrow> nat \<Rightarrow> nat \<Rightarrow> string" where
  "parquet_file_path_with_chunk_ordinal pa date_string host_prefix db_id table_id chunk_time wal_seq chunk_ordinal =
     (let ordinal_suffix = (if chunk_ordinal = 0 then [] else ''-'' @ show_nat chunk_ordinal)
      in path_from pa (host_prefix @ ''/dbs/'' @ show_nat db_id @ ''/'' @ show_nat table_id @ ''/'' @
           date_string chunk_time @ ''/'' @ pad0 10 wal_seq @ ordinal_suffix @ ''.'' @ PARQUET_FILE_EXTENSION))"

definition parquet_file_path ::
    "path_api \<Rightarrow> (int \<Rightarrow> string) \<Rightarrow> string \<Rightarrow> nat \<Rightarrow> nat \<Rightarrow> int \<Rightarrow> nat \<Rightarrow> string" where
  "parquet_file_path pa date_string host_prefix db_id table_id chunk_time wal_seq =
     parquet_file_path_with_chunk_ordinal pa date_string host_prefix db_id table_id chunk_time wal_seq 0"

section \<open>Table indices\<close>

definition table_index_conversion_completed_path :: "path_api \<Rightarrow> string \<Rightarrow> string" where
  "table_index_conversion_completed_path pa host_prefix =
     path_from pa (host_prefix @ ''/table-index-conversion-completed'')"

definition table_index_snapshot_path :: "path_api \<Rightarrow> string \<Rightarrow> nat \<Rightarrow> nat \<Rightarrow> nat \<Rightarrow> string" where
  "table_index_snapshot_path pa host_prefix db_id table_id seq =
     path_from pa (host_prefix @ ''/table-snapshots/'' @ show_nat db_id @ ''/'' @ show_nat table_id @ ''/'' @
       pad0 20 seq @ ''.'' @ SNAPSHOT_INFO_FILE_EXTENSION)"

definition table_index_snapshot_dir :: "path_api \<Rightarrow> string \<Rightarrow> string" where
  "table_index_snapshot_dir pa host_prefix = path_from pa (host_prefix @ ''/table-snapshots'')"

definition table_index_snapshot_prefix :: "path_api \<Rightarrow> string \<Rightarrow> nat \<Rightarrow> nat \<Rightarrow> string" where
  "table_index_snapshot_prefix pa host_prefix db_id table_id =
     path_from pa (host_prefix @ ''/table-snapshots/'' @ show_nat db_id @ ''/'' @ show_nat table_id @ ''/'')"

definition table_index_all_snapshots_prefix :: "path_api \<Rightarrow> string \<Rightarrow> string" where
  "table_index_all_snapshots_prefix pa host_prefix = path_from pa (host_prefix @ ''/table-snapshots/'')"

definition last_segment :: "string \<Rightarrow> string" where
  "last_segment filename = last (split_on (CHR ''/'') filename)"

definition table_index_parse_sequence_number :: "string \<Rightarrow> nat option" where
  "table_index_parse_sequence_number filename =
     Option.bind (strip_suffix ''.info.json'' (last_segment filename)) (parse_uint u64_max)"

record table_index_id =
  ti_node_id :: string
  ti_db_id :: nat
  ti_table_id :: nat

text \<open>The same code reads the table of an index path and of a table snapshot path.\<close>

definition full_table_id :: "path_api \<Rightarrow> string \<Rightarrow> table_index_id panicking" where
  "full_table_id pa path =
     (case path_parts pa path of
        [] \<Rightarrow> Inl (Panic ''constructors ensure there is a valid node id'')
      | node_id # parts \<Rightarrow>
          (case Option.bind (case drop 1 parts of [] \<Rightarrow> None | d # _ \<Rightarrow> Some d) (parse_uint (2 ^ 32 - 1)) of
             None \<Rightarrow> Inl (Panic ''constructors ensure there is a valid db id'')
           | Some db_id \<Rightarrow>
               (case Option.bind (case drop 2 parts of [] \<Rightarrow> None | t # _ \<Rightarrow> Some t) (parse_uint (2 ^ 32 - 1)) of
                  None \<Rightarrow> Inl (Panic ''constructors ensure there is a valid table id'')
                | Some table_id \<Rightarrow> Inr \<lparr> ti_node_id = node_id, ti_db_id = db_id, ti_table_id = table_id \<rparr>)))"

text \<open>\<open>^.*/table-snapshots/(\d+)/(\d+)/(\d{20})\.info\.json$\<close> and \<open>^.*/db-indices/(\d+)/(\d+)/index\.info\.json$\<close>.\<close>

definition is_digits20 :: "string \<Rightarrow> string \<Rightarrow> bool" where
  "is_digits20 suf filename =
     (case strip_suffix suf filename of None \<Rightarrow> False | Some s \<Rightarrow> length s = 20 \<and> list_all is_digit s)"

definition table_snapshot_captures :: "string \<Rightarrow> (string \<times> string) option" where
  "table_snapshot_captures path =
     (case rev (split_on (CHR ''/'') path) of
        filename # t # d # dir # _ # _ \<Rightarrow>
          if dir = ''table-snapshots'' \<and> all_digits d \<and> all_digits t \<and> is_digits20 ''.info.json'' filename
          then Some (d, t) else None
      | _ \<Rightarrow> None)"

definition table_index_captures :: "string \<Rightarrow> (string \<times> string) option" where
  "table_index_captures path =
     (case rev (split_on (CHR ''/'') path) of
        filename # t # d # dir # _ # _ \<Rightarrow>
          if dir = ''db-indices'' \<and> all_digits d \<and> all_digits t \<and> filename = ''index.info.json''
          then Some (d, t) else None
      | _ \<Rightarrow> None)"

definition table_index_snapshot_try_from :: "string \<Rightarrow> path_error + string" where
  "table_index_snapshot_try_from path =
     (case table_snapshot_captures path of
        None \<Rightarrow> Inl (PathInvalidFormat ''*/table-snapshots/<db_id>/<table_id>/<20-digits>.info.json'' path)
      | Some (d, t) \<Rightarrow>
          if parse_uint (2 ^ 32 - 1) d = None then Inl (InvalidDbId path)
          else if parse_uint (2 ^ 32 - 1) t = None then Inl (InvalidTableId path)
          else if table_index_parse_sequence_number (last_segment path) = None
          then Inl (InvalidSequenceNumber ''table snapshot'' (last_segment path))
          else Inr path)"

definition table_index_path :: "path_api \<Rightarrow> string \<Rightarrow> nat \<Rightarrow> nat \<Rightarrow> string" where
  "table_index_path pa host_prefix db_id table_id =
     path_from pa (host_prefix @ ''/db-indices/'' @ show_nat db_id @ ''/'' @ show_nat table_id @ ''/index.'' @
       SNAPSHOT_INFO_FILE_EXTENSION)"

definition table_index_db_prefix :: "path_api \<Rightarrow> string \<Rightarrow> nat \<Rightarrow> string" where
  "table_index_db_prefix pa host_prefix db_id = path_from pa (host_prefix @ ''/db-indices/'' @ show_nat db_id)"

definition all_db_indices_prefix :: "path_api \<Rightarrow> string \<Rightarrow> string" where
  "all_db_indices_prefix pa host_prefix = path_from pa (host_prefix @ ''/db-indices'')"

definition table_index_try_from :: "string \<Rightarrow> path_error + string" where
  "table_index_try_from path =
     (case table_index_captures path of
        None \<Rightarrow> Inl (PathInvalidFormat ''*/db-indices/<db_id>/<table_id>/index.info.json'' path)
      | Some (d, t) \<Rightarrow>
          if parse_uint (2 ^ 32 - 1) d = None then Inl (InvalidDbId path)
          else if parse_uint (2 ^ 32 - 1) t = None then Inl (InvalidTableId path)
          else Inr path)"

section \<open>Snapshot manifests, compaction manifests, checkpoints\<close>

definition snapshot_info_file_path :: "path_api \<Rightarrow> string \<Rightarrow> nat \<Rightarrow> string" where
  "snapshot_info_file_path pa host_prefix seq =
     path_from pa (host_prefix @ ''/snapshots/'' @ pad0 20 (object_store_file_stem seq) @ ''.'' @
       SNAPSHOT_INFO_FILE_EXTENSION)"

definition snapshot_info_dir :: "path_api \<Rightarrow> string \<Rightarrow> string" where
  "snapshot_info_dir pa host_prefix = path_from pa (host_prefix @ ''/snapshots'')"

definition snapshot_parse_sequence_number :: "string \<Rightarrow> nat option" where
  "snapshot_parse_sequence_number filename =
     map_option (\<lambda>inverted. u64_max - inverted)
       (Option.bind (strip_suffix ''.info.json'' (last_segment filename)) (parse_uint u64_max))"

text \<open>\<open>^.*/snapshots/(\d{20})\.info\.json$\<close>\<close>

definition snapshot_info_is_match :: "string \<Rightarrow> bool" where
  "snapshot_info_is_match path =
     (case rev (split_on (CHR ''/'') path) of
        filename # dir # _ # _ \<Rightarrow> dir = ''snapshots'' \<and> is_digits20 ''.info.json'' filename
      | _ \<Rightarrow> False)"

definition snapshot_info_try_from :: "string \<Rightarrow> path_error + string" where
  "snapshot_info_try_from path =
     (if \<not> snapshot_info_is_match path
      then Inl (PathInvalidFormat ''*/snapshots/<20-digits>.info.json'' path)
      else if snapshot_parse_sequence_number (last_segment path) = None
      then Inl (InvalidSequenceNumber ''snapshot'' (last_segment path))
      else Inr path)"

definition compaction_info_file_path :: "path_api \<Rightarrow> string \<Rightarrow> string \<Rightarrow> string" where
  "compaction_info_file_path pa host_prefix compaction_id =
     path_from pa (host_prefix @ ''/compactions/'' @ compaction_id @ ''.'' @ COMPACTION_INFO_FILE_EXTENSION)"

definition compaction_info_dir :: "path_api \<Rightarrow> string \<Rightarrow> string" where
  "compaction_info_dir pa host_prefix = path_from pa (host_prefix @ ''/compactions'')"

definition snapshot_checkpoint_path :: "path_api \<Rightarrow> string \<Rightarrow> year_month \<Rightarrow> nat \<Rightarrow> string" where
  "snapshot_checkpoint_path pa host_prefix ym seq =
     path_from pa (host_prefix @ ''/snapshot-checkpoints/'' @ year_month_display ym @ ''/'' @
       pad0 20 (object_store_file_stem seq) @ ''.'' @ CHECKPOINT_FILE_EXTENSION)"

definition snapshot_checkpoint_dir :: "path_api \<Rightarrow> string \<Rightarrow> string" where
  "snapshot_checkpoint_dir pa host_prefix = path_from pa (host_prefix @ ''/snapshot-checkpoints'')"

definition snapshot_checkpoint_month_dir :: "path_api \<Rightarrow> string \<Rightarrow> year_month \<Rightarrow> string" where
  "snapshot_checkpoint_month_dir pa host_prefix ym =
     path_from pa (host_prefix @ ''/snapshot-checkpoints/'' @ year_month_display ym @ ''/'')"

text \<open>\<open>^.*/snapshot-checkpoints/(\d{4}-\d{2})/(\d{20})\.checkpoint\.json$\<close>\<close>

definition is_year_month :: "string \<Rightarrow> bool" where
  "is_year_month s \<longleftrightarrow>
     length s = 7 \<and> list_all is_digit (take 4 s) \<and> s ! 4 = CHR ''-'' \<and> list_all is_digit (drop 5 s)"

definition checkpoint_captures :: "string \<Rightarrow> string option" where
  "checkpoint_captures path =
     (case rev (split_on (CHR ''/'') path) of
        filename # ym # dir # _ # _ \<Rightarrow>
          if dir = ''snapshot-checkpoints'' \<and> is_year_month ym \<and> is_digits20 ''.checkpoint.json'' filename
          then Some ym else None
      | _ \<Rightarrow> None)"

definition checkpoint_parse_year_month :: "string \<Rightarrow> year_month option" where
  "checkpoint_parse_year_month path =
     Option.bind (checkpoint_captures path)
       (\<lambda>s. case year_month_from_str s of Inl _ \<Rightarrow> None | Inr ym \<Rightarrow> Some ym)"

definition checkpoint_parse_sequence_number :: "string \<Rightarrow> nat option" where
  "checkpoint_parse_sequence_number filename =
     map_option (\<lambda>inverted. u64_max - inverted)
       (Option.bind (strip_suffix ''.checkpoint.json'' (last_segment filename)) (parse_uint u64_max))"

definition snapshot_checkpoint_try_from :: "string \<Rightarrow> path_error + string" where
  "snapshot_checkpoint_try_from path =
     (if checkpoint_captures path = None
      then Inl (PathInvalidFormat ''*/snapshot-checkpoints/<YYYY-MM>/<20-digits>.checkpoint.json'' path)
      else if checkpoint_parse_sequence_number (last_segment path) = None
      then Inl (InvalidSequenceNumber ''snapshot checkpoint'' (last_segment path))
      else Inr path)"

section \<open>Names in order\<close>

lemma sorted_le_last: "sorted xs \<Longrightarrow> x \<in> set xs \<Longrightarrow> x \<le> last xs"
  by (induction xs) auto

text \<open>
  Snapshot manifests and checkpoints are numbered downwards, so that a listing in name order gives
  the newest first. What a reader relies on is the same for all of them.
\<close>

locale newest_first =
  fixes name :: "nat \<Rightarrow> string" and read :: "string \<Rightarrow> nat option"
  assumes read_name: "n \<le> u64_max \<Longrightarrow> read (name n) = Some n"
    and name_less: "m \<le> u64_max \<Longrightarrow> n \<le> u64_max \<Longrightarrow> name m < name n \<longleftrightarrow> n < m"
begin

lemma sort_names:
  assumes "\<forall>n \<in> set ns. n \<le> u64_max"
  shows "sort (map name ns) = map name (rev (sort ns))"
proof (rule properties_for_sort)
  have "sorted_wrt (\<lambda>m n. name m \<le> name n) (rev (sort ns))"
  proof (rule sorted_wrt_mono_rel [of _ "\<lambda>m n. n \<le> m"])
    fix m n
    assume "m \<in> set (rev (sort ns))" "n \<in> set (rev (sort ns))" "n \<le> m"
    then show "name m \<le> name n" using assms name_less [of n m] by (simp add: not_less [symmetric])
  qed (simp add: sorted_wrt_rev)
  then show "sorted (map name (rev (sort ns)))" by (simp add: sorted_map)
qed (simp add: mset_map)

lemma newest_is_first:
  assumes "ns \<noteq> []" "\<forall>n \<in> set ns. n \<le> u64_max"
  shows "read (hd (sort (map name ns))) = Some (Max (set ns))"
proof -
  have "sort ns \<noteq> []" using assms(1) by (metis set_empty set_sort)
  then have "hd (map name (rev (sort ns))) = name (last (sort ns))" by (simp add: hd_map hd_rev)
  moreover have "last (sort ns) = Max (set ns)"
    using sorted_le_last [of "sort ns"] last_in_set [OF \<open>sort ns \<noteq> []\<close>] by (intro Max_eqI [symmetric]) auto
  moreover have "Max (set ns) \<le> u64_max" using assms by simp
  ultimately show ?thesis using sort_names [OF assms(2)] read_name by simp
qed

end

lemma pad0_20:
  assumes "n \<le> u64_max"
  shows "length (pad0 20 n) = 20" "list_all is_digit (pad0 20 n)"
  using assms by (auto intro!: length_pad0 simp: u64_max_def pad0_digits)

lemma plain_seg_simps [simp]:
  "plain_seg ''snapshots''" "plain_seg ''snapshot-checkpoints''" "plain_seg ''table-snapshots''"
  "plain_seg ''db-indices''" "plain_seg ''index.info.json''" "plain_seg ''dbs''" "plain_seg ''compactions''"
  by (simp_all add: plain_seg_def plain_char_def is_digit_def)

lemma plain_digits: "list_all is_digit s \<Longrightarrow> s \<noteq> [] \<Longrightarrow> plain_seg s"
  by (cases s) (auto simp: plain_seg_def plain_char_digit list_all_iff is_digit_def)

lemma plain_show_nat [simp]: "plain_seg (show_nat n)"
  by (simp add: plain_digits show_nat_digits)

lemma plain_numbered [simp]:
  "plain_seg (pad0 w n @ ''.info.json'')" "plain_seg (pad0 w n @ ''.checkpoint.json'')"
  by (rule plain_seg_pad0; simp add: plain_char_def is_digit_def)+

lemma last_segment_plain: "plain_seg s \<Longrightarrow> last_segment s = s"
  by (simp add: last_segment_def split_on_none plain_seg_no_slash)

lemma stem_le: "object_store_file_stem n \<le> u64_max"
  by (simp add: object_store_file_stem_def)

locale layout =
  fixes pa :: path_api and host :: string
  assumes pa_ok: "path_api_ok pa" and host_ok: "plain_seg host"
begin

lemma snapshot_info_join:
  "snapshot_info_file_path pa host n = join_path [host, ''snapshots'', pad0 20 (object_store_file_stem n) @ ''.info.json'']"
  using path_api_okD(1) [OF pa_ok, of "[host, ''snapshots'', pad0 20 (object_store_file_stem n) @ ''.info.json'']"] host_ok
  by (simp add: snapshot_info_file_path_def extension_defs)

lemma snapshot_info_segments:
  "split_on (CHR ''/'') (snapshot_info_file_path pa host n) =
     [host, ''snapshots'', pad0 20 (object_store_file_stem n) @ ''.info.json'']"
  unfolding snapshot_info_join by (rule split_join_path) (simp_all add: host_ok)

lemma table_snapshot_join:
  "table_index_snapshot_path pa host d t n =
     join_path [host, ''table-snapshots'', show_nat d, show_nat t, pad0 20 n @ ''.info.json'']"
  using path_api_okD(1) [OF pa_ok, of "[host, ''table-snapshots'', show_nat d, show_nat t, pad0 20 n @ ''.info.json'']"]
    host_ok
  by (simp add: table_index_snapshot_path_def extension_defs)

lemma table_index_join:
  "table_index_path pa host d t = join_path [host, ''db-indices'', show_nat d, show_nat t, ''index.info.json'']"
  using path_api_okD(1) [OF pa_ok, of "[host, ''db-indices'', show_nat d, show_nat t, ''index.info.json'']"] host_ok
  by (simp add: table_index_path_def extension_defs)

lemma table_index_segments:
  "split_on (CHR ''/'') (table_index_path pa host d t) = [host, ''db-indices'', show_nat d, show_nat t, ''index.info.json'']"
  "split_on (CHR ''/'') (table_index_snapshot_path pa host d t n) =
     [host, ''table-snapshots'', show_nat d, show_nat t, pad0 20 n @ ''.info.json'']"
  unfolding table_index_join table_snapshot_join
  by (rule split_join_path; simp add: host_ok)+

lemma table_parts:
  "path_parts pa (table_index_path pa host d t) = [host, ''db-indices'', show_nat d, show_nat t, ''index.info.json'']"
  "path_parts pa (table_index_snapshot_path pa host d t n) =
     [host, ''table-snapshots'', show_nat d, show_nat t, pad0 20 n @ ''.info.json'']"
  unfolding table_index_join table_snapshot_join
  by (rule path_api_okD(2) [OF pa_ok]; simp add: host_ok)+

end

lemma inverted_less:
  "m \<le> u64_max \<Longrightarrow> n \<le> u64_max \<Longrightarrow>
   pad0 20 (object_store_file_stem m) < pad0 20 (object_store_file_stem n) \<longleftrightarrow> n < m"
  by (subst pad0_less) (auto simp: object_store_file_stem_def u64_max_def)

lemma is_digits20_name: "n \<le> u64_max \<Longrightarrow> is_digits20 suf (pad0 20 n @ suf)"
  by (simp add: is_digits20_def pad0_20)

sublocale layout \<subseteq> snapshot_names: newest_first "snapshot_info_file_path pa host" snapshot_parse_sequence_number
proof
  fix n :: nat
  assume "n \<le> u64_max"
  then show "snapshot_parse_sequence_number (snapshot_info_file_path pa host n) = Some n"
    using snapshot_info_segments [of n] stem_le [of n]
    by (simp add: snapshot_parse_sequence_number_def last_segment_def object_store_file_stem_def)
next
  fix m n :: nat
  assume mn: "m \<le> u64_max" "n \<le> u64_max"
  have "length (pad0 20 (object_store_file_stem m)) = length (pad0 20 (object_store_file_stem n))"
    by (simp add: pad0_20 stem_le)
  from less_append_same_length [OF this, of "''.info.json''"]
  show "snapshot_info_file_path pa host m < snapshot_info_file_path pa host n \<longleftrightarrow> n < m"
    unfolding snapshot_info_join by (simp add: append_less_same inverted_less [OF mn])
qed

context layout
begin

lemmas snapshots_sorted = snapshot_names.sort_names
lemmas newest_snapshot_first = snapshot_names.newest_is_first

end

locale month_layout = layout +
  fixes ym :: year_month
  assumes ym_ok: "year ym \<le> 9999" "1 \<le> month ym" "month ym \<le> 12"
begin

lemma display_digits:
  "year_month_display ym = pad0 4 (year ym) @ CHR ''-'' # pad0 2 (month ym)"
  "length (pad0 4 (year ym)) = 4" "length (pad0 2 (month ym)) = 2"
  using ym_ok by (auto simp: year_month_display_def intro!: length_pad0)

lemma plain_display: "plain_seg (year_month_display ym)"
proof -
  have "list_all plain_char (''-'' @ pad0 2 (month ym))"
    using pad0_digits [of 2 "month ym"] by (auto simp: plain_char_def list_all_iff)
  then show ?thesis using plain_seg_pad0 [of "''-'' @ pad0 2 (month ym)" 4 "year ym"] by (simp add: display_digits(1))
qed

lemma display_is_year_month: "is_year_month (year_month_display ym)"
  using display_digits pad0_digits by (simp add: is_year_month_def nth_append)

lemma checkpoint_join:
  "snapshot_checkpoint_path pa host ym n =
     join_path [host, ''snapshot-checkpoints'', year_month_display ym, pad0 20 (object_store_file_stem n) @ ''.checkpoint.json'']"
  using path_api_okD(1) [OF pa_ok,
      of "[host, ''snapshot-checkpoints'', year_month_display ym, pad0 20 (object_store_file_stem n) @ ''.checkpoint.json'']"]
    host_ok plain_display
  by (simp add: snapshot_checkpoint_path_def extension_defs)

lemma checkpoint_segments:
  "split_on (CHR ''/'') (snapshot_checkpoint_path pa host ym n) =
     [host, ''snapshot-checkpoints'', year_month_display ym, pad0 20 (object_store_file_stem n) @ ''.checkpoint.json'']"
  unfolding checkpoint_join by (rule split_join_path) (simp_all add: host_ok plain_display)

end

sublocale month_layout \<subseteq> checkpoint_names:
  newest_first "snapshot_checkpoint_path pa host ym" checkpoint_parse_sequence_number
proof
  fix n :: nat
  assume "n \<le> u64_max"
  then show "checkpoint_parse_sequence_number (snapshot_checkpoint_path pa host ym n) = Some n"
    using checkpoint_segments [of n] stem_le [of n]
    by (simp add: checkpoint_parse_sequence_number_def last_segment_def object_store_file_stem_def)
next
  fix m n :: nat
  assume mn: "m \<le> u64_max" "n \<le> u64_max"
  have "length (pad0 20 (object_store_file_stem m)) = length (pad0 20 (object_store_file_stem n))"
    by (simp add: pad0_20 stem_le)
  from less_append_same_length [OF this, of "''.checkpoint.json''"]
  show "snapshot_checkpoint_path pa host ym m < snapshot_checkpoint_path pa host ym n \<longleftrightarrow> n < m"
    unfolding checkpoint_join by (simp add: append_less_same inverted_less [OF mn])
qed

context month_layout
begin

lemmas checkpoints_sorted = checkpoint_names.sort_names
lemmas newest_checkpoint_first = checkpoint_names.newest_is_first

end

text \<open>The layout on plain paths, where construction leaves the name alone.\<close>

interpretation plain_layout: month_layout plain_paths "''node''" "YearMonth 2026 1"
  by unfold_locales (simp_all add: plain_paths_ok plain_seg_def plain_char_def is_digit_def)

text \<open>What chrono's date format yields: a day and a minute, two plain segments.\<close>

definition date_ok :: "(int \<Rightarrow> string) \<Rightarrow> bool" where
  "date_ok date_string \<longleftrightarrow> (\<forall>t. \<exists>a b. date_string t = a @ CHR ''/'' # b \<and> plain_seg a \<and> plain_seg b)"

definition ordinal_name :: "nat \<Rightarrow> nat \<Rightarrow> string" where
  "ordinal_name seq k = pad0 10 seq @ (if k = 0 then [] else CHR ''-'' # show_nat k)"

lemma ordinal_name_digits:
  "split_once (CHR ''-'') (ordinal_name seq k) = (if k = 0 then None else Some (pad0 10 seq, show_nat k))"
proof -
  have "CHR ''-'' \<notin> set (pad0 10 seq)"
    by (rule digits_not_in [OF pad0_digits]) (simp add: is_digit_def)
  then show ?thesis by (simp add: ordinal_name_def split_once_none split_once_append)
qed

lemma ordinal_name_inject: "ordinal_name m j = ordinal_name n k \<longleftrightarrow> m = n \<and> j = k"
proof
  assume eq: "ordinal_name m j = ordinal_name n k"
  have once: "(if j = 0 then None else Some (pad0 10 m, show_nat j)) = (if k = 0 then None else Some (pad0 10 n, show_nat k))"
    using arg_cong [OF eq, of "split_once (CHR ''-'')"] unfolding ordinal_name_digits .
  show "m = n \<and> j = k"
  proof (cases "j = 0")
    case True
    with once have "k = 0" by (cases "k = 0") simp_all
    with True eq show ?thesis by (simp add: ordinal_name_def pad0_inj)
  next
    case False
    with once have "k \<noteq> 0" "pad0 10 m = pad0 10 n" "show_nat j = show_nat k" by (cases "k = 0"; simp)+
    then show ?thesis by (simp only: pad0_inj show_nat_inj)
  qed
qed simp

lemma plain_parquet_name: "plain_seg (ordinal_name seq k @ ''.parquet'')"
proof -
  have "list_all plain_char ((if k = 0 then [] else CHR ''-'' # show_nat k) @ ''.parquet'')"
    using show_nat_digits [of k] by (auto simp: plain_char_def list_all_iff is_digit_def)
  from plain_seg_pad0 [OF this, of 10 seq] show ?thesis by (simp add: ordinal_name_def)
qed

lemma parquet_path_join:
  assumes "path_api_ok pa" "plain_seg host" "date_string ct = a @ CHR ''/'' # b" "plain_seg a" "plain_seg b"
  shows "parquet_file_path_with_chunk_ordinal pa date_string host d t ct seq k =
           join_path [host, ''dbs'', show_nat d, show_nat t, a, b, ordinal_name seq k @ ''.parquet'']"
proof -
  let ?ss = "[host, ''dbs'', show_nat d, show_nat t, a, b, ordinal_name seq k @ ''.parquet'']"
  have "parquet_file_path_with_chunk_ordinal pa date_string host d t ct seq k = path_from pa (join_path ?ss)"
    by (simp add: parquet_file_path_with_chunk_ordinal_def ordinal_name_def extension_defs Let_def assms(3))
  also have "\<dots> = join_path ?ss"
    by (rule path_api_okD(1) [OF assms(1)]) (simp_all add: assms(2,4,5) plain_parquet_name)
  finally show ?thesis .
qed

lemma parquet_path_inject:
  assumes "path_api_ok pa" "plain_seg host" "date_ok date_string"
    and "parquet_file_path_with_chunk_ordinal pa date_string host d t ct seq k =
         parquet_file_path_with_chunk_ordinal pa date_string host d' t' ct' seq' k'"
  shows "d = d' \<and> t = t' \<and> seq = seq' \<and> k = k' \<and> date_string ct = date_string ct'"
proof -
  obtain a b where ab: "date_string ct = a @ CHR ''/'' # b" "plain_seg a" "plain_seg b"
    using assms(3) unfolding date_ok_def by blast
  obtain a' b' where ab': "date_string ct' = a' @ CHR ''/'' # b'" "plain_seg a'" "plain_seg b'"
    using assms(3) unfolding date_ok_def by blast
  let ?ss = "[host, ''dbs'', show_nat d, show_nat t, a, b, ordinal_name seq k @ ''.parquet'']"
  let ?ss' = "[host, ''dbs'', show_nat d', show_nat t', a', b', ordinal_name seq' k' @ ''.parquet'']"
  have p: "parquet_file_path_with_chunk_ordinal pa date_string host d t ct seq k = join_path ?ss"
    by (rule parquet_path_join) (rule assms(1,2) ab)+
  have p': "parquet_file_path_with_chunk_ordinal pa date_string host d' t' ct' seq' k' = join_path ?ss'"
    by (rule parquet_path_join) (rule assms(1,2) ab')+
  have segs: "split_on (CHR ''/'') (join_path ?ss) = ?ss" "split_on (CHR ''/'') (join_path ?ss') = ?ss'"
    by (rule split_join_path; simp add: assms(2) ab(2,3) ab'(2,3) plain_parquet_name)+
  have "?ss = ?ss'" using arg_cong [OF assms(4), of "split_on (CHR ''/'')"] unfolding p p' segs .
  then show ?thesis by (simp add: show_nat_inj ordinal_name_inject ab(1) ab'(1))
qed

section \<open>Properties\<close>




definition demo_date :: "int \<Rightarrow> string" where "demo_date t = ''2026-01-31/10-20''"


end
