(* ===== verification/Queryable_Buffer.thy ===== *)
theory Queryable_Buffer
  imports Table_Buffer Paths Snapshot_Tracker
begin

text \<open>
  The buffer of all tables a node holds in memory
  (influxdb3_write/src/write_buffer/queryable_buffer.rs): WAL contents are added to the table
  buffers, a snapshot turns the chunks below its marker into persist jobs, and each finished job adds
  its parquet file to the ledger and to the snapshot's manifest. The buffer's lock makes each of
  these one step. The catalog and chrono's date format are parameters, and so is what the sort and
  deduplication of a job leaves; the table name and sort key of a job, which only DataFusion reads,
  and the last-value and distinct-value caches fed on the way are left out.
\<close>

section \<open>Buffering\<close>

type_synonym table_map = "(nat \<times> table_buffer) list"
type_synonym buffer_state = "(nat \<times> table_map) list"

definition buffer_table_chunks :: "nat \<times> table_chunks \<Rightarrow> table_map \<Rightarrow> table_map panicking" where
  "buffer_table_chunks ttc m =
     bind_res (fold_res (\<lambda>(chunk_time, chunk). buffer_chunk chunk_time (chunk_rows chunk))
         (chunk_time_to_chunk (snd ttc)) (the_or table_buffer_new (map_of m (fst ttc)))) (\<lambda>tb.
       Inr (entry_upd (fst ttc) tb (\<lambda>_. tb) m))"

definition buffer_write_batch :: "write_batch \<Rightarrow> buffer_state \<Rightarrow> buffer_state panicking" where
  "buffer_write_batch wb st =
     bind_res (fold_res buffer_table_chunks (wb_table_chunks wb) (the_or [] (map_of st (database_id wb)))) (\<lambda>m.
       Inr (entry_upd (database_id wb) m (\<lambda>_. m) st))"

definition buffer_write_op :: "wal_op \<Rightarrow> buffer_state \<Rightarrow> buffer_state panicking" where
  "buffer_write_op op st = (case op of Write wb \<Rightarrow> buffer_write_batch wb st | Noop _ \<Rightarrow> Inr st)"

definition buffer_write_ops :: "wal_op list \<Rightarrow> buffer_state \<Rightarrow> buffer_state panicking" where
  "buffer_write_ops ops st = fold_res buffer_write_op ops st"

section \<open>Snapshots\<close>

text \<open>What the buffer asks of the catalog.\<close>

record buffer_catalog =
  database_deleted :: "nat \<Rightarrow> bool"
  table_deleted :: "nat \<Rightarrow> nat \<Rightarrow> bool"
  db_table_definition :: "nat \<Rightarrow> (nat \<Rightarrow> table_def option) option"
  cat_sequence_number :: nat

record buffer_env =
  be_paths :: path_api
  be_date_string :: "int \<Rightarrow> string"
  be_node :: string
  be_catalog :: buffer_catalog

record persist_job =
  pj_database_id :: nat
  pj_table_id :: nat
  pj_chunk_time :: int
  pj_path :: string
  pj_batch :: record_batch
  pj_schema :: "(string \<times> influx_column_type) list"
  pj_timestamp_min_max :: "int \<times> int"

fun with_ordinals :: "(int \<times> nat) list \<Rightarrow> snapshot_chunk list \<Rightarrow> (snapshot_chunk \<times> nat) list" where
  "with_ordinals ords [] = []"
| "with_ordinals ords (c # cs) =
     (c, the_or 0 (map_of ords (sc_chunk_time c))) # with_ordinals (entry_upd (sc_chunk_time c) 0 (\<lambda>n. (n + 1) mod 2 ^ 32) ords) cs"

definition persist_job_for ::
    "buffer_env \<Rightarrow> snapshot_details \<Rightarrow> nat \<Rightarrow> nat \<Rightarrow> snapshot_chunk \<times> nat \<Rightarrow> persist_job" where
  "persist_job_for env details d t co =
     (case co of (chunk, chunk_ordinal) \<Rightarrow>
        \<lparr> pj_database_id = d, pj_table_id = t, pj_chunk_time = sc_chunk_time chunk,
          pj_path = parquet_file_path_with_chunk_ordinal (be_paths env) (be_date_string env) (be_node env) d t
                      (sc_chunk_time chunk) (last_wal_sequence_number details) chunk_ordinal,
          pj_batch = sc_record_batch chunk, pj_schema = sc_schema chunk,
          pj_timestamp_min_max = sc_timestamp_min_max chunk \<rparr>)"

definition plan_table ::
    "buffer_env \<Rightarrow> snapshot_details \<Rightarrow> nat \<Rightarrow> (nat \<Rightarrow> table_def option) \<Rightarrow> nat \<times> table_buffer \<Rightarrow>
     (persist_job list \<times> nat \<times> table_buffer) panicking" where
  "plan_table env details d defs ttb =
     (case ttb of (t, tb) \<Rightarrow>
        if table_deleted (be_catalog env) d t then Inr ([], t, tb)
        else case defs t of
            None \<Rightarrow> Inl (Panic ''table exists'')
          | Some td \<Rightarrow>
              bind_res (table_snapshot td (end_time_marker details) tb) (\<lambda>(chunks, tb').
                Inr (map (persist_job_for env details d t) (with_ordinals [] chunks), t, tb')))"

definition plan_db ::
    "buffer_env \<Rightarrow> snapshot_details \<Rightarrow> nat \<times> table_map \<Rightarrow> (persist_job list \<times> nat \<times> table_map) panicking" where
  "plan_db env details dm =
     (case dm of (d, m) \<Rightarrow>
        if database_deleted (be_catalog env) d then Inr ([], d, m)
        else case db_table_definition (be_catalog env) d of
            None \<Rightarrow> Inl (Panic ''db exists'')
          | Some defs \<Rightarrow>
              bind_res (res_map (plan_table env details d defs) m) (\<lambda>planned.
                Inr (concat (map fst planned), d, map snd planned)))"

definition plan_persist_jobs ::
    "buffer_env \<Rightarrow> snapshot_details \<Rightarrow> buffer_state \<Rightarrow> (persist_job list \<times> buffer_state) panicking" where
  "plan_persist_jobs env details st =
     bind_res (res_map (plan_db env details) st) (\<lambda>planned. Inr (concat (map fst planned), map snd planned))"

record queryable_buffer =
  qb_buffer :: buffer_state
  qb_persisted_files :: ledger

definition buffer_wal_contents :: "wal_contents \<Rightarrow> queryable_buffer \<Rightarrow> queryable_buffer panicking" where
  "buffer_wal_contents write qb =
     bind_res (buffer_write_ops (wal_ops write) (qb_buffer qb)) (\<lambda>st. Inr (qb\<lparr> qb_buffer := st \<rparr>))"

text \<open>
  The part of a snapshot that is done before it returns: the jobs, the files to remove (with the
  retention cutoffs of the catalog) and the manifest they are collected in. \<open>next_id\<close> is what the
  process-wide file counter reads when the manifest is made.
\<close>

definition buffer_and_plan_snapshot ::
    "buffer_env \<Rightarrow> nat \<Rightarrow> ((nat \<times> nat) \<times> int) list \<Rightarrow> wal_contents \<Rightarrow> snapshot_details \<Rightarrow> queryable_buffer \<Rightarrow>
     (persist_job list \<times> persisted_snapshot \<times> queryable_buffer) panicking" where
  "buffer_and_plan_snapshot env next_id retention_periods write details qb =
     bind_res (buffer_write_ops (wal_ops write) (qb_buffer qb)) (\<lambda>st.
       bind_res (plan_persist_jobs env details st) (\<lambda>(jobs, st').
         let (removed, files) = remove_files_for_deletion retention_periods (qb_persisted_files qb)
         in Inr (jobs,
                 (persisted_snapshot_new next_id (be_node env) (sd_snapshot_sequence_number details)
                    (last_wal_sequence_number details) (cat_sequence_number (be_catalog env)))
                   \<lparr> ps_removed_files := removed \<rparr>,
                 qb\<lparr> qb_buffer := st', qb_persisted_files := files \<rparr>)))"

text \<open>
  What a job does once its parquet file is stored, with the identifier the file got, its size, the
  number of rows left after deduplication, and the file counter.
\<close>

definition job_file :: "persist_job \<Rightarrow> nat \<Rightarrow> nat \<Rightarrow> nat \<Rightarrow> parquet_file" where
  "job_file job file_id size_bytes rows =
     \<lparr> pf_id = file_id, pf_path = pj_path job, pf_size_bytes = size_bytes, pf_row_count = rows,
       pf_chunk_time = pj_chunk_time job, pf_min_time = fst (pj_timestamp_min_max job),
       pf_max_time = snd (pj_timestamp_min_max job) \<rparr>"

definition clear_table_snapshots :: "nat \<Rightarrow> nat \<Rightarrow> buffer_state \<Rightarrow> buffer_state" where
  "clear_table_snapshots d t st =
     (case map_of st d of
        None \<Rightarrow> st
      | Some m \<Rightarrow> (case map_of m t of
            None \<Rightarrow> st
          | Some tb \<Rightarrow> AList.update d (AList.update t (clear_snapshots tb) m) st))"

definition finish_job ::
    "persist_job \<Rightarrow> nat \<Rightarrow> nat \<Rightarrow> nat \<Rightarrow> nat \<Rightarrow> queryable_buffer \<times> persisted_snapshot \<Rightarrow> queryable_buffer \<times> persisted_snapshot" where
  "finish_job job file_id size_bytes rows next_id s =
     (case s of (qb, snap) \<Rightarrow>
        let f = job_file job file_id size_bytes rows; d = pj_database_id job; t = pj_table_id job
        in (qb\<lparr> qb_persisted_files := add_persisted_file d t f (qb_persisted_files qb),
                qb_buffer := clear_table_snapshots d t (qb_buffer qb) \<rparr>,
            add_parquet_file next_id d t f snap))"

definition num_rows :: "record_batch \<Rightarrow> nat" where
  "num_rows rb = (case rb of [] \<Rightarrow> 0 | (_, b) # _ \<Rightarrow> length (builder_cells b))"

definition buffer_table_chunks_for ::
    "table_def \<Rightarrow> nat \<Rightarrow> nat \<Rightarrow> chunk_filter \<Rightarrow> queryable_buffer \<Rightarrow>
     (table_buffer_error + (int \<times> (int \<times> int) \<times> nat \<times> record_batch list) list) panicking" where
  "buffer_table_chunks_for td d t flt qb =
     (case map_of (qb_buffer qb) d of
        None \<Rightarrow> Inr (Inr [])
      | Some db_buffer \<Rightarrow> (case map_of db_buffer t of
            None \<Rightarrow> Inr (Inr [])
          | Some tb \<Rightarrow> bind_res (partitioned_record_batches td flt tb) (\<lambda>r.
              Inr (bind_res r (\<lambda>bs. Inr (map (\<lambda>(gen_time, ts, rbs).
                (gen_time, ts, sum_list (map num_rows rbs), rbs)) bs))))))"

definition persisted_parquet_files :: "nat \<Rightarrow> nat \<Rightarrow> chunk_filter \<Rightarrow> queryable_buffer \<Rightarrow> parquet_file list" where
  "persisted_parquet_files d t flt qb = get_files_filtered d t flt (qb_persisted_files qb)"

definition clear_buffer_for_db :: "nat \<Rightarrow> queryable_buffer \<Rightarrow> queryable_buffer" where
  "clear_buffer_for_db d qb = qb\<lparr> qb_buffer := AList.delete d (qb_buffer qb) \<rparr>"

section \<open>Buffered rows\<close>

text \<open>The rows a list of WAL operations carries for a database, a table and a chunk time.\<close>

type_synonym node_rows = "nat \<Rightarrow> nat \<Rightarrow> int \<Rightarrow> row list"

definition chunks_rows :: "(int \<times> table_chunk) list \<Rightarrow> int \<Rightarrow> row list" where
  "chunks_rows tcs ct = concat (map (\<lambda>c. if fst c = ct then chunk_rows (snd c) else []) tcs)"

definition tables_rows :: "(nat \<times> table_chunks) list \<Rightarrow> nat \<Rightarrow> int \<Rightarrow> row list" where
  "tables_rows tcs t ct = concat (map (\<lambda>c. if fst c = t then chunks_rows (chunk_time_to_chunk (snd c)) ct else []) tcs)"

definition node_op_rows :: "wal_op \<Rightarrow> node_rows" where
  "node_op_rows op d t ct =
     (case op of Write wb \<Rightarrow> if database_id wb = d then tables_rows (wb_table_chunks wb) t ct else [] | Noop _ \<Rightarrow> [])"

definition node_ops_rows :: "wal_op list \<Rightarrow> node_rows" where
  "node_ops_rows ops d t ct = concat (map (\<lambda>op. node_op_rows op d t ct) ops)"

definition add_node_rows :: "node_rows \<Rightarrow> node_rows \<Rightarrow> node_rows" where
  "add_node_rows f g = (\<lambda>d t ct. f d t ct @ g d t ct)"

text \<open>A table the catalog knows, and operations on such tables.\<close>

definition defined_table :: "buffer_catalog \<Rightarrow> nat \<Rightarrow> nat \<Rightarrow> table_def \<Rightarrow> bool" where
  "defined_table cat d t td \<longleftrightarrow> (\<exists>defs. db_table_definition cat d = Some defs \<and> defs t = Some td) \<and> td_ok td"

definition chunks_ok :: "table_def \<Rightarrow> (int \<times> table_chunk) list \<Rightarrow> bool" where
  "chunks_ok td tcs \<longleftrightarrow> list_all (\<lambda>c. chunk_rows (snd c) \<noteq> [] \<and> list_all (row_ok td) (chunk_rows (snd c))) tcs"

definition node_op_ok :: "buffer_catalog \<Rightarrow> wal_op \<Rightarrow> bool" where
  "node_op_ok cat op =
     (case op of
        Write wb \<Rightarrow> db_table_definition cat (database_id wb) \<noteq> None \<and>
          (\<forall>c \<in> set (wb_table_chunks wb).
             \<exists>td. defined_table cat (database_id wb) (fst c) td \<and> chunks_ok td (chunk_time_to_chunk (snd c)))
      | Noop _ \<Rightarrow> True)"

definition table_shows :: "buffer_catalog \<Rightarrow> nat \<Rightarrow> nat \<Rightarrow> shown_rows \<Rightarrow> table_buffer option \<Rightarrow> bool" where
  "table_shows cat d t sr otb =
     (case otb of
        None \<Rightarrow> sr = (\<lambda>_. [], \<lambda>_. [])
      | Some tb \<Rightarrow> \<exists>td. defined_table cat d t td \<and> buffer_shows td sr tb)"

definition db_shows :: "buffer_catalog \<Rightarrow> nat \<Rightarrow> (nat \<Rightarrow> shown_rows) \<Rightarrow> table_map \<Rightarrow> bool" where
  "db_shows cat d sr m \<longleftrightarrow> keys_distinct m \<and> (\<forall>t. table_shows cat d t (sr t) (map_of m t))"

definition state_shows :: "buffer_catalog \<Rightarrow> (nat \<Rightarrow> nat \<Rightarrow> shown_rows) \<Rightarrow> buffer_state \<Rightarrow> bool" where
  "state_shows cat sr st \<longleftrightarrow> keys_distinct st \<and>
     (\<forall>d. db_shows cat d (sr d) (the_or [] (map_of st d))) \<and>
     (\<forall>d m. map_of st d = Some m \<longrightarrow> db_table_definition cat d \<noteq> None)"

lemma chunks_rows_simps [simp]:
  "chunks_rows [] ct = []" "chunks_rows (xs @ ys) ct = chunks_rows xs ct @ chunks_rows ys ct"
  "chunks_rows [c] ct = (if fst c = ct then chunk_rows (snd c) else [])"
  "tables_rows [] t ct = []" "tables_rows (us @ vs) t ct = tables_rows us t ct @ tables_rows vs t ct"
  "tables_rows [u] t ct = (if fst u = t then chunks_rows (chunk_time_to_chunk (snd u)) ct else [])"
  "node_ops_rows [] d t ct = []" "node_ops_rows (os @ ps) d t ct = node_ops_rows os d t ct @ node_ops_rows ps d t ct"
  "node_ops_rows [op] d t ct = node_op_rows op d t ct"
  by (simp_all add: chunks_rows_def tables_rows_def node_ops_rows_def)

lemma buffer_shows_new: "td_ok td \<Longrightarrow> buffer_shows td (\<lambda>_. [], \<lambda>_. []) table_buffer_new"
  using buffer_run_shows [of td "[]"] by simp

lemma buffer_chunks_shows:
  assumes td: "td_ok td" "chunks_ok td tcs" and tb: "buffer_shows td (s, r) tb"
  shows "\<exists>tb'. fold_res (\<lambda>(chunk_time, chunk). buffer_chunk chunk_time (chunk_rows chunk)) tcs tb = Inr tb' \<and>
           buffer_shows td (s, \<lambda>ct. r ct @ chunks_rows tcs ct) tb'"
proof (rule fold_res_holds [where P = "\<lambda>ys tb. buffer_shows td (s, \<lambda>ct. r ct @ chunks_rows ys ct) tb"])
  show "buffer_shows td (s, \<lambda>ct. r ct @ chunks_rows [] ct) tb" using tb by simp
next
  fix ys c todo tb1
  assume eq: "tcs = ys @ c # todo" and tb1: "buffer_shows td (s, \<lambda>ct. r ct @ chunks_rows ys ct) tb1"
  have shown: "shown_step (BufferChunk (fst c) (chunk_rows (snd c))) (s, \<lambda>ct. r ct @ chunks_rows ys ct) =
      (s, \<lambda>ct. r ct @ chunks_rows (ys @ [c]) ct)" by (auto simp: fun_eq_iff)
  have "op_ok td (BufferChunk (fst c) (chunk_rows (snd c)))" using eq td(2) by (simp add: chunks_ok_def)
  from buffer_step_shows [OF td(1) this tb1] show "\<exists>tb2. (case c of (chunk_time, chunk) \<Rightarrow> buffer_chunk chunk_time (chunk_rows chunk)) tb1 = Inr tb2 \<and>
      buffer_shows td (s, \<lambda>ct. r ct @ chunks_rows (ys @ [c]) ct) tb2"
    by (simp only: shown buffer_step.simps case_prod_beta)
qed

definition with_rows :: "(nat \<Rightarrow> shown_rows) \<Rightarrow> (nat \<Rightarrow> int \<Rightarrow> row list) \<Rightarrow> nat \<Rightarrow> shown_rows" where
  "with_rows sr f = (\<lambda>t. (fst (sr t), \<lambda>ct. snd (sr t) ct @ f t ct))"

lemma with_rows_nil [simp]: "with_rows sr (\<lambda>_ _. []) = sr"
  by (simp add: with_rows_def)

lemma buffer_table_chunks_shows:
  assumes m: "db_shows cat d sr m" and td: "defined_table cat d (fst ttc) td" "chunks_ok td (chunk_time_to_chunk (snd ttc))"
  shows "\<exists>m'. buffer_table_chunks ttc m = Inr m' \<and> db_shows cat d (with_rows sr (tables_rows [ttc])) m'"
proof -
  have "buffer_shows td (sr (fst ttc)) (the_or table_buffer_new (map_of m (fst ttc)))"
  proof (cases "map_of m (fst ttc)")
    case None
    with m have "sr (fst ttc) = (\<lambda>_. [], \<lambda>_. [])" by (auto simp: db_shows_def table_shows_def dest: spec [of _ "fst ttc"])
    with None buffer_shows_new [of td] td show ?thesis by (simp add: defined_table_def)
  next
    case (Some tb)
    with m have "table_shows cat d (fst ttc) (sr (fst ttc)) (Some tb)" unfolding db_shows_def by metis
    with Some td(1) show ?thesis by (auto simp: table_shows_def defined_table_def)
  qed
  from buffer_chunks_shows [OF _ td(2), of "fst (sr (fst ttc))" "snd (sr (fst ttc))"] this td(1)
  obtain tb' where tb': "fold_res (\<lambda>(chunk_time, chunk). buffer_chunk chunk_time (chunk_rows chunk))
        (chunk_time_to_chunk (snd ttc)) (the_or table_buffer_new (map_of m (fst ttc))) = Inr tb'"
      "buffer_shows td (with_rows sr (tables_rows [ttc]) (fst ttc)) tb'"
    by (auto simp: defined_table_def with_rows_def)
  have "table_shows cat d t (with_rows sr (tables_rows [ttc]) t) (map_of (entry_upd (fst ttc) tb' (\<lambda>_. tb') m) t)" for t
    using m tb'(2) td(1) by (cases "t = fst ttc")
      (auto simp: db_shows_def map_of_entry_upd with_rows_def table_shows_def)
  with tb'(1) m show ?thesis by (simp add: buffer_table_chunks_def db_shows_def keys_distinct_entry_upd)
qed

lemma buffer_write_batch_shows:
  assumes st: "state_shows cat sr st" and ok: "node_op_ok cat (Write wb)"
  shows "\<exists>st'. buffer_write_batch wb st = Inr st' \<and>
           state_shows cat (\<lambda>d. with_rows (sr d) (node_op_rows (Write wb) d)) st'"
proof -
  let ?d = "database_id wb" and ?tcs = "wb_table_chunks wb"
  have "\<exists>m. fold_res buffer_table_chunks ?tcs (the_or [] (map_of st ?d)) = Inr m \<and>
      db_shows cat ?d (with_rows (sr ?d) (tables_rows ?tcs)) m"
  proof (rule fold_res_holds [where P = "\<lambda>ys m. db_shows cat ?d (with_rows (sr ?d) (tables_rows ys)) m"])
    have "tables_rows [] = (\<lambda>_ _. [])" by (simp add: fun_eq_iff)
    then show "db_shows cat ?d (with_rows (sr ?d) (tables_rows [])) (the_or [] (map_of st ?d))"
      using st by (simp add: state_shows_def)
  next
    fix ys ttc todo m
    assume "?tcs = ys @ ttc # todo" and m: "db_shows cat ?d (with_rows (sr ?d) (tables_rows ys)) m"
    with ok obtain td where "defined_table cat ?d (fst ttc) td" "chunks_ok td (chunk_time_to_chunk (snd ttc))"
      by (auto simp: node_op_ok_def)
    moreover have "with_rows (with_rows (sr ?d) (tables_rows ys)) (tables_rows [ttc]) =
        with_rows (sr ?d) (tables_rows (ys @ [ttc]))" by (simp add: with_rows_def fun_eq_iff)
    ultimately show "\<exists>m'. buffer_table_chunks ttc m = Inr m' \<and> db_shows cat ?d (with_rows (sr ?d) (tables_rows (ys @ [ttc]))) m'"
      using buffer_table_chunks_shows [OF m, of ttc td] by simp
  qed
  then obtain m where m: "fold_res buffer_table_chunks ?tcs (the_or [] (map_of st ?d)) = Inr m"
      "db_shows cat ?d (with_rows (sr ?d) (tables_rows ?tcs)) m" by blast
  have ext: "node_op_rows (Write wb) d = (if d = ?d then tables_rows ?tcs else (\<lambda>_ _. []))" for d
    by (auto simp: fun_eq_iff node_op_rows_def)
  have "db_shows cat d (with_rows (sr d) (node_op_rows (Write wb) d)) (the_or [] (map_of (entry_upd ?d m (\<lambda>_. m) st) d))" for d
    using st m(2) by (simp add: ext map_of_entry_upd state_shows_def)
  moreover have "db_table_definition cat d \<noteq> None" if "map_of (entry_upd ?d m (\<lambda>_. m) st) d = Some m'" for d m'
    using that st ok by (auto simp: map_of_entry_upd state_shows_def node_op_ok_def split: if_splits)
  moreover have "keys_distinct (entry_upd ?d m (\<lambda>_. m) st)"
    using st by (simp add: state_shows_def keys_distinct_entry_upd)
  ultimately show ?thesis using m(1) by (auto simp: buffer_write_batch_def state_shows_def)
qed

lemma buffer_write_ops_shows:
  assumes st: "state_shows cat sr st" and ok: "list_all (node_op_ok cat) ops"
  shows "\<exists>st'. buffer_write_ops ops st = Inr st' \<and>
           state_shows cat (\<lambda>d. with_rows (sr d) (node_ops_rows ops d)) st'"
  unfolding buffer_write_ops_def
proof (rule fold_res_holds [where P = "\<lambda>ys st. state_shows cat (\<lambda>d. with_rows (sr d) (node_ops_rows ys d)) st"])
  have "node_ops_rows [] = (\<lambda>_ _ _. [])" by (simp add: fun_eq_iff)
  then show "state_shows cat (\<lambda>d. with_rows (sr d) (node_ops_rows [] d)) st" using st by simp
next
  fix ys op todo st1
  assume eq: "ops = ys @ op # todo" and st1: "state_shows cat (\<lambda>d. with_rows (sr d) (node_ops_rows ys d)) st1"
  have ext: "with_rows (with_rows (sr d) (node_ops_rows ys d)) (node_op_rows op d) =
      with_rows (sr d) (node_ops_rows (ys @ [op]) d)" for d by (simp add: with_rows_def fun_eq_iff)
  show "\<exists>st2. buffer_write_op op st1 = Inr st2 \<and> state_shows cat (\<lambda>d. with_rows (sr d) (node_ops_rows (ys @ [op]) d)) st2"
  proof (cases op)
    case (Write wb)
    with eq ok buffer_write_batch_shows [OF st1, of wb] ext show ?thesis by (simp add: buffer_write_op_def)
  next
    case (Noop x)
    then have "node_op_rows op d = (\<lambda>_ _. [])" for d by (simp add: node_op_rows_def fun_eq_iff)
    with Noop ext st1 show ?thesis by (simp add: buffer_write_op_def)
  qed
qed

section \<open>Persist jobs\<close>

definition skipped :: "buffer_catalog \<Rightarrow> nat \<Rightarrow> nat \<Rightarrow> bool" where
  "skipped cat d t \<longleftrightarrow> database_deleted cat d \<or> table_deleted cat d t"

definition taken_rows :: "int \<Rightarrow> (int \<Rightarrow> row list) \<Rightarrow> int \<Rightarrow> row list" where
  "taken_rows m r = (\<lambda>ct. if ct < m then r ct else [])"

definition kept_rows :: "int \<Rightarrow> (int \<Rightarrow> row list) \<Rightarrow> int \<Rightarrow> row list" where
  "kept_rows m r = (\<lambda>ct. if ct < m then [] else r ct)"

definition planned_rows :: "buffer_catalog \<Rightarrow> int \<Rightarrow> (nat \<Rightarrow> nat \<Rightarrow> shown_rows) \<Rightarrow> node_rows" where
  "planned_rows cat m sr d t = (if skipped cat d t then (\<lambda>_. []) else taken_rows m (snd (sr d t)))"

definition after_plan :: "buffer_catalog \<Rightarrow> int \<Rightarrow> (nat \<Rightarrow> nat \<Rightarrow> shown_rows) \<Rightarrow> nat \<Rightarrow> nat \<Rightarrow> shown_rows" where
  "after_plan cat m sr d t =
     (if skipped cat d t then sr d t else (taken_rows m (snd (sr d t)), kept_rows m (snd (sr d t))))"

text \<open>A job that takes the rows of a chunk, all of them and in order.\<close>

definition job_takes :: "buffer_catalog \<Rightarrow> int \<times> row list \<Rightarrow> persist_job \<Rightarrow> bool" where
  "job_takes cat p j \<longleftrightarrow>
     pj_chunk_time j = fst p \<and> pj_timestamp_min_max j = rows_range (snd p) \<and> snd p \<noteq> [] \<and>
     (\<exists>td. defined_table cat (pj_database_id j) (pj_table_id j) td \<and> batch_shows td (snd p) (pj_batch j))"

definition jobs_hold :: "buffer_catalog \<Rightarrow> (int \<Rightarrow> row list) \<Rightarrow> persist_job list \<Rightarrow> bool" where
  "jobs_hold cat r jobs \<longleftrightarrow> (\<exists>ps. rows_at ps = r \<and> list_all2 (job_takes cat) ps jobs)"

definition jobs_of :: "nat \<Rightarrow> nat \<Rightarrow> persist_job list \<Rightarrow> persist_job list" where
  "jobs_of d t jobs = filter (\<lambda>j. pj_table_id j = t) (filter (\<lambda>j. pj_database_id j = d) jobs)"

lemma jobs_hold_nil [simp]: "jobs_hold cat r [] \<longleftrightarrow> r = (\<lambda>_. [])"
  by (auto simp: jobs_hold_def fun_eq_iff)

lemma jobs_hold_append:
  assumes "jobs_hold cat r js" "jobs_hold cat r' js'"
  shows "jobs_hold cat (\<lambda>ct. r ct @ r' ct) (js @ js')"
proof -
  obtain ps ps' where "rows_at ps = r" "list_all2 (job_takes cat) ps js" "rows_at ps' = r'" "list_all2 (job_takes cat) ps' js'"
    using assms by (auto simp: jobs_hold_def)
  then have "rows_at (ps @ ps') = (\<lambda>ct. r ct @ r' ct)" "list_all2 (job_takes cat) (ps @ ps') (js @ js')"
    by (auto simp: fun_eq_iff intro: list_all2_appendI)
  then show ?thesis unfolding jobs_hold_def by blast
qed

lemma map_of_keyed: "map_of (map (\<lambda>x. (fst x, g x)) m) k = map_option (\<lambda>v. g (k, v)) (map_of m k)"
  by (induction m) auto

lemma filter_concat_keyed:
  assumes "keys_distinct m" "\<And>x. x \<in> set m \<Longrightarrow> list_all (\<lambda>j. key j = fst x) (J x)"
  shows "filter (\<lambda>j. key j = k) (concat (map J m)) = (case map_of m k of None \<Rightarrow> [] | Some v \<Rightarrow> J (k, v))"
  using assms
proof (induction m)
  case (Cons x m)
  have here: "filter (\<lambda>j. key j = k) (J x) = (if fst x = k then J x else [])"
    using Cons.prems(2) [of x] by (auto simp: list_all_iff filter_id_conv filter_empty_conv)
  have "map_of m k = None" if "fst x = k" using that Cons.prems(1) by (auto simp: keys_distinct_def map_of_eq_None_iff)
  with here Cons show ?case by (cases x) (auto simp: keys_distinct_def)
qed simp

lemma res_map_keyed:
  assumes "\<And>x. x \<in> set m \<Longrightarrow> \<exists>js v. f x = Inr (js, fst x, v) \<and> P x js v"
  shows "\<exists>J g. res_map f m = Inr (map (\<lambda>x. (J x, fst x, g x)) m) \<and> (\<forall>x \<in> set m. P x (J x) (g x))"
proof -
  obtain h where h: "\<forall>x \<in> set m. f x = Inr (fst (h x), fst x, snd (h x)) \<and> P x (fst (h x)) (snd (h x))"
    using assms bchoice [of "set m" "\<lambda>x jv. f x = Inr (fst jv, fst x, snd jv) \<and> P x (fst jv) (snd jv)"]
    by (metis fst_conv snd_conv)
  then have "res_map f m = Inr (map (\<lambda>x. (fst (h x), fst x, snd (h x))) m)" by (intro res_map_ok) simp
  with h show ?thesis by (intro exI [of _ "\<lambda>x. fst (h x)"] exI [of _ "\<lambda>x. snd (h x)"]) simp
qed

lemma with_ordinals_fst [simp]: "map fst (with_ordinals ords cs) = cs"
  by (induction ords cs rule: with_ordinals.induct) simp_all

lemma list_all2_jobs:
  assumes "list_all2 (piece_taken td) ps cs" "defined_table cat d t td"
  shows "list_all2 (job_takes cat) ps (map (persist_job_for env details d t) (with_ordinals ords cs))"
  using assms by (induction ps cs arbitrary: ords rule: list_all2_induct)
    (auto simp: job_takes_def piece_taken_def persist_job_for_def)

lemma plan_table_shows:
  assumes tb: "table_shows (be_catalog env) d t (sr d t) (Some tb)" and defs: "db_table_definition (be_catalog env) d = Some defs"
    and db: "\<not> database_deleted (be_catalog env) d"
  shows "\<exists>jobs tb'. plan_table env details d defs (t, tb) = Inr (jobs, t, tb') \<and>
     table_shows (be_catalog env) d t (after_plan (be_catalog env) (end_time_marker details) sr d t) (Some tb') \<and>
     list_all (\<lambda>j. pj_database_id j = d \<and> pj_table_id j = t) jobs \<and>
     jobs_hold (be_catalog env) (planned_rows (be_catalog env) (end_time_marker details) sr d t) jobs"
proof (cases "table_deleted (be_catalog env) d t")
  case True
  then show ?thesis using tb by (auto simp: plan_table_def after_plan_def planned_rows_def skipped_def)
next
  case False
  let ?m = "end_time_marker details"
  obtain td where td: "defs t = Some td" "td_ok td" "defined_table (be_catalog env) d t td" and shown: "buffer_shows td (sr d t) tb"
    using tb defs by (auto simp: table_shows_def defined_table_def)
  from shown obtain S R where h: "buffer_holds td S R tb" "sr d t = (rows_at S, rows_at R)" by (auto simp: buffer_shows_def)
  from table_snapshot_holds [OF td(2) h(1), of ?m] obtain scs tb' where
    s: "table_snapshot td ?m tb = Inr (scs, tb')" "scs = tb_snapshotting tb'"
      "buffer_holds td (filter (\<lambda>p. fst p < ?m) R) (filter (\<lambda>p. \<not> fst p < ?m) R) tb'" by blast
  have rows: "rows_at (filter (\<lambda>p. fst p < ?m) R) = taken_rows ?m (snd (sr d t))"
    "rows_at (filter (\<lambda>p. \<not> fst p < ?m) R) = kept_rows ?m (snd (sr d t))"
    using h(2) rows_at_filter [of "\<lambda>k. k < ?m" R] rows_at_filter [of "\<lambda>k. \<not> k < ?m" R]
    by (auto simp: fun_eq_iff taken_rows_def kept_rows_def)
  have "list_all2 (piece_taken td) (filter (\<lambda>p. fst p < ?m) R) scs" using s by (simp add: buffer_holds_def)
  note jobs = list_all2_jobs [OF this td(3), of env details "[]"]
  have "jobs_hold (be_catalog env) (taken_rows ?m (snd (sr d t))) (map (persist_job_for env details d t) (with_ordinals [] scs))"
    unfolding jobs_hold_def using jobs rows(1) by blast
  moreover have "buffer_shows td (taken_rows ?m (snd (sr d t)), kept_rows ?m (snd (sr d t))) tb'"
    unfolding buffer_shows_def using s(3) rows by metis
  ultimately show ?thesis using False db td s(1)
    by (auto simp: plan_table_def after_plan_def planned_rows_def skipped_def table_shows_def list_all_iff
        persist_job_for_def case_prod_beta)
qed

lemma plan_db_shows:
  assumes m: "db_shows (be_catalog env) d (sr d) m" and defs: "db_table_definition (be_catalog env) d \<noteq> None"
  shows "\<exists>jobs m'. plan_db env details (d, m) = Inr (jobs, d, m') \<and>
     db_shows (be_catalog env) d (after_plan (be_catalog env) (end_time_marker details) sr d) m' \<and>
     list_all (\<lambda>j. pj_database_id j = d) jobs \<and>
     (\<forall>t. jobs_hold (be_catalog env) (planned_rows (be_catalog env) (end_time_marker details) sr d t)
            (filter (\<lambda>j. pj_table_id j = t) jobs))"
proof (cases "database_deleted (be_catalog env) d")
  case True
  then have "after_plan (be_catalog env) (end_time_marker details) sr d = sr d"
    "\<forall>t. planned_rows (be_catalog env) (end_time_marker details) sr d t = (\<lambda>_. [])"
    by (auto simp: after_plan_def planned_rows_def skipped_def fun_eq_iff)
  with True m show ?thesis by (auto simp: plan_db_def)
next
  case False
  let ?cat = "be_catalog env" and ?mk = "end_time_marker details"
  obtain defs where defs: "db_table_definition ?cat d = Some defs" using assms(2) by blast
  have dist: "keys_distinct m" and each: "\<And>t. table_shows ?cat d t (sr d t) (map_of m t)"
    using m by (simp_all add: db_shows_def)
  have "\<exists>js tb'. plan_table env details d defs x = Inr (js, fst x, tb') \<and>
      (table_shows ?cat d (fst x) (after_plan ?cat ?mk sr d (fst x)) (Some tb') \<and>
       list_all (\<lambda>j. pj_database_id j = d \<and> pj_table_id j = fst x) js \<and>
       jobs_hold ?cat (planned_rows ?cat ?mk sr d (fst x)) js)" if x: "x \<in> set m" for x
  proof -
    have "map_of m (fst x) = Some (snd x)" using x dist by (simp add: keys_distinct_def)
    with each [of "fst x"] have "table_shows ?cat d (fst x) (sr d (fst x)) (Some (snd x))" by simp
    from plan_table_shows [of env d "fst x" sr "snd x" defs details, OF this defs False] show ?thesis by simp
  qed
  from res_map_keyed [of m "plan_table env details d defs", OF this] obtain J g where
    r: "res_map (plan_table env details d defs) m = Inr (map (\<lambda>x. (J x, fst x, g x)) m)" and
    jg: "\<forall>x \<in> set m. table_shows ?cat d (fst x) (after_plan ?cat ?mk sr d (fst x)) (Some (g x)) \<and>
       list_all (\<lambda>j. pj_database_id j = d \<and> pj_table_id j = fst x) (J x) \<and>
       jobs_hold ?cat (planned_rows ?cat ?mk sr d (fst x)) (J x)" by blast
  have none: "sr d t = (\<lambda>_. [], \<lambda>_. [])" if "map_of m t = None" for t
    using each [of t] that by (simp add: table_shows_def)
  have "table_shows ?cat d t (after_plan ?cat ?mk sr d t) (map_of (map (\<lambda>x. (fst x, g x)) m) t)" for t
  proof (cases "map_of m t")
    case None
    with none [of t] show ?thesis
      by (auto simp: map_of_keyed table_shows_def after_plan_def taken_rows_def kept_rows_def fun_eq_iff)
  next
    case (Some tb)
    with bspec [OF jg, of "(t, tb)"] map_of_SomeD [OF Some] show ?thesis by (simp add: map_of_keyed)
  qed
  moreover have "keys_distinct (map (\<lambda>x. (fst x, g x)) m)" using dist by (simp add: keys_distinct_def comp_def)
  moreover have "jobs_hold ?cat (planned_rows ?cat ?mk sr d t) (filter (\<lambda>j. pj_table_id j = t) (concat (map J m)))" for t
  proof -
    have "filter (\<lambda>j. pj_table_id j = t) (concat (map J m)) = (case map_of m t of None \<Rightarrow> [] | Some tb \<Rightarrow> J (t, tb))"
      using dist jg by (intro filter_concat_keyed) (auto simp: list_all_iff)
    moreover have "jobs_hold ?cat (planned_rows ?cat ?mk sr d t) (J (t, tb))" if "map_of m t = Some tb" for tb
      using bspec [OF jg, of "(t, tb)"] map_of_SomeD [OF that] by simp
    ultimately show ?thesis using none [of t]
      by (cases "map_of m t") (auto simp: planned_rows_def taken_rows_def fun_eq_iff)
  qed
  moreover have "list_all (\<lambda>j. pj_database_id j = d) (concat (map J m))" using jg by (auto simp: list_all_iff)
  ultimately show ?thesis using False defs r by (simp add: plan_db_def db_shows_def comp_def)
qed

lemma plan_persist_jobs_shows:
  assumes st: "state_shows (be_catalog env) sr st"
  shows "\<exists>jobs st'. plan_persist_jobs env details st = Inr (jobs, st') \<and>
     state_shows (be_catalog env) (after_plan (be_catalog env) (end_time_marker details) sr) st' \<and>
     (\<forall>d t. jobs_hold (be_catalog env) (planned_rows (be_catalog env) (end_time_marker details) sr d t) (jobs_of d t jobs))"
proof -
  let ?cat = "be_catalog env" and ?mk = "end_time_marker details"
  have dist: "keys_distinct st" and each: "\<And>d. db_shows ?cat d (sr d) (the_or [] (map_of st d))"
    and defs: "\<And>d m. map_of st d = Some m \<Longrightarrow> db_table_definition ?cat d \<noteq> None"
    using st by (auto simp: state_shows_def)
  have "\<exists>js m'. plan_db env details x = Inr (js, fst x, m') \<and>
      (db_shows ?cat (fst x) (after_plan ?cat ?mk sr (fst x)) m' \<and> list_all (\<lambda>j. pj_database_id j = fst x) js \<and>
       (\<forall>t. jobs_hold ?cat (planned_rows ?cat ?mk sr (fst x) t) (filter (\<lambda>j. pj_table_id j = t) js)))" if x: "x \<in> set st" for x
  proof -
    have m: "map_of st (fst x) = Some (snd x)" using x dist by (simp add: keys_distinct_def)
    with each [of "fst x"] have "db_shows ?cat (fst x) (sr (fst x)) (snd x)" by simp
    from plan_db_shows [of env "fst x" sr, OF this defs [OF m], of details] show ?thesis by simp
  qed
  from res_map_keyed [of st "plan_db env details", OF this] obtain J g where
    r: "res_map (plan_db env details) st = Inr (map (\<lambda>x. (J x, fst x, g x)) st)" and
    jg: "\<forall>x \<in> set st. db_shows ?cat (fst x) (after_plan ?cat ?mk sr (fst x)) (g x) \<and>
       list_all (\<lambda>j. pj_database_id j = fst x) (J x) \<and>
       (\<forall>t. jobs_hold ?cat (planned_rows ?cat ?mk sr (fst x) t) (filter (\<lambda>j. pj_table_id j = t) (J x)))" by blast
  have none: "sr d t = (\<lambda>_. [], \<lambda>_. [])" if "map_of st d = None" for d t
    using each [of d] that by (simp add: db_shows_def table_shows_def)
  have "db_shows ?cat d (after_plan ?cat ?mk sr d) (the_or [] (map_of (map (\<lambda>x. (fst x, g x)) st) d))" for d
  proof (cases "map_of st d")
    case None
    with none [of d] show ?thesis
      by (auto simp: map_of_keyed db_shows_def keys_distinct_def table_shows_def after_plan_def taken_rows_def
          kept_rows_def fun_eq_iff)
  next
    case (Some m)
    with bspec [OF jg, of "(d, m)"] map_of_SomeD [OF Some] show ?thesis by (simp add: map_of_keyed)
  qed
  moreover have "keys_distinct (map (\<lambda>x. (fst x, g x)) st)" using dist by (simp add: keys_distinct_def comp_def)
  moreover have "jobs_hold ?cat (planned_rows ?cat ?mk sr d t) (jobs_of d t (concat (map J st)))" for d t
  proof -
    have "filter (\<lambda>j. pj_database_id j = d) (concat (map J st)) = (case map_of st d of None \<Rightarrow> [] | Some m \<Rightarrow> J (d, m))"
      using dist jg by (intro filter_concat_keyed) (auto simp: list_all_iff)
    moreover have "jobs_hold ?cat (planned_rows ?cat ?mk sr d t) (filter (\<lambda>j. pj_table_id j = t) (J (d, m)))"
      if "map_of st d = Some m" for m
      using bspec [OF jg, of "(d, m)"] map_of_SomeD [OF that] by simp
    ultimately show ?thesis using none [of d t]
      by (cases "map_of st d") (auto simp: jobs_of_def planned_rows_def taken_rows_def fun_eq_iff)
  qed
  ultimately show ?thesis using r defs
    by (auto simp: plan_persist_jobs_def state_shows_def comp_def map_of_keyed)
qed

subsection \<open>Paths\<close>

lemma ordinals_lower:
  assumes "(c, k) \<in> set (with_ordinals ords cs)" "\<And>ct. the_or 0 (map_of ords ct) + length cs < 2 ^ 32"
  shows "the_or 0 (map_of ords (sc_chunk_time c)) \<le> k"
  using assms
proof (induction ords cs rule: with_ordinals.induct)
  case (2 ords c' cs)
  let ?n = "the_or 0 (map_of ords (sc_chunk_time c'))"
  have n: "?n + Suc (length cs) < 2 ^ 32" using 2(3) [of "sc_chunk_time c'"] by simp
  show ?case
  proof (cases "(c, k) = (c', ?n)")
    case False
    with 2(2) have "(c, k) \<in> set (with_ordinals (entry_upd (sc_chunk_time c') 0 (\<lambda>n. (n + 1) mod 2 ^ 32) ords) cs)" by auto
    moreover have "the_or 0 (map_of (entry_upd (sc_chunk_time c') 0 (\<lambda>n. (n + 1) mod 2 ^ 32) ords) ct) + length cs < 2 ^ 32" for ct
      using n 2(3) [of ct] by (simp add: map_of_entry_upd)
    ultimately have "the_or 0 (map_of (entry_upd (sc_chunk_time c') 0 (\<lambda>n. (n + 1) mod 2 ^ 32) ords) (sc_chunk_time c)) \<le> k"
      by (rule 2(1))
    with n show ?thesis by (simp add: map_of_entry_upd split: if_splits)
  qed simp
qed simp

lemma ordinals_distinct:
  assumes "\<And>ct. the_or 0 (map_of ords ct) + length cs < 2 ^ 32"
  shows "distinct (map (\<lambda>co. (sc_chunk_time (fst co), snd co)) (with_ordinals ords cs))"
  using assms
proof (induction ords cs rule: with_ordinals.induct)
  case (2 ords c cs)
  let ?ct = "sc_chunk_time c" and ?ords = "entry_upd (sc_chunk_time c) 0 (\<lambda>n. (n + 1) mod 2 ^ 32) ords"
  let ?n = "the_or 0 (map_of ords ?ct)"
  have n: "?n + Suc (length cs) < 2 ^ 32" using 2(2) [of ?ct] by simp
  have bound: "the_or 0 (map_of ?ords ct) + length cs < 2 ^ 32" for ct
    using n 2(2) [of ct] by (simp add: map_of_entry_upd)
  have "(?ct, ?n) \<noteq> (sc_chunk_time (fst co), snd co)" if "co \<in> set (with_ordinals ?ords cs)" for co
  proof
    assume "(?ct, ?n) = (sc_chunk_time (fst co), snd co)"
    with ordinals_lower [of "fst co" "snd co" ?ords cs] bound that n show False by (auto simp: map_of_entry_upd)
  qed
  with 2(1) bound show ?case by auto
qed simp

text \<open>The jobs of a table are those of its chunks, numbered per chunk time.\<close>

definition table_jobs :: "buffer_env \<Rightarrow> snapshot_details \<Rightarrow> nat \<Rightarrow> nat \<times> snapshot_chunk list \<Rightarrow> persist_job list" where
  "table_jobs env details d tcs = map (persist_job_for env details d (fst tcs)) (with_ordinals [] (snd tcs))"

definition db_jobs :: "buffer_env \<Rightarrow> snapshot_details \<Rightarrow> nat \<times> (nat \<times> snapshot_chunk list) list \<Rightarrow> persist_job list" where
  "db_jobs env details dm = concat (map (table_jobs env details (fst dm)) (snd dm))"

lemma plan_table_jobs:
  "plan_table env details d defs ttb = Inr (jobs, r) \<Longrightarrow> \<exists>cs. jobs = table_jobs env details d (fst ttb, cs)"
  by (cases ttb) (auto simp: plan_table_def table_jobs_def bind_res_eq_Inr split: if_splits option.splits intro: exI [of _ "[]"])

lemma res_map_eq_Inr: "res_map f xs = Inr ys \<longleftrightarrow> list_all2 (\<lambda>x y. f x = Inr y) xs ys"
  by (induction xs arbitrary: ys) (auto simp: list_all2_Cons1 bind_res_eq_Inr)

lemma res_map_jobs:
  assumes "res_map f m = Inr rs" "\<forall>x \<in> set m. \<forall>js r. f x = Inr (js, r) \<longrightarrow> (\<exists>v. js = g (fst x, v) \<and> P v)"
  shows "\<exists>vs. map fst vs = map fst m \<and> concat (map fst rs) = concat (map g vs) \<and> list_all (\<lambda>v. P (snd v)) vs"
  using assms
proof (induction m arbitrary: rs)
  case (Cons x m)
  then obtain js r rs' where rs: "rs = (js, r) # rs'" "f x = Inr (js, r)" "res_map f m = Inr rs'"
    by (auto simp: bind_res_eq_Inr)
  from Cons.prems(2) rs(2) obtain v where v: "js = g (fst x, v)" "P v" by auto
  from Cons.IH [OF rs(3)] Cons.prems(2) obtain vs where "map fst vs = map fst m"
    "concat (map fst rs') = concat (map g vs)" "list_all (\<lambda>v. P (snd v)) vs" by auto
  with v rs(1) show ?case by (intro exI [of _ "(fst x, v) # vs"]) simp
qed simp

lemma plan_db_jobs:
  assumes "plan_db env details dm = Inr (jobs, r)" "keys_distinct (snd dm)"
  shows "\<exists>m. jobs = db_jobs env details (fst dm, m) \<and> distinct (map fst m)"
proof (cases "database_deleted (be_catalog env) (fst dm)")
  case True
  with assms show ?thesis by (cases dm) (auto simp: plan_db_def db_jobs_def intro: exI [of _ "[]"])
next
  case False
  with assms(1) obtain defs planned where
    planned: "res_map (plan_table env details (fst dm) defs) (snd dm) = Inr planned" "jobs = concat (map fst planned)"
    by (cases dm) (auto simp: plan_db_def bind_res_eq_Inr split: option.splits)
  have "\<forall>x \<in> set (snd dm). \<forall>js r. plan_table env details (fst dm) defs x = Inr (js, r) \<longrightarrow>
      (\<exists>v. js = table_jobs env details (fst dm) (fst x, v) \<and> True)"
    using plan_table_jobs by simp
  from res_map_jobs [where P = "\<lambda>_. True" and g = "table_jobs env details (fst dm)", OF planned(1) this] obtain m where
    "map fst m = map fst (snd dm)" "concat (map fst planned) = concat (map (table_jobs env details (fst dm)) m)" by blast
  with assms(2) planned(2) show ?thesis by (auto simp: db_jobs_def keys_distinct_def)
qed

lemma plan_persist_jobs_jobs:
  assumes "plan_persist_jobs env details st = Inr (jobs, st')" "keys_distinct st" "\<And>dm. dm \<in> set st \<Longrightarrow> keys_distinct (snd dm)"
  shows "\<exists>dms. jobs = concat (map (db_jobs env details) dms) \<and> distinct (map fst dms) \<and> list_all (\<lambda>dm. distinct (map fst (snd dm))) dms"
proof -
  obtain planned where planned: "res_map (plan_db env details) st = Inr planned" "jobs = concat (map fst planned)"
    using assms(1) by (auto simp: plan_persist_jobs_def bind_res_eq_Inr)
  have "\<forall>dm \<in> set st. \<forall>js r. plan_db env details dm = Inr (js, r) \<longrightarrow>
      (\<exists>m. js = db_jobs env details (fst dm, m) \<and> distinct (map fst m))"
    using plan_db_jobs [of env details] assms(3) by simp
  from res_map_jobs [where P = "\<lambda>m. distinct (map fst m)" and g = "db_jobs env details", OF planned(1) this]
  obtain dms where "map fst dms = map fst st" "jobs = concat (map (db_jobs env details) dms)"
    "list_all (\<lambda>dm. distinct (map fst (snd dm))) dms" using planned(2) by blast
  with assms(2) show ?thesis by (auto simp: keys_distinct_def)
qed

lemma distinct_concat_keyed:
  assumes "distinct (map fst xs)" "\<And>x. x \<in> set xs \<Longrightarrow> distinct (f x)"
    and "\<And>x y j. x \<in> set xs \<Longrightarrow> y \<in> set xs \<Longrightarrow> j \<in> set (f x) \<Longrightarrow> j \<in> set (f y) \<Longrightarrow> fst x = fst y"
  shows "distinct (concat (map f xs))"
  using assms
proof (induction xs)
  case (Cons x xs)
  have "set (f x) \<inter> set (f y) = {}" if "y \<in> set xs" for y
    using that Cons.prems(1) Cons.prems(3) [of x y] by (auto simp: image_iff dest: bspec)
  moreover have "distinct (concat (map f xs))" using Cons.prems by (intro Cons.IH) auto
  ultimately show ?case using Cons.prems(2) [of x] by fastforce
qed simp

text \<open>What the paths of a snapshot's jobs rest on.\<close>

definition env_ok :: "buffer_env \<Rightarrow> int set \<Rightarrow> bool" where
  "env_ok env cts \<longleftrightarrow> path_api_ok (be_paths env) \<and> plain_seg (be_node env) \<and> date_ok (be_date_string env) \<and>
     inj_on (be_date_string env) cts"

abbreviation job_path :: "buffer_env \<Rightarrow> snapshot_details \<Rightarrow> nat \<Rightarrow> nat \<Rightarrow> int \<Rightarrow> nat \<Rightarrow> string" where
  "job_path env details d t ct k \<equiv> parquet_file_path_with_chunk_ordinal (be_paths env) (be_date_string env)
     (be_node env) d t ct (last_wal_sequence_number details) k"

lemma job_path_inject:
  assumes "env_ok env cts" "job_path env details d t ct k = job_path env details d' t' ct' k'"
  shows "d = d' \<and> t = t' \<and> k = k' \<and> (ct \<in> cts \<and> ct' \<in> cts \<longrightarrow> ct = ct')"
  using parquet_path_inject [OF _ _ _ assms(2)] assms(1) by (auto simp: env_ok_def inj_on_def)

lemma table_jobs_paths:
  assumes env: "env_ok env cts" and n: "length (table_jobs env details d tcs) < 2 ^ 32"
    and cts: "\<And>j. j \<in> set (table_jobs env details d tcs) \<Longrightarrow> pj_chunk_time j \<in> cts"
  shows "distinct (map pj_path (table_jobs env details d tcs))"
proof -
  let ?cos = "with_ordinals [] (snd tcs)" and ?key = "\<lambda>co. (sc_chunk_time (fst co), snd co)"
  have "length ?cos = length (snd tcs)" by (metis length_map with_ordinals_fst)
  with n have d: "distinct (map ?key ?cos)" by (intro ordinals_distinct) (simp add: table_jobs_def)
  have path: "(pj_path \<circ> persist_job_for env details d (fst tcs)) co = job_path env details d (fst tcs) (sc_chunk_time (fst co)) (snd co)" for co
    by (simp add: persist_job_for_def case_prod_beta)
  have "inj_on (pj_path \<circ> persist_job_for env details d (fst tcs)) (set ?cos)"
  proof (rule inj_onI)
    fix x y
    assume xy: "x \<in> set ?cos" "y \<in> set ?cos"
      and eq: "(pj_path \<circ> persist_job_for env details d (fst tcs)) x = (pj_path \<circ> persist_job_for env details d (fst tcs)) y"
    have "sc_chunk_time (fst co) \<in> cts" if "co \<in> set ?cos" for co
      using cts [of "persist_job_for env details d (fst tcs) co"] that
      by (simp add: table_jobs_def persist_job_for_def case_prod_beta)
    with job_path_inject [where d = d and ct = "sc_chunk_time (fst x)" and ct' = "sc_chunk_time (fst y)", OF env] eq xy
    have "?key x = ?key y" unfolding path by auto
    with d xy show "x = y" by (auto simp: distinct_map dest: inj_onD)
  qed
  moreover have "distinct ?cos" using d by (simp add: distinct_map)
  ultimately show ?thesis by (simp add: table_jobs_def distinct_map)
qed

lemma table_jobs_path_keys:
  "x \<in> pj_path ` set (table_jobs env details d tcs) \<Longrightarrow> \<exists>ct k. x = job_path env details d (fst tcs) ct k"
  "x \<in> pj_path ` set (db_jobs env details dm) \<Longrightarrow> \<exists>t ct k. x = job_path env details (fst dm) t ct k"
  by (force simp: table_jobs_def db_jobs_def persist_job_for_def case_prod_beta)+

lemma db_jobs_paths:
  assumes env: "env_ok env cts" and n: "length (db_jobs env details dm) < 2 ^ 32" and dm: "distinct (map fst (snd dm))"
    and cts: "\<And>j. j \<in> set (db_jobs env details dm) \<Longrightarrow> pj_chunk_time j \<in> cts"
  shows "distinct (map pj_path (db_jobs env details dm))"
proof -
  have "distinct (concat (map (\<lambda>tcs. map pj_path (table_jobs env details (fst dm) tcs)) (snd dm)))"
  proof (rule distinct_concat_keyed [OF dm])
    fix tcs
    assume tcs: "tcs \<in> set (snd dm)"
    then have "length (table_jobs env details (fst dm) tcs) \<le> length (db_jobs env details dm)"
      by (auto simp: db_jobs_def length_concat comp_def intro: member_le_sum_list)
    moreover have "set (table_jobs env details (fst dm) tcs) \<subseteq> set (db_jobs env details dm)" using tcs by (auto simp: db_jobs_def)
    ultimately show "distinct (map pj_path (table_jobs env details (fst dm) tcs))"
      using table_jobs_paths [OF env] n cts by (meson le_less_trans subsetD)
  next
    fix x y j
    assume "j \<in> set (map pj_path (table_jobs env details (fst dm) x))" "j \<in> set (map pj_path (table_jobs env details (fst dm) y))"
    then obtain ct k ct' k' where "job_path env details (fst dm) (fst x) ct k = job_path env details (fst dm) (fst y) ct' k'"
      using table_jobs_path_keys(1) by (metis list.set_map)
    from job_path_inject [OF env this] show "fst x = fst y" by blast
  qed
  then show ?thesis by (simp add: db_jobs_def map_concat comp_def)
qed

lemma plan_paths_distinct:
  assumes plan: "plan_persist_jobs env details st = Inr (jobs, st')" and st: "state_shows cat sr st"
    and env: "env_ok env (pj_chunk_time ` set jobs)" and n: "length jobs < 2 ^ 32"
  shows "distinct (map pj_path jobs)"
proof -
  have "keys_distinct (snd dm)" if "dm \<in> set st" for dm
  proof -
    have "keys_distinct st" "db_shows cat (fst dm) (sr (fst dm)) (the_or [] (map_of st (fst dm)))"
      using st by (simp_all add: state_shows_def)
    moreover then have "map_of st (fst dm) = Some (snd dm)"
      using map_of_is_SomeI [of st "fst dm" "snd dm"] that by (simp add: keys_distinct_def)
    ultimately show ?thesis by (simp add: db_shows_def)
  qed
  with plan_persist_jobs_jobs [OF plan] st obtain dms where dms: "jobs = concat (map (db_jobs env details) dms)"
      "distinct (map fst dms)" "list_all (\<lambda>dm. distinct (map fst (snd dm))) dms" by (auto simp: state_shows_def)
  have "distinct (concat (map (\<lambda>dm. map pj_path (db_jobs env details dm)) dms))"
  proof (rule distinct_concat_keyed [OF dms(2)])
    fix dm
    assume dm: "dm \<in> set dms"
    then have "length (db_jobs env details dm) \<le> length jobs"
      by (auto simp: dms(1) length_concat comp_def intro: member_le_sum_list)
    moreover have "set (db_jobs env details dm) \<subseteq> set jobs" using dm by (auto simp: dms(1))
    ultimately show "distinct (map pj_path (db_jobs env details dm))"
      using db_jobs_paths [OF env, of details dm] n dm dms(3) by (auto simp: list_all_iff)
  next
    fix x y j
    assume "j \<in> set (map pj_path (db_jobs env details x))" "j \<in> set (map pj_path (db_jobs env details y))"
    then obtain t ct k t' ct' k' where "job_path env details (fst x) t ct k = job_path env details (fst y) t' ct' k'"
      using table_jobs_path_keys(2) by (metis list.set_map)
    from job_path_inject [OF env this] show "fst x = fst y" by blast
  qed
  then show ?thesis by (simp add: dms(1) map_concat comp_def)
qed

subsection \<open>Finished jobs\<close>

text \<open>Jobs finish in any order, each with the identifier, size and rows its file got.\<close>

type_synonym job_end = "persist_job \<times> nat \<times> nat \<times> nat \<times> nat"

definition finish_jobs :: "job_end list \<Rightarrow> queryable_buffer \<times> persisted_snapshot \<Rightarrow> queryable_buffer \<times> persisted_snapshot" where
  "finish_jobs es = fold (\<lambda>(job, file_id, size_bytes, rows, next_id). finish_job job file_id size_bytes rows next_id) es"

definition ended_file :: "job_end \<Rightarrow> located_file" where
  "ended_file e = (case e of (job, file_id, size_bytes, rows, _) \<Rightarrow>
     (pj_database_id job, pj_table_id job, job_file job file_id size_bytes rows))"

definition drop_snapshot_rows :: "(nat \<Rightarrow> nat \<Rightarrow> bool) \<Rightarrow> (nat \<Rightarrow> nat \<Rightarrow> shown_rows) \<Rightarrow> nat \<Rightarrow> nat \<Rightarrow> shown_rows" where
  "drop_snapshot_rows P sr = (\<lambda>d t. if P d t then (\<lambda>_. [], snd (sr d t)) else sr d t)"

lemma clear_table_snapshots_shows:
  assumes st: "state_shows cat sr st"
  shows "state_shows cat (drop_snapshot_rows (\<lambda>d' t'. d' = d \<and> t' = t) sr) (clear_table_snapshots d t st)"
proof -
  let ?sr = "drop_snapshot_rows (\<lambda>d' t'. d' = d \<and> t' = t) sr"
  have dist: "keys_distinct st" and each: "\<And>d. db_shows cat d (sr d) (the_or [] (map_of st d))"
    using st by (simp_all add: state_shows_def)
  show ?thesis
  proof (cases "\<exists>m tb. map_of st d = Some m \<and> map_of m t = Some tb")
    case False
    then have "map_of (the_or [] (map_of st d)) t = None" by (cases "map_of st d") auto
    with each [of d] have "table_shows cat d t (sr d t) None" unfolding db_shows_def by metis
    then have "?sr = sr" by (auto simp: drop_snapshot_rows_def table_shows_def fun_eq_iff)
    moreover have "clear_table_snapshots d t st = st" using False by (auto simp: clear_table_snapshots_def split: option.splits)
    ultimately show ?thesis using st by simp
  next
    case True
    then obtain m tb where m: "map_of st d = Some m" "map_of m t = Some tb" by blast
    with each [of d] have db: "db_shows cat d (sr d) m" by simp
    with m(2) have "table_shows cat d t (sr d t) (Some tb)" unfolding db_shows_def by metis
    then obtain td where td: "defined_table cat d t td" "buffer_shows td (sr d t) tb" by (auto simp: table_shows_def)
    moreover have "shown_step ClearSnapshots (sr d t) = (\<lambda>_. [], snd (sr d t))" by (cases "sr d t") simp
    ultimately have "buffer_shows td (\<lambda>_. [], snd (sr d t)) (clear_snapshots tb)"
      using buffer_step_shows [of td ClearSnapshots "sr d t" tb] by (simp add: defined_table_def)
    with td(1) db have new: "db_shows cat d (?sr d) (AList.update t (clear_snapshots tb) m)"
      by (auto simp: db_shows_def update_conv' keys_distinct_def distinct_update drop_snapshot_rows_def table_shows_def)
    have "db_shows cat d' (?sr d') (the_or [] (map_of (AList.update d (AList.update t (clear_snapshots tb) m) st) d'))" for d'
      using new each [of d'] by (auto simp: update_conv' drop_snapshot_rows_def)
    moreover have "clear_table_snapshots d t st = AList.update d (AList.update t (clear_snapshots tb) m) st"
      using m by (simp add: clear_table_snapshots_def)
    ultimately show ?thesis using st m(1)
      by (auto simp: state_shows_def update_conv' keys_distinct_def distinct_update split: if_splits)
  qed
qed

lemma finish_jobs_simps [simp]:
  "finish_jobs [] s = s"
  "finish_jobs (e # es) s = finish_jobs es
     (case e of (job, file_id, size_bytes, rows, next_id) \<Rightarrow> finish_job job file_id size_bytes rows next_id s)"
  by (simp_all add: finish_jobs_def case_prod_beta)

lemma files_at_add_persisted:
  "set (files_at (lg_files (add_persisted_file d t f lg)) d' t') =
     (if d' = d \<and> t' = t then insert f (set (files_at (lg_files lg) d t)) else set (files_at (lg_files lg) d' t'))"
  by (auto simp: add_persisted_file_def Let_def files_at_def push_file_def map_of_entry_upd)

lemma finish_jobs_shows:
  assumes "state_shows cat sr (qb_buffer qb)" "finish_jobs es (qb, snap) = (qb', snap')"
  shows "state_shows cat (drop_snapshot_rows (\<lambda>d t. \<exists>e \<in> set es. pj_database_id (fst e) = d \<and> pj_table_id (fst e) = t) sr) (qb_buffer qb') \<and>
    mset (each_file (ps_databases snap')) = mset (each_file (ps_databases snap)) + image_mset ended_file (mset es) \<and>
    ps_removed_files snap' = ps_removed_files snap \<and>
    (\<forall>(d, t, f) \<in> ended_file ` set es. f \<in> set (files_at (lg_files (qb_persisted_files qb')) d t)) \<and>
    (\<forall>d t. set (files_at (lg_files (qb_persisted_files qb)) d t) \<subseteq> set (files_at (lg_files (qb_persisted_files qb')) d t))"
  using assms
proof (induction es arbitrary: qb snap sr)
  case Nil
  then show ?case by (simp add: drop_snapshot_rows_def)
next
  case (Cons e es)
  obtain j i s r n where e: "e = (j, i, s, r, n)" by (cases e)
  let ?d = "pj_database_id j" and ?t = "pj_table_id j" and ?f = "job_file j i s r"
  let ?sr = "drop_snapshot_rows (\<lambda>d' t'. d' = ?d \<and> t' = ?t) sr"
  obtain qb1 snap1 where one: "finish_job j i s r n (qb, snap) = (qb1, snap1)" by (cases "finish_job j i s r n (qb, snap)")
  then have qb1: "qb_buffer qb1 = clear_table_snapshots ?d ?t (qb_buffer qb)"
      "qb_persisted_files qb1 = add_persisted_file ?d ?t ?f (qb_persisted_files qb)"
      "ps_databases snap1 = push_file ?d ?t ?f (ps_databases snap)" "ps_removed_files snap1 = ps_removed_files snap"
    by (auto simp: finish_job_def Let_def add_parquet_file_def)
  have "drop_snapshot_rows (\<lambda>d t. \<exists>e \<in> set es. pj_database_id (fst e) = d \<and> pj_table_id (fst e) = t) ?sr =
      drop_snapshot_rows (\<lambda>d t. \<exists>e \<in> set (e # es). pj_database_id (fst e) = d \<and> pj_table_id (fst e) = t) sr"
    by (auto simp: drop_snapshot_rows_def e fun_eq_iff)
  moreover have "state_shows cat ?sr (qb_buffer qb1)"
    using clear_table_snapshots_shows [OF Cons.prems(1)] by (simp add: qb1(1))
  moreover have "finish_jobs es (qb1, snap1) = (qb', snap')" using Cons.prems(2) by (simp add: e one)
  ultimately show ?case using Cons.IH [of ?sr qb1 snap1]
    by (auto simp: qb1 mset_each_push files_at_add_persisted e ended_file_def split: if_splits)
qed

lemma jobs_hold_empty: "jobs_hold cat (\<lambda>_. []) jobs \<Longrightarrow> jobs = []"
proof -
  assume "jobs_hold cat (\<lambda>_. []) jobs"
  then obtain ps where ps: "rows_at ps = (\<lambda>_. [])" "list_all2 (job_takes cat) ps jobs" by (auto simp: jobs_hold_def)
  have "ps = []"
  proof (cases ps)
    case (Cons p ps')
    with ps(2) have "snd p \<noteq> []" by (auto simp: job_takes_def list_all2_Cons1)
    with Cons fun_cong [OF ps(1), of "fst p"] show ?thesis by simp
  qed
  with ps(2) show ?thesis by simp
qed

lemma finished_rows:
  assumes jobs: "\<And>d t. jobs_hold cat (planned_rows cat m sr d t) (jobs_of d t jobs)" and es: "mset (map fst es) = mset jobs"
  shows "drop_snapshot_rows (\<lambda>d t. \<exists>e \<in> set es. pj_database_id (fst e) = d \<and> pj_table_id (fst e) = t) (after_plan cat m sr) =
    (\<lambda>d t. if skipped cat d t then sr d t else (\<lambda>_. [], kept_rows m (snd (sr d t))))"
proof (intro ext)
  fix d t
  have "set jobs = fst ` set es" using arg_cong [OF es, of set_mset] by simp
  then have ex: "(\<exists>e \<in> set es. pj_database_id (fst e) = d \<and> pj_table_id (fst e) = t) \<longleftrightarrow> jobs_of d t jobs \<noteq> []"
    by (auto simp: jobs_of_def filter_empty_conv)
  have "jobs_of d t jobs = []" if "skipped cat d t" using jobs_hold_empty jobs [of d t] that by (simp add: planned_rows_def)
  moreover have "taken_rows m (snd (sr d t)) = (\<lambda>_. [])" if "\<not> skipped cat d t" "jobs_of d t jobs = []"
    using jobs [of d t] that by (simp add: planned_rows_def)
  ultimately show "drop_snapshot_rows (\<lambda>d t. \<exists>e \<in> set es. pj_database_id (fst e) = d \<and> pj_table_id (fst e) = t) (after_plan cat m sr) d t =
      (if skipped cat d t then sr d t else (\<lambda>_. [], kept_rows m (snd (sr d t))))"
    by (auto simp: drop_snapshot_rows_def ex after_plan_def)
qed

section \<open>Properties\<close>

lemma buffer_and_plan_snapshot_shows:
  assumes st: "state_shows (be_catalog env) sr (qb_buffer qb)" and ok: "list_all (node_op_ok (be_catalog env)) (wal_ops write)"
  defines "sr' \<equiv> \<lambda>d. with_rows (sr d) (node_ops_rows (wal_ops write) d)"
  shows "\<exists>jobs snap qb'. buffer_and_plan_snapshot env next_id retention write details qb = Inr (jobs, snap, qb') \<and>
     state_shows (be_catalog env) (after_plan (be_catalog env) (end_time_marker details) sr') (qb_buffer qb') \<and> ps_databases snap = [] \<and>
     (\<forall>d t. jobs_hold (be_catalog env) (planned_rows (be_catalog env) (end_time_marker details) sr' d t) (jobs_of d t jobs)) \<and>
     (env_ok env (pj_chunk_time ` set jobs) \<and> length jobs < 2 ^ 32 \<longrightarrow> distinct (map pj_path jobs))"
proof -
  from buffer_write_ops_shows [OF st ok] obtain st1 where
    st1: "buffer_write_ops (wal_ops write) (qb_buffer qb) = Inr st1" "state_shows (be_catalog env) sr' st1" by (auto simp: sr'_def)
  from plan_persist_jobs_shows [OF st1(2), of details] obtain jobs st2 where
    st2: "plan_persist_jobs env details st1 = Inr (jobs, st2)" "state_shows (be_catalog env) (after_plan (be_catalog env) (end_time_marker details) sr') st2"
      "\<forall>d t. jobs_hold (be_catalog env) (planned_rows (be_catalog env) (end_time_marker details) sr' d t) (jobs_of d t jobs)" by blast
  from plan_paths_distinct [OF st2(1) st1(2)] st1(1) st2 show ?thesis
    by (auto simp: buffer_and_plan_snapshot_def case_prod_beta Let_def persisted_snapshot_new_def)
qed

text \<open>
  C12. A snapshot moves every older row into exactly one parquet file. The jobs of a snapshot hold,
  for each live table, the rows below the marker, the rows of the WAL file that triggers it included:
  all of them, each once, in order of arrival and with their time range; rows at or above the marker
  stay in the buffer and tables being deleted are left alone. The files have distinct paths. When the
  jobs have finished, in whatever order, the manifest lists their files and nothing else, the ledger
  has them, and the buffer shows the rows at or above the marker only.
\<close>

theorem snapshot_persists_older_rows:
  assumes "state_shows (be_catalog env) sr (qb_buffer qb)" "list_all (node_op_ok (be_catalog env)) (wal_ops write)"
  shows "\<exists>jobs snap qb'. buffer_and_plan_snapshot env next_id retention write details qb = Inr (jobs, snap, qb') \<and>
    (let sr' = (\<lambda>d. with_rows (sr d) (node_ops_rows (wal_ops write) d)); m = end_time_marker details in
     (\<forall>d t. jobs_hold (be_catalog env)
        (if skipped (be_catalog env) d t then (\<lambda>_. []) else taken_rows m (snd (sr' d t))) (jobs_of d t jobs)) \<and>
     (env_ok env (pj_chunk_time ` set jobs) \<and> length jobs < 2 ^ 32 \<longrightarrow> distinct (map pj_path jobs)) \<and>
     (\<forall>es. mset (map fst es) = mset jobs \<longrightarrow>
        (let (qb2, snap2) = finish_jobs es (qb', snap) in
         state_shows (be_catalog env)
           (\<lambda>d t. if skipped (be_catalog env) d t then sr' d t else (\<lambda>_. [], kept_rows m (snd (sr' d t)))) (qb_buffer qb2) \<and>
         mset (each_file (ps_databases snap2)) = image_mset ended_file (mset es) \<and>
         (\<forall>(d, t, f) \<in> ended_file ` set es. f \<in> set (files_at (lg_files (qb_persisted_files qb2)) d t)))))"
proof -
  let ?cat = "be_catalog env" and ?sr = "\<lambda>d. with_rows (sr d) (node_ops_rows (wal_ops write) d)"
  let ?m = "end_time_marker details"
  from buffer_and_plan_snapshot_shows [OF assms, of next_id retention details] obtain jobs snap qb' where
    plan: "buffer_and_plan_snapshot env next_id retention write details qb = Inr (jobs, snap, qb')" and
    shown: "state_shows ?cat (after_plan ?cat ?m ?sr) (qb_buffer qb')" and empty: "ps_databases snap = []" and
    jobs: "\<forall>d t. jobs_hold ?cat (planned_rows ?cat ?m ?sr d t) (jobs_of d t jobs)" and
    paths: "env_ok env (pj_chunk_time ` set jobs) \<and> length jobs < 2 ^ 32 \<longrightarrow> distinct (map pj_path jobs)" by blast
  have "\<forall>es. mset (map fst es) = mset jobs \<longrightarrow> (let (qb2, snap2) = finish_jobs es (qb', snap) in
      state_shows ?cat (\<lambda>d t. if skipped ?cat d t then ?sr d t else (\<lambda>_. [], kept_rows ?m (snd (?sr d t)))) (qb_buffer qb2) \<and>
      mset (each_file (ps_databases snap2)) = image_mset ended_file (mset es) \<and>
      (\<forall>(d, t, f) \<in> ended_file ` set es. f \<in> set (files_at (lg_files (qb_persisted_files qb2)) d t)))"
  proof (intro allI impI)
    fix es :: "job_end list"
    assume es: "mset (map fst es) = mset jobs"
    obtain qb2 snap2 where r: "finish_jobs es (qb', snap) = (qb2, snap2)" by (cases "finish_jobs es (qb', snap)")
    show "let (qb2, snap2) = finish_jobs es (qb', snap) in
      state_shows ?cat (\<lambda>d t. if skipped ?cat d t then ?sr d t else (\<lambda>_. [], kept_rows ?m (snd (?sr d t)))) (qb_buffer qb2) \<and>
      mset (each_file (ps_databases snap2)) = image_mset ended_file (mset es) \<and>
      (\<forall>(d, t, f) \<in> ended_file ` set es. f \<in> set (files_at (lg_files (qb_persisted_files qb2)) d t))"
      unfolding r Let_def prod.case
      using finish_jobs_shows [OF shown r] finished_rows [OF spec [OF spec [OF jobs]] es] empty by simp
  qed
  with plan jobs paths show ?thesis unfolding planned_rows_def Let_def by blast
qed

definition demo_catalog :: buffer_catalog where
  "demo_catalog = \<lparr> database_deleted = (\<lambda>_. False), table_deleted = (\<lambda>_ _. False),
     db_table_definition = (\<lambda>d. if d = 1 then Some (\<lambda>t. if t = 2 then Some demo_td else None) else None),
     cat_sequence_number = 4 \<rparr>"

definition demo_env :: buffer_env where
  "demo_env = \<lparr> be_paths = plain_paths, be_date_string = (\<lambda>t. ''2026-01-31/'' @ show_nat (nat t)),
     be_node = ''node'', be_catalog = demo_catalog \<rparr>"

definition demo_write :: "(int \<times> row list) list \<Rightarrow> wal_contents" where
  "demo_write tcs = \<lparr> persist_timestamp_ms = 0, wc_min_timestamp_ns = 0, wc_max_timestamp_ns = 12, wal_file_number = 7,
     wal_ops = [Write \<lparr> catalog_sequence = 4, database_id = 1, database_name = ''db'',
       wb_table_chunks = [(2, \<lparr> tc_min_time = 0, tc_max_time = 12,
         chunk_time_to_chunk = map (\<lambda>(ct, rows). (ct, \<lparr> chunk_rows = rows \<rparr>)) tcs \<rparr>)],
       wb_min_time_ns = 0, wb_max_time_ns = 12 \<rparr>], wal_snapshot = None \<rparr>"

definition demo_details :: "int \<Rightarrow> snapshot_details" where
  "demo_details m = \<lparr> sd_snapshot_sequence_number = 3, end_time_marker = m, first_wal_sequence_number = 5,
     last_wal_sequence_number = 7, forced = False \<rparr>"

definition empty_buffer :: queryable_buffer where
  "empty_buffer = \<lparr> qb_buffer = [], qb_persisted_files = ledger_default \<rparr>"

lemma state_shows_empty: "state_shows cat (\<lambda>_ _. (\<lambda>_. [], \<lambda>_. [])) []"
  by (simp add: state_shows_def db_shows_def keys_distinct_def table_shows_def)

lemma demo_td_ok: "td_ok demo_td"
  by (auto simp: demo_row_simps)

lemma demo_write_ok:
  "list_all (\<lambda>(ct, rows). rows \<noteq> [] \<and> list_all (row_ok demo_td) rows) tcs \<Longrightarrow>
   list_all (node_op_ok (be_catalog demo_env)) (wal_ops (demo_write tcs))"
  using demo_td_ok
  by (auto simp: demo_env_def demo_catalog_def demo_write_def node_op_ok_def defined_table_def chunks_ok_def list_all_iff
      intro!: exI [of _ demo_td])

theorem snapshot_persists_older_rows_witness:
  "\<exists>jobs snap qb'. buffer_and_plan_snapshot demo_env 9 [] (demo_write [(0, [demo_row 7 1, bare_row 5]), (10, [demo_row 12 2])])
       (demo_details 10) empty_buffer = Inr (jobs, snap, qb') \<and>
     jobs_hold demo_catalog (\<lambda>ct. if ct = 0 then [demo_row 7 1, bare_row 5] else []) (jobs_of 1 2 jobs)"
proof -
  let ?w = "demo_write [(0, [demo_row 7 1, bare_row 5]), (10, [demo_row 12 2])]"
  have "list_all (node_op_ok (be_catalog demo_env)) (wal_ops ?w)"
    by (rule demo_write_ok) (simp add: demo_row_simps)
  moreover have "state_shows (be_catalog demo_env) (\<lambda>_ _. (\<lambda>_. [], \<lambda>_. [])) (qb_buffer empty_buffer)"
    by (simp add: empty_buffer_def state_shows_empty)
  ultimately obtain jobs snap qb' where
    run: "buffer_and_plan_snapshot demo_env 9 [] ?w (demo_details 10) empty_buffer = Inr (jobs, snap, qb')"
    and "\<forall>d t. jobs_hold (be_catalog demo_env)
        (if skipped (be_catalog demo_env) d t then (\<lambda>_. [])
         else taken_rows (end_time_marker (demo_details 10))
           (snd (with_rows (\<lambda>_. (\<lambda>_. [], \<lambda>_. [])) (node_ops_rows (wal_ops ?w) d) t))) (jobs_of d t jobs)"
    using snapshot_persists_older_rows [of demo_env "\<lambda>_ _. (\<lambda>_. [], \<lambda>_. [])" empty_buffer ?w 9 "[]" "demo_details 10"]
    unfolding Let_def by blast
  from this(2) have "jobs_hold (be_catalog demo_env)
        (if skipped (be_catalog demo_env) 1 2 then (\<lambda>_. [])
         else taken_rows (end_time_marker (demo_details 10))
           (snd (with_rows (\<lambda>_. (\<lambda>_. [], \<lambda>_. [])) (node_ops_rows (wal_ops ?w) 1) 2))) (jobs_of 1 2 jobs)" by blast
  moreover have "taken_rows 10 (node_ops_rows (wal_ops ?w) 1 2) = (\<lambda>ct. if ct = 0 then [demo_row 7 1, bare_row 5] else [])"
    by (auto simp: fun_eq_iff taken_rows_def demo_write_def node_ops_rows_def node_op_rows_def tables_rows_def chunks_rows_def)
  ultimately show ?thesis using run
    by (simp add: demo_env_def demo_catalog_def skipped_def with_rows_def demo_details_def)
qed

definition shown_batches :: "(int \<times> (int \<times> int) \<times> nat \<times> record_batch list) list \<Rightarrow> int \<Rightarrow> record_batch list" where
  "shown_batches out ct = (case map_of out ct of None \<Rightarrow> [] | Some (_, _, rbs) \<Rightarrow> rbs)"

lemma list_all2_left: "list_all2 P xs ys \<Longrightarrow> (\<And>x y. P x y \<Longrightarrow> Q x) \<Longrightarrow> list_all Q xs"
  by (induction xs ys rule: list_all2_induct) auto

lemma buffer_query_shows:
  assumes st: "state_shows cat sr (qb_buffer qb)" and td: "defined_table cat d t td"
  shows "\<exists>out. buffer_table_chunks_for td d t flt qb = Inr (Inr out) \<and>
     (\<forall>ct. fst (sr d t) ct @ snd (sr d t) ct = [] \<longrightarrow> shown_batches out ct = [])"
proof (cases "\<exists>m tb. map_of (qb_buffer qb) d = Some m \<and> map_of m t = Some tb")
  case False
  then have "buffer_table_chunks_for td d t flt qb = Inr (Inr [])"
    by (auto simp: buffer_table_chunks_for_def split: option.splits)
  then show ?thesis by (simp add: shown_batches_def)
next
  case True
  then obtain m tb where m: "map_of (qb_buffer qb) d = Some m" "map_of m t = Some tb" by blast
  have "db_shows cat d (sr d) (the_or [] (map_of (qb_buffer qb) d))" using st by (simp add: state_shows_def)
  with m(1) have "table_shows cat d t (sr d t) (map_of m t)" by (simp add: db_shows_def)
  with m(2) td obtain S R where h: "buffer_holds td S R tb" "sr d t = (rows_at S, rows_at R)" and "td_ok td"
    by (auto simp: table_shows_def defined_table_def buffer_shows_def)
  from partitioned_record_batches_hold [OF this(3) h(1), of flt] obtain bs where
    bs: "partitioned_record_batches td flt tb = Inr (Inr bs)"
      "batches_hold td (filter (may_match flt) S @ filter (may_match flt) R) bs" by blast
  have pieces: "filter (\<lambda>p. fst p = ct) ps = []" if "rows_at ps ct = []" "list_all (\<lambda>p. snd p \<noteq> []) ps" for ps :: pieces and ct
    using that by (induction ps) (auto split: if_splits)
  have "list_all (\<lambda>p. snd p \<noteq> []) (S @ R)"
    using h(1) list_all2_left [of "piece_taken td" S "tb_snapshotting tb" "\<lambda>p. snd p \<noteq> []"]
      list_all2_left [OF buffer_pieces [OF h(1)], of "\<lambda>p. snd p \<noteq> []"]
    by (simp add: buffer_holds_def piece_taken_def rows_hold_def)
  then have "batches_at bs ct = []" if "fst (sr d t) ct @ snd (sr d t) ct = []" for ct
  proof -
    from that h(2) have "rows_at (S @ R) ct = []" by simp
    with pieces [of "S @ R" ct] \<open>list_all _ (S @ R)\<close> have "filter (\<lambda>p. fst p = ct) (S @ R) = []" by blast
    then have "filter (\<lambda>p. fst p = ct) (filter (may_match flt) S @ filter (may_match flt) R) = []"
      by (auto simp: filter_empty_conv)
    with bs(2) show ?thesis by (metis batches_hold_def list_all2_Nil)
  qed
  moreover have "shown_batches (map (\<lambda>(gen_time, ts, rbs). (gen_time, ts, sum_list (map num_rows rbs), rbs)) bs) ct = batches_at bs ct" for ct
    by (induction bs) (auto simp: shown_batches_def batches_at_def)
  ultimately show ?thesis using m bs(1) by (auto simp: buffer_table_chunks_for_def)
qed

lemma job_older:
  assumes "jobs_hold cat (planned_rows cat m sr d t) (jobs_of d t jobs)" "j \<in> set jobs" "pj_database_id j = d" "pj_table_id j = t"
  shows "pj_chunk_time j < m" "\<not> skipped cat d t"
proof -
  obtain ps where ps: "rows_at ps = planned_rows cat m sr d t" "list_all2 (job_takes cat) ps (jobs_of d t jobs)"
    using assms(1) by (auto simp: jobs_hold_def)
  have "j \<in> set (jobs_of d t jobs)" using assms(2-4) by (simp add: jobs_of_def)
  with ps(2) obtain p where p: "p \<in> set ps" "job_takes cat p j" by (metis list_all2_conv_all_nth in_set_conv_nth)
  then have "rows_at ps (fst p) \<noteq> []" by (force simp: rows_at_def job_takes_def)
  with ps(1) p(2) show "pj_chunk_time j < m" "\<not> skipped cat d t"
    by (auto simp: planned_rows_def taken_rows_def job_takes_def split: if_splits)
qed

text \<open>
  C36. The first finished job of a table hides the table's other chunks. A snapshot with two jobs of
  one table drops all of the table's snapshotting chunks when the first finishes: until the second
  has finished too, a query of the buffer gives no batch below the marker and the ledger has no file
  at the second job's path, so its rows are shown by neither.
\<close>

theorem unfinished_chunks_hidden:
  assumes "state_shows (be_catalog env) sr (qb_buffer qb)" "list_all (node_op_ok (be_catalog env)) (wal_ops write)"
    and "buffer_and_plan_snapshot env next_id retention write details qb = Inr (jobs, snap, qb')"
    and "j \<in> set jobs" "j' \<in> set jobs" "pj_path j' \<noteq> pj_path j" "pj_path j' \<notin> pf_path ` set (files_at (lg_files (qb_persisted_files qb')) d t)"
    and "pj_database_id j = d" "pj_table_id j = t" "pj_database_id j' = d" "pj_table_id j' = t"
    and "defined_table (be_catalog env) d t td"
  shows "let qb2 = fst (finish_job j file_id size_bytes rows next_id' (qb', snap)) in
    pj_chunk_time j' < end_time_marker details \<and>
    (\<exists>out. buffer_table_chunks_for td d t flt qb2 = Inr (Inr out) \<and> (\<forall>ct < end_time_marker details. shown_batches out ct = [])) \<and>
    pj_path j' \<notin> pf_path ` set (files_at (lg_files (qb_persisted_files qb2)) d t)"
proof -
  let ?cat = "be_catalog env" and ?m = "end_time_marker details"
  let ?sr = "\<lambda>d. with_rows (sr d) (node_ops_rows (wal_ops write) d)"
  let ?qb2 = "fst (finish_job j file_id size_bytes rows next_id' (qb', snap))"
  from buffer_and_plan_snapshot_shows [OF assms(1,2), of next_id retention details] assms(3)
  have shown: "state_shows ?cat (after_plan ?cat ?m ?sr) (qb_buffer qb')"
    and jobs: "jobs_hold ?cat (planned_rows ?cat ?m ?sr d t) (jobs_of d t jobs)" by auto
  note older = job_older [OF jobs assms(5,10,11)]
  let ?sr2 = "drop_snapshot_rows (\<lambda>d' t'. d' = d \<and> t' = t) (after_plan ?cat ?m ?sr)"
  have "state_shows ?cat ?sr2 (qb_buffer ?qb2)"
    using clear_table_snapshots_shows [OF shown, of d t] assms(8,9) by (simp add: finish_job_def Let_def)
  from buffer_query_shows [OF this assms(12), of flt] obtain out where
    out: "buffer_table_chunks_for td d t flt ?qb2 = Inr (Inr out)"
      "\<forall>ct. fst (?sr2 d t) ct @ snd (?sr2 d t) ct = [] \<longrightarrow> shown_batches out ct = []" by blast
  have "fst (?sr2 d t) ct @ snd (?sr2 d t) ct = []" if "ct < ?m" for ct
    using that older(2) by (simp add: drop_snapshot_rows_def after_plan_def kept_rows_def)
  with out(2) have hidden: "\<forall>ct < ?m. shown_batches out ct = []" by blast
  have "pj_path j' \<notin> pf_path ` set (files_at (lg_files (qb_persisted_files ?qb2)) d t)"
    using assms(6-9) by (auto simp: finish_job_def Let_def files_at_add_persisted job_file_def)
  with older(1) out(1) hidden show ?thesis unfolding Let_def by blast
qed

lemmas plan_simps =
  demo_env_def demo_catalog_def demo_write_def demo_details_def empty_buffer_def buffer_and_plan_snapshot_def
  buffer_write_ops_def buffer_write_op_def buffer_write_batch_def buffer_table_chunks_def plan_persist_jobs_def plan_db_def
  plan_table_def persist_job_for_def

lemma demo_plan_two:
  "\<exists>j j' snap qb'. buffer_and_plan_snapshot demo_env 9 [] (demo_write [(0, [bare_row 5]), (10, [bare_row 12])])
     (demo_details 20) empty_buffer = Inr ([j, j'], snap, qb') \<and> files_at (lg_files (qb_persisted_files qb')) 1 2 = [] \<and>
     pj_database_id j = 1 \<and> pj_table_id j = 2 \<and> pj_database_id j' = 1 \<and> pj_table_id j' = 2 \<and> pj_path j' \<noteq> pj_path j"
proof -
  have "files_at (lg_files (snd (remove_files_for_deletion [] ledger_default))) 1 2 = []"
    by (simp add: remove_files_for_deletion_def queue_removals_def apply_removals_def ledger_default_def files_at_def)
  moreover have "parquet_file_path_with_chunk_ordinal plain_paths (be_date_string demo_env) ''node'' 1 2 10 7 0 \<noteq>
      parquet_file_path_with_chunk_ordinal plain_paths (be_date_string demo_env) ''node'' 1 2 0 7 0"
    by (simp add: parquet_file_path_with_chunk_ordinal_def plain_paths_def demo_env_def show_nat_inj)
  ultimately show ?thesis by (simp add: plan_simps buffer_run_simps case_prod_beta Let_def)
qed

theorem unfinished_chunks_hidden_witness:
  "\<exists>j j' snap qb' out. buffer_and_plan_snapshot demo_env 9 [] (demo_write [(0, [bare_row 5]), (10, [bare_row 12])])
       (demo_details 20) empty_buffer = Inr ([j, j'], snap, qb') \<and>
     (let qb2 = fst (finish_job j 9 100 1 10 (qb', snap)) in
      pj_chunk_time j' < 20 \<and> buffer_table_chunks_for demo_td 1 2 chunk_filter_default qb2 = Inr (Inr out) \<and>
      (\<forall>ct < 20. shown_batches out ct = []) \<and>
      pj_path j' \<notin> pf_path ` set (files_at (lg_files (qb_persisted_files qb2)) 1 2))"
proof -
  let ?w = "demo_write [(0, [bare_row 5]), (10, [bare_row 12])]"
  from demo_plan_two obtain j j' snap qb' where
    run: "buffer_and_plan_snapshot demo_env 9 [] ?w (demo_details 20) empty_buffer = Inr ([j, j'], snap, qb')"
    and j: "files_at (lg_files (qb_persisted_files qb')) 1 2 = []" "pj_database_id j = 1" "pj_table_id j = 2"
      "pj_database_id j' = 1" "pj_table_id j' = 2" "pj_path j' \<noteq> pj_path j" by blast
  have ok: "list_all (node_op_ok (be_catalog demo_env)) (wal_ops ?w)"
    by (rule demo_write_ok) (simp add: demo_row_simps)
  have st: "state_shows (be_catalog demo_env) (\<lambda>_ _. (\<lambda>_. [], \<lambda>_. [])) (qb_buffer empty_buffer)"
    by (simp add: empty_buffer_def state_shows_empty)
  have td: "defined_table (be_catalog demo_env) 1 2 demo_td"
    using demo_td_ok by (simp add: defined_table_def demo_env_def demo_catalog_def)
  have "pj_path j' \<notin> pf_path ` set (files_at (lg_files (qb_persisted_files qb')) 1 2)" "j \<in> set [j, j']" "j' \<in> set [j, j']"
    using j(1) by simp_all
  from unfinished_chunks_hidden [OF st ok run this(2,3) j(6) this(1) j(2-5) td, of 9 100 1 10 chunk_filter_default]
  show ?thesis using run unfolding Let_def by (simp add: demo_details_def)
qed

end
