(* ===== verification/Shared_Inventory.thy ===== *)
theory Shared_Inventory
  imports Paths
begin

text \<open>
  The file inventory the nodes of a cluster share through the object store
  (influxdb3_write/src/shared_inventory.rs): writers publish their snapshot manifests there, the
  compactor its compaction manifests and checkpoints, queriers a heartbeat with the compaction they
  have folded. Every call is a program over the store. \<open>serde_json\<close> is a parameter; the adaptive
  reads and writes are one read and one write of the object.
\<close>

section \<open>Names\<close>

definition SHARED_INVENTORY_PREFIX :: string where "SHARED_INVENTORY_PREFIX = ''_inventory''"

definition wal_dir :: "path_api \<Rightarrow> string" where
  "wal_dir pa = path_from pa (SHARED_INVENTORY_PREFIX @ ''/wal'')"

definition wal_entry :: "path_api \<Rightarrow> string \<Rightarrow> nat \<Rightarrow> string" where
  "wal_entry pa node_id sequence =
     (let stem = u64_max - sequence
      in path_from pa (SHARED_INVENTORY_PREFIX @ ''/wal/'' @ node_id @ ''/'' @ pad0 20 stem @ ''.info.json''))"

definition compaction_dir :: "path_api \<Rightarrow> string" where
  "compaction_dir pa = path_from pa (SHARED_INVENTORY_PREFIX @ ''/compactions'')"

definition compaction_entry :: "path_api \<Rightarrow> string \<Rightarrow> string" where
  "compaction_entry pa compaction_id =
     path_from pa (SHARED_INVENTORY_PREFIX @ ''/compactions/'' @ compaction_id @ ''.compaction.json'')"

definition checkpoint_dir :: "path_api \<Rightarrow> string" where
  "checkpoint_dir pa = path_from pa (SHARED_INVENTORY_PREFIX @ ''/checkpoint'')"

definition checkpoint_entry :: "path_api \<Rightarrow> string \<Rightarrow> string" where
  "checkpoint_entry pa checkpoint_id =
     path_from pa (SHARED_INVENTORY_PREFIX @ ''/checkpoint/'' @ checkpoint_id @ ''.full.json'')"

definition consumer_dir :: "path_api \<Rightarrow> string" where
  "consumer_dir pa = path_from pa (SHARED_INVENTORY_PREFIX @ ''/consumers'')"

definition consumer_entry :: "path_api \<Rightarrow> string \<Rightarrow> string" where
  "consumer_entry pa node_id =
     path_from pa (SHARED_INVENTORY_PREFIX @ ''/consumers/'' @ node_id @ ''.json'')"

section \<open>Documents\<close>

record consumer_heartbeat =
  hb_node_id :: string
  hb_compaction_cursor :: "string option"
  hb_updated_at_ms :: int

record inventory_checkpoint =
  ck_wal_high_water :: "(string \<times> nat) list"
  ck_compactions_high_water :: "string option"
  ck_merged_snapshot :: persisted_snapshot
  ck_tombstones :: "(string \<times> nat) list"
  ck_compaction_tombstones :: "(string \<times> string) list"

record loaded_inventory =
  ld_checkpoint :: "inventory_checkpoint option"
  ld_wal_snapshots :: "persisted_snapshot list"
  ld_compactions :: "persisted_snapshot list"
  ld_wal_watermarks :: "(string \<times> nat) list"
  ld_compaction_watermark :: "string option"
  ld_tombstones :: "(string \<times> nat) list"
  ld_compaction_tombstones :: "(string \<times> string) list"

datatype 'e inventory_error = InvObjectStore store_error | InvSerdeJson 'e

type_synonym ('e, 'a) inventory_prog = "('e inventory_error + 'a) prog"

record 'e inventory_json =
  write_snapshot :: "persisted_snapshot \<Rightarrow> 'e + bytes"
  read_snapshot :: "bytes \<Rightarrow> 'e + persisted_snapshot"
  write_full :: "inventory_checkpoint \<Rightarrow> 'e + bytes"
  read_full :: "bytes \<Rightarrow> 'e + inventory_checkpoint"
  write_heartbeat :: "consumer_heartbeat \<Rightarrow> 'e + bytes"
  read_heartbeat :: "bytes \<Rightarrow> 'e + consumer_heartbeat"

text \<open>What is written reads back; \<open>persisted_at\<close> of a snapshot is not part of the document.\<close>

definition inventory_json_ok :: "'e inventory_json \<Rightarrow> bool" where
  "inventory_json_ok js \<longleftrightarrow>
     (\<forall>s b. write_snapshot js s = Inr b \<longrightarrow> read_snapshot js b = Inr (s\<lparr> ps_persisted_at := None \<rparr>)) \<and>
     (\<forall>c b. write_full js c = Inr b \<longrightarrow>
        read_full js b = Inr (c\<lparr> ck_merged_snapshot := (ck_merged_snapshot c)\<lparr> ps_persisted_at := None \<rparr> \<rparr>)) \<and>
     (\<forall>h b. write_heartbeat js h = Inr b \<longrightarrow> read_heartbeat js b = Inr h)"

section \<open>Publishing\<close>

definition bind_io :: "('e, 'a) inventory_prog \<Rightarrow> ('a \<Rightarrow> ('e, 'b) inventory_prog) \<Rightarrow> ('e, 'b) inventory_prog" where
  "bind_io p f = bind_prog p (\<lambda>r. case r of Inl e \<Rightarrow> Done (Inl e) | Inr x \<Rightarrow> f x)"

definition put_document :: "string \<Rightarrow> 'e + bytes \<Rightarrow> ('e, unit) inventory_prog" where
  "put_document path body =
     (case body of
        Inl e \<Rightarrow> Done (Inl (InvSerdeJson e))
      | Inr b \<Rightarrow> Put path b PutOverwrite
          (\<lambda>r. Done (case r of Inl e \<Rightarrow> Inl (InvObjectStore e) | Inr _ \<Rightarrow> Inr ())))"

definition publish_wal_snapshot ::
    "'e inventory_json \<Rightarrow> path_api \<Rightarrow> string \<Rightarrow> persisted_snapshot \<Rightarrow> ('e, unit) inventory_prog" where
  "publish_wal_snapshot js pa node_id snap =
     put_document (wal_entry pa node_id (ps_snapshot_sequence_number snap)) (write_snapshot js snap)"

definition publish_compaction ::
    "'e inventory_json \<Rightarrow> path_api \<Rightarrow> string \<Rightarrow> persisted_snapshot \<Rightarrow> ('e, unit) inventory_prog" where
  "publish_compaction js pa compaction_id snap =
     put_document (compaction_entry pa compaction_id) (write_snapshot js snap)"

text \<open>The identifier is a fresh \<open>Uuid::now_v7\<close>.\<close>

definition write_checkpoint ::
    "'e inventory_json \<Rightarrow> path_api \<Rightarrow> string \<Rightarrow> inventory_checkpoint \<Rightarrow> ('e, string) inventory_prog" where
  "write_checkpoint js pa checkpoint_id cp =
     bind_io (put_document (checkpoint_entry pa checkpoint_id) (write_full js cp)) (\<lambda>_. Done (Inr checkpoint_id))"

definition write_consumer_heartbeat ::
    "'e inventory_json \<Rightarrow> path_api \<Rightarrow> string \<Rightarrow> string option \<Rightarrow> int \<Rightarrow> ('e, unit) inventory_prog" where
  "write_consumer_heartbeat js pa node_id compaction_cursor now_ms =
     (let hb = \<lparr> hb_node_id = node_id, hb_compaction_cursor = compaction_cursor, hb_updated_at_ms = now_ms \<rparr>
      in put_document (consumer_entry pa node_id) (write_heartbeat js hb))"

section \<open>The convergence gate\<close>

primrec consumers_folded ::
    "'e inventory_json \<Rightarrow> string \<Rightarrow> int \<Rightarrow> int \<Rightarrow> string list \<Rightarrow> ('e, bool) inventory_prog" where
  "consumers_folded js compaction_id now_ms ttl_ms [] = Done (Inr True)"
| "consumers_folded js compaction_id now_ms ttl_ms (location # listing) =
     Get location (\<lambda>r. case r of
        Inl e \<Rightarrow> Done (Inl (InvObjectStore e))
      | Inr b \<Rightarrow>
          (case read_heartbeat js b of
             Inl _ \<Rightarrow> consumers_folded js compaction_id now_ms ttl_ms listing
           | Inr hb \<Rightarrow>
               if saturating_i64 (now_ms - hb_updated_at_ms hb) > ttl_ms
               then consumers_folded js compaction_id now_ms ttl_ms listing
               else (case hb_compaction_cursor hb of
                       None \<Rightarrow> Done (Inr False)
                     | Some c \<Rightarrow> if c \<ge> compaction_id
                         then consumers_folded js compaction_id now_ms ttl_ms listing
                         else Done (Inr False))))"

definition all_live_consumers_folded ::
    "'e inventory_json \<Rightarrow> path_api \<Rightarrow> string \<Rightarrow> int \<Rightarrow> int \<Rightarrow> ('e, bool) inventory_prog" where
  "all_live_consumers_folded js pa compaction_id now_ms ttl_ms =
     ListPrefix (consumer_dir pa) (\<lambda>r. case r of
        Inl e \<Rightarrow> Done (Inl (InvObjectStore e))
      | Inr listing \<Rightarrow> consumers_folded js compaction_id now_ms ttl_ms listing)"

section \<open>Loading\<close>

definition fetch_snapshot :: "'e inventory_json \<Rightarrow> string \<Rightarrow> ('e, persisted_snapshot) inventory_prog" where
  "fetch_snapshot js path =
     Get path (\<lambda>r. Done (case r of
        Inl e \<Rightarrow> Inl (InvObjectStore e)
      | Inr b \<Rightarrow> (case read_snapshot js b of Inl e \<Rightarrow> Inl (InvSerdeJson e) | Inr s \<Rightarrow> Inr s)))"

text \<open>Manifests that cannot be read are skipped with a warning.\<close>

primrec fetch_entries ::
    "'e inventory_json \<Rightarrow> ('k \<times> string) list \<Rightarrow> ('k \<times> persisted_snapshot) list prog" where
  "fetch_entries js [] = Done []"
| "fetch_entries js (kp # entries) =
     bind_prog (fetch_snapshot js (snd kp)) (\<lambda>r.
       bind_prog (fetch_entries js entries) (\<lambda>rest.
         Done (case r of Inl _ \<Rightarrow> rest | Inr s \<Rightarrow> (fst kp, s) # rest)))"

definition wal_listed :: "path_api \<Rightarrow> (string \<times> nat) list \<Rightarrow> string \<Rightarrow> (nat \<times> string) option" where
  "wal_listed pa since_sequence_per_node location =
     (let parts = path_parts pa location in
      if length parts < 4 then None
      else let node_id = parts ! 2; filename = parts ! 3
           in case parse_uint u64_max (trim_end_matches ''.info.json'' filename) of
                None \<Rightarrow> None
              | Some reversed \<Rightarrow>
                  let seq = u64_max - reversed;
                      since = the_or 0 (map_of since_sequence_per_node node_id)
                  in if seq > since then Some (seq, location) else None)"

definition load_all_wal_snapshots ::
    "'e inventory_json \<Rightarrow> path_api \<Rightarrow> (string \<times> nat) list \<Rightarrow> ('e, persisted_snapshot list) inventory_prog" where
  "load_all_wal_snapshots js pa since_sequence_per_node =
     ListPrefix (wal_dir pa) (\<lambda>r. case r of
        Inl e \<Rightarrow> Done (Inl (InvObjectStore e))
      | Inr listing \<Rightarrow>
          bind_prog (fetch_entries js (sort_key fst (List.map_filter (wal_listed pa since_sequence_per_node) listing)))
            (\<lambda>out. Done (Inr (map snd out))))"

definition compaction_listed :: "path_api \<Rightarrow> string option \<Rightarrow> string \<Rightarrow> (string \<times> string) option" where
  "compaction_listed pa since_compaction_id location =
     (case path_parts pa location of
        [] \<Rightarrow> None
      | parts \<Rightarrow>
          let id = trim_end_matches ''.compaction.json'' (last parts)
          in case since_compaction_id of
               None \<Rightarrow> Some (id, location)
             | Some since \<Rightarrow> if id \<le> since then None else Some (id, location))"

definition load_all_compactions ::
    "'e inventory_json \<Rightarrow> path_api \<Rightarrow> string option \<Rightarrow> ('e, (string \<times> persisted_snapshot) list) inventory_prog" where
  "load_all_compactions js pa since_compaction_id =
     ListPrefix (compaction_dir pa) (\<lambda>r. case r of
        Inl e \<Rightarrow> Done (Inl (InvObjectStore e))
      | Inr listing \<Rightarrow>
          bind_prog (fetch_entries js (sort_key fst (List.map_filter (compaction_listed pa since_compaction_id) listing)))
            (\<lambda>out. Done (Inr out)))"

definition load_latest_checkpoint ::
    "'e inventory_json \<Rightarrow> path_api \<Rightarrow> ('e, inventory_checkpoint option) inventory_prog" where
  "load_latest_checkpoint js pa =
     ListPrefix (checkpoint_dir pa) (\<lambda>r. case r of
        Inl e \<Rightarrow> Done (Inl (InvObjectStore e))
      | Inr metas \<Rightarrow>
          if metas = [] then Done (Inr None)
          else Get (last (sort metas)) (\<lambda>r. Done (case r of
                 Inl e \<Rightarrow> Inl (InvObjectStore e)
               | Inr b \<Rightarrow> (case read_full js b of Inl e \<Rightarrow> Inl (InvSerdeJson e) | Inr cp \<Rightarrow> Inr (Some cp)))))"

definition note_sequence :: "(string \<times> nat) list \<Rightarrow> persisted_snapshot \<Rightarrow> (string \<times> nat) list" where
  "note_sequence cursors s =
     entry_upd (ps_node_id s) 0 (\<lambda>n. if ps_snapshot_sequence_number s > n then ps_snapshot_sequence_number s else n)
       cursors"

definition load_full_state :: "'e inventory_json \<Rightarrow> path_api \<Rightarrow> ('e, loaded_inventory) inventory_prog" where
  "load_full_state js pa =
     bind_io (load_latest_checkpoint js pa) (\<lambda>cp.
       let since_per_node = (case cp of None \<Rightarrow> [] | Some c \<Rightarrow> ck_wal_high_water c);
           since_compaction = Option.bind cp ck_compactions_high_water
       in bind_io (load_all_wal_snapshots js pa since_per_node) (\<lambda>wal_snapshots.
            bind_io (load_all_compactions js pa since_compaction) (\<lambda>compactions_raw.
              Done (Inr
                \<lparr> ld_checkpoint = cp, ld_wal_snapshots = wal_snapshots,
                  ld_compactions = map snd compactions_raw,
                  ld_wal_watermarks = foldl note_sequence since_per_node wal_snapshots,
                  ld_compaction_watermark =
                    (if compactions_raw = [] then since_compaction else Some (fst (last compactions_raw))),
                  ld_tombstones = (case cp of None \<Rightarrow> [] | Some c \<Rightarrow> ck_tombstones c),
                  ld_compaction_tombstones = (case cp of None \<Rightarrow> [] | Some c \<Rightarrow> ck_compaction_tombstones c) \<rparr>))))"

definition inventory_flatten :: "loaded_inventory \<Rightarrow> persisted_snapshot list" where
  "inventory_flatten ld =
     (case ld_checkpoint ld of None \<Rightarrow> [] | Some c \<Rightarrow> [ck_merged_snapshot c]) @ ld_wal_snapshots ld @ ld_compactions ld"

text \<open>How a starting node folds what it loaded (influxdb3_write/src/write_buffer/mod.rs).\<close>

definition fold_loaded :: "loaded_inventory \<Rightarrow> ledger \<Rightarrow> ledger" where
  "fold_loaded ld lg =
     foldl (\<lambda>lg s. add_persisted_snapshot s None lg)
       (seed_tombstones (ld_tombstones ld) (ld_compaction_tombstones ld) lg) (inventory_flatten ld)"

section \<open>What the store shows\<close>

text \<open>
  The store shows the writer manifests \<open>W\<close> and the compaction manifests \<open>C\<close> when it lists their
  entries, in any order, and each of them reads back.
\<close>

abbreviation manifest_entry :: "path_api \<Rightarrow> persisted_snapshot \<Rightarrow> string" where
  "manifest_entry pa s \<equiv> wal_entry pa (ps_node_id s) (ps_snapshot_sequence_number s)"

definition reads_as :: "'e inventory_json \<Rightarrow> 's store_api \<Rightarrow> 's \<Rightarrow> string \<Rightarrow> persisted_snapshot \<Rightarrow> bool" where
  "reads_as js api s path m \<longleftrightarrow> (\<exists>b. api_get api path s = Inr b \<and> read_snapshot js b = Inr m)"

definition lists_exactly :: "'s store_api \<Rightarrow> 's \<Rightarrow> string \<Rightarrow> string list \<Rightarrow> bool" where
  "lists_exactly api s dir paths \<longleftrightarrow> (\<exists>listing. api_list api dir s = Inr listing \<and> mset listing = mset paths)"

definition inventory_shows ::
    "'e inventory_json \<Rightarrow> path_api \<Rightarrow> 's store_api \<Rightarrow> 's \<Rightarrow> persisted_snapshot list \<Rightarrow> (string \<times> persisted_snapshot) list \<Rightarrow> bool" where
  "inventory_shows js pa api s W C \<longleftrightarrow>
     lists_exactly api s (wal_dir pa) (map (manifest_entry pa) W) \<and>
     list_all (\<lambda>m. reads_as js api s (manifest_entry pa m) m) W \<and>
     lists_exactly api s (compaction_dir pa) (map (\<lambda>im. compaction_entry pa (fst im)) C) \<and>
     list_all (\<lambda>im. reads_as js api s (compaction_entry pa (fst im)) (snd im)) C"

definition manifest_names_ok :: "persisted_snapshot list \<Rightarrow> (string \<times> persisted_snapshot) list \<Rightarrow> bool" where
  "manifest_names_ok W C \<longleftrightarrow>
     list_all (\<lambda>m. plain_seg (ps_node_id m) \<and> ps_snapshot_sequence_number m \<le> u64_max) W \<and>
     list_all (\<lambda>im. plain_seg (fst im) \<and> \<not> suffix ''.compaction.json'' (fst im)) C"

definition beyond :: "(string \<times> nat) list \<Rightarrow> persisted_snapshot \<Rightarrow> bool" where
  "beyond cursors m \<longleftrightarrow> the_or 0 (map_of cursors (ps_node_id m)) < ps_snapshot_sequence_number m"

definition later_than :: "string option \<Rightarrow> string \<Rightarrow> bool" where
  "later_than cursor i = (case cursor of None \<Rightarrow> True | Some c \<Rightarrow> c < i)"

lemma plain_seg_append: "plain_seg s \<Longrightarrow> list_all plain_char suf \<Longrightarrow> 2 \<le> length suf \<Longrightarrow> plain_seg (s @ suf)"
  by (cases s; cases suf) (auto simp: plain_seg_def append_eq_Cons_conv)

lemma wal_entry_parts:
  assumes "path_api_ok pa" "plain_seg node"
  shows "path_parts pa (wal_entry pa node n) = [''_inventory'', ''wal'', node, pad0 20 (u64_max - n) @ ''.info.json'']"
    "path_from pa (SHARED_INVENTORY_PREFIX @ ''/wal/'' @ node @ ''/'' @ pad0 20 (u64_max - n) @ ''.info.json'') =
       join_path [''_inventory'', ''wal'', node, pad0 20 (u64_max - n) @ ''.info.json'']"
proof -
  let ?ss = "[''_inventory'', ''wal'', node, pad0 20 (u64_max - n) @ ''.info.json'']"
  have ss: "?ss \<noteq> []" "list_all plain_seg ?ss"
    using assms(2) by (simp_all add: plain_numbered) (simp_all add: plain_seg_def plain_char_def is_digit_def)
  note ok = path_api_okD [OF assms(1) ss]
  show pf: "path_from pa (SHARED_INVENTORY_PREFIX @ ''/wal/'' @ node @ ''/'' @ pad0 20 (u64_max - n) @ ''.info.json'') = join_path ?ss"
    using ok(1) by (simp add: SHARED_INVENTORY_PREFIX_def)
  show "path_parts pa (wal_entry pa node n) = ?ss" unfolding wal_entry_def Let_def pf by (rule ok(2))
qed

lemma wal_listed_entry:
  assumes "path_api_ok pa" "plain_seg (ps_node_id m)" "ps_snapshot_sequence_number m \<le> u64_max"
  shows "wal_listed pa cursors (manifest_entry pa m) =
    (if beyond cursors m then Some (ps_snapshot_sequence_number m, manifest_entry pa m) else None)"
proof -
  have "trim_end_matches ''.info.json'' (pad0 20 (u64_max - ps_snapshot_sequence_number m) @ ''.info.json'') =
      pad0 20 (u64_max - ps_snapshot_sequence_number m)"
    by (rule trim_digits) (simp_all add: pad0_digits is_digit_def)
  then show ?thesis using assms(3)
    by (simp add: wal_listed_def wal_entry_parts(1) [OF assms(1,2)] Let_def beyond_def)
qed

lemma compaction_listed_entry:
  assumes "path_api_ok pa" "plain_seg i" "\<not> suffix ''.compaction.json'' i"
  shows "compaction_listed pa cursor (compaction_entry pa i) =
    (if later_than cursor i then Some (i, compaction_entry pa i) else None)"
proof -
  let ?ss = "[''_inventory'', ''compactions'', i @ ''.compaction.json'']"
  have "plain_seg (i @ ''.compaction.json'')"
    by (rule plain_seg_append [OF assms(2)]) (simp_all add: plain_char_def)
  then have ss: "?ss \<noteq> []" "list_all plain_seg ?ss" by (simp_all add: plain_seg_def plain_char_def is_digit_def)
  note ok = path_api_okD [OF assms(1) ss]
  have pf: "compaction_entry pa i = join_path ?ss"
    using ok(1) by (simp add: compaction_entry_def SHARED_INVENTORY_PREFIX_def)
  show ?thesis unfolding compaction_listed_def pf ok(2)
    using trim_end_matches_append [OF _ assms(3)]
    by (auto simp: Let_def later_than_def split: option.split)
qed

lemma fetch_snapshot_reads:
  "reads_as js api s path m \<Longrightarrow> run_prog api (fetch_snapshot js path) s = (Inr m, s)"
  by (auto simp: reads_as_def fetch_snapshot_def)

lemma fetch_entries_reads:
  "list_all (\<lambda>x. reads_as js api s (entry x) (value_of x)) xs \<Longrightarrow>
   run_prog api (fetch_entries js (map (\<lambda>x. (key x, entry x)) xs)) s = (map (\<lambda>x. (key x, value_of x)) xs, s)"
  by (induction xs) (auto simp: run_prog_bind fetch_snapshot_reads Let_def)

lemma mset_map_inv:
  assumes "mset l = image_mset f M"
  shows "\<exists>ys. l = map f ys \<and> mset ys = M"
  using assms
proof (induction l arbitrary: M)
  case (Cons b l)
  then have "image_mset f M = add_mset b (mset l)" by simp
  from msed_map_invR [OF this] obtain N a where N: "M = add_mset a N" "f a = b" "image_mset f N = mset l" by blast
  with Cons.IH [of N] obtain ys where "l = map f ys" "mset ys = N" by auto
  with N show ?case by (intro exI [of _ "a # ys"]) simp
qed simp

text \<open>Loading a listed directory returns the manifests that pass the filter, in the order of their keys.\<close>

lemma load_listed:
  assumes list: "lists_exactly api s dir (map entry xs)"
    and reads: "\<forall>x \<in> set xs. reads_as js api s (entry x) (value_of x)"
    and listed: "\<forall>x \<in> set xs. flt (entry x) = (if P x then Some (key x, entry x) else None)"
  shows "\<exists>listing out. api_list api dir s = Inr listing \<and>
     run_prog api (fetch_entries js (sort_key fst (List.map_filter flt listing))) s = (out, s) \<and>
     sorted (map fst out) \<and> mset out = image_mset (\<lambda>x. (key x, value_of x)) (mset (filter P xs))"
proof -
  obtain listing where l: "api_list api dir s = Inr listing" "mset listing = image_mset entry (mset xs)"
    using list by (auto simp: lists_exactly_def)
  then obtain ys where ys: "listing = map entry ys" "mset ys = mset xs" using mset_map_inv by metis
  have set: "set ys = set xs" using mset_eq_setD [OF ys(2)] .
  have "List.map_filter flt (map entry zs) = map (\<lambda>x. (key x, entry x)) (filter P zs)" if "set zs \<subseteq> set xs" for zs
    using that by (induction zs) (use listed in \<open>auto simp: List.map_filter_simps\<close>)
  with set have "List.map_filter flt (map entry ys) = map (\<lambda>x. (key x, entry x)) (filter P ys)" by simp
  then have "mset (sort_key fst (List.map_filter flt listing)) = image_mset (\<lambda>x. (key x, entry x)) (mset (filter P ys))"
    by (simp add: ys(1))
  from mset_map_inv [OF this] obtain zs where
    zs: "sort_key fst (List.map_filter flt listing) = map (\<lambda>x. (key x, entry x)) zs" "mset zs = mset (filter P ys)" by blast
  have "list_all (\<lambda>x. reads_as js api s (entry x) (value_of x)) zs"
    using mset_eq_setD [OF zs(2)] set reads by (auto simp: list_all_iff)
  note run = fetch_entries_reads [OF this, of key]
  have "sorted (map fst (sort_key fst (List.map_filter flt listing)))" by simp
  then have "sorted (map key zs)" unfolding zs(1) by (simp add: comp_def)
  with l(1) run zs ys(2) show ?thesis by (auto simp: comp_def mset_filter)
qed

lemma load_wal_shows:
  assumes pa: "path_api_ok pa" and shown: "inventory_shows js pa api s W C" and names: "manifest_names_ok W C"
  shows "\<exists>new. run_prog api (load_all_wal_snapshots js pa cursors) s = (Inr new, s) \<and> mset new = mset (filter (beyond cursors) W)"
proof -
  have shown: "lists_exactly api s (wal_dir pa) (map (manifest_entry pa) W)"
    "\<forall>m \<in> set W. reads_as js api s (manifest_entry pa m) m"
    using shown by (auto simp: inventory_shows_def list_all_iff)
  have listed: "\<forall>m \<in> set W. wal_listed pa cursors (manifest_entry pa m) =
      (if beyond cursors m then Some (ps_snapshot_sequence_number m, manifest_entry pa m) else None)"
    using names by (intro ballI wal_listed_entry [OF pa]) (auto simp: manifest_names_ok_def list_all_iff)
  from load_listed [OF shown listed] obtain listing out where l: "api_list api (wal_dir pa) s = Inr listing"
      "run_prog api (fetch_entries js (sort_key fst (List.map_filter (wal_listed pa cursors) listing))) s = (out, s)"
      "mset out = image_mset (\<lambda>m. (ps_snapshot_sequence_number m, m)) (mset (filter (beyond cursors) W))" by blast
  have "mset (map snd out) = mset (filter (beyond cursors) W)"
    using l(3) by (simp add: multiset.map_comp comp_def)
  with l(1,2) show ?thesis by (simp add: load_all_wal_snapshots_def run_prog_bind)
qed

lemma load_compactions_shows:
  assumes pa: "path_api_ok pa" and shown: "inventory_shows js pa api s W C" and names: "manifest_names_ok W C"
  shows "\<exists>new. run_prog api (load_all_compactions js pa cursor) s = (Inr new, s) \<and>
    mset new = mset (filter (\<lambda>im. later_than cursor (fst im)) C) \<and> sorted (map fst new)"
proof -
  have shown: "lists_exactly api s (compaction_dir pa) (map (\<lambda>im. compaction_entry pa (fst im)) C)"
    "\<forall>im \<in> set C. reads_as js api s (compaction_entry pa (fst im)) (snd im)"
    using shown by (auto simp: inventory_shows_def list_all_iff)
  have listed: "\<forall>im \<in> set C. compaction_listed pa cursor (compaction_entry pa (fst im)) =
      (if later_than cursor (fst im) then Some (fst im, compaction_entry pa (fst im)) else None)"
    using names by (intro ballI compaction_listed_entry [OF pa]) (auto simp: manifest_names_ok_def list_all_iff)
  from load_listed [OF shown listed] obtain listing out where "api_list api (compaction_dir pa) s = Inr listing"
      "run_prog api (fetch_entries js (sort_key fst (List.map_filter (compaction_listed pa cursor) listing))) s = (out, s)"
      "mset out = image_mset (\<lambda>im. (fst im, snd im)) (mset (filter (\<lambda>im. later_than cursor (fst im)) C))" "sorted (map fst out)" by blast
  then show ?thesis by (simp add: load_all_compactions_def run_prog_bind)
qed

text \<open>Listed heartbeats, and what the gate answers on them.\<close>

definition heartbeats_shown ::
    "'e inventory_json \<Rightarrow> path_api \<Rightarrow> 's store_api \<Rightarrow> 's \<Rightarrow> consumer_heartbeat list \<Rightarrow> bool" where
  "heartbeats_shown js pa api s hbs \<longleftrightarrow>
     (\<exists>listing. api_list api (consumer_dir pa) s = Inr listing \<and>
        list_all2 (\<lambda>p hb. \<exists>b. api_get api p s = Inr b \<and> read_heartbeat js b = Inr hb) listing hbs)"

definition live_heartbeat :: "int \<Rightarrow> int \<Rightarrow> consumer_heartbeat \<Rightarrow> bool" where
  "live_heartbeat now_ms ttl_ms hb \<longleftrightarrow> saturating_i64 (now_ms - hb_updated_at_ms hb) \<le> ttl_ms"

definition has_folded :: "string \<Rightarrow> consumer_heartbeat \<Rightarrow> bool" where
  "has_folded i hb = (case hb_compaction_cursor hb of None \<Rightarrow> False | Some c \<Rightarrow> i \<le> c)"

lemma consumers_folded_Cons:
  assumes "api_get api p s = Inr b" "read_heartbeat js b = Inr hb"
  shows "run_prog api (consumers_folded js i now_ms ttl_ms (p # ps)) s =
    (if live_heartbeat now_ms ttl_ms hb \<longrightarrow> has_folded i hb
     then run_prog api (consumers_folded js i now_ms ttl_ms ps) s else (Inr False, s))"
  using assms by (simp add: live_heartbeat_def has_folded_def split: option.split)

lemma gate_exact:
  assumes "heartbeats_shown js pa api s hbs"
  shows "run_prog api (all_live_consumers_folded js pa i now_ms ttl_ms) s =
    (Inr (list_all (\<lambda>hb. live_heartbeat now_ms ttl_ms hb \<longrightarrow> has_folded i hb) hbs), s)"
proof -
  have "run_prog api (consumers_folded js i now_ms ttl_ms listing) s =
      (Inr (list_all (\<lambda>hb. live_heartbeat now_ms ttl_ms hb \<longrightarrow> has_folded i hb) hbs), s)"
    if "list_all2 (\<lambda>p hb. \<exists>b. api_get api p s = Inr b \<and> read_heartbeat js b = Inr hb) listing hbs" for listing
    using that
  proof (induction listing hbs rule: list_all2_induct)
    case (Cons p ps hb hbs)
    then obtain b where "api_get api p s = Inr b" "read_heartbeat js b = Inr hb" by blast
    from consumers_folded_Cons [OF this] Cons.IH show ?case by (simp del: consumers_folded.simps)
  qed simp
  with assms show ?thesis by (auto simp: heartbeats_shown_def all_live_consumers_folded_def)
qed

end
