(* ===== verification/Inventory_Poller.thy ===== *)
theory Inventory_Poller
  imports Shared_Inventory
begin

text \<open>
  The background task of a node that folds the manifests other nodes publish into its ledger and
  reports in a heartbeat how far it is (influxdb3_write/src/inventory_poller.rs). A tick is a program
  over the object store. What the tick tells the WAL tail is given by the argument \<open>evict\<close>; the
  refresh of the catalog, the metrics and the timer are not modelled.
\<close>

section \<open>Ticks\<close>

record inventory_watermarks =
  iw_wal :: "(string \<times> nat) list"
  iw_compaction :: "string option"

record 't poller =
  po_wal_cursors :: "(string \<times> nat) list"
  po_compaction_cursor :: "string option"
  po_files :: ledger
  po_tail :: 't
  po_ready :: bool
  po_watermarks_out :: inventory_watermarks
  po_heartbeat_cursor :: "string option"

record tick_summary =
  ts_wal_snapshots :: nat
  ts_compactions :: nat

definition tick_total :: "tick_summary \<Rightarrow> nat" where
  "tick_total ts = ts_wal_snapshots ts + ts_compactions ts"

definition fold_wal_snapshot :: "(string \<Rightarrow> nat \<Rightarrow> 't \<Rightarrow> 't) \<Rightarrow> persisted_snapshot \<Rightarrow> 't poller \<Rightarrow> 't poller" where
  "fold_wal_snapshot evict s po =
     po\<lparr> po_files := add_persisted_snapshot s None (po_files po),
         po_wal_cursors := note_sequence (po_wal_cursors po) s,
         po_tail := evict (ps_node_id s) (ps_wal_file_sequence_number s) (po_tail po) \<rparr>"

definition fold_compaction :: "string \<times> persisted_snapshot \<Rightarrow> 't poller \<Rightarrow> 't poller" where
  "fold_compaction im po =
     po\<lparr> po_files := add_persisted_snapshot (snd im) (Some (fst im)) (po_files po),
         po_compaction_cursor := Some (fst im) \<rparr>"

definition apply_manifests ::
    "(string \<Rightarrow> nat \<Rightarrow> 't \<Rightarrow> 't) \<Rightarrow> persisted_snapshot list \<Rightarrow> (string \<times> persisted_snapshot) list \<Rightarrow> 't poller \<Rightarrow>
     tick_summary \<times> 't poller" where
  "apply_manifests evict new_wal new_comp po =
     (if new_wal = [] \<and> new_comp = [] then (\<lparr> ts_wal_snapshots = 0, ts_compactions = 0 \<rparr>, po)
      else let po = fold fold_compaction new_comp (fold (fold_wal_snapshot evict) new_wal po)
           in (\<lparr> ts_wal_snapshots = length new_wal, ts_compactions = length new_comp \<rparr>,
               po\<lparr> po_files := gc_tombstones (po_wal_cursors po) (po_compaction_cursor po) (po_files po) \<rparr>))"

definition tick ::
    "'e inventory_json \<Rightarrow> path_api \<Rightarrow> (string \<Rightarrow> nat \<Rightarrow> 't \<Rightarrow> 't) \<Rightarrow> 't poller \<Rightarrow> ('e, tick_summary \<times> 't poller) inventory_prog" where
  "tick js pa evict po =
     bind_io (load_all_wal_snapshots js pa (po_wal_cursors po)) (\<lambda>new_wal.
       bind_io (load_all_compactions js pa (po_compaction_cursor po)) (\<lambda>new_comp.
         Done (Inr (apply_manifests evict new_wal new_comp po))))"

text \<open>One round of the loop, and the heartbeat the liveness task writes at any time.\<close>

definition poll_once ::
    "'e inventory_json \<Rightarrow> path_api \<Rightarrow> (string \<Rightarrow> nat \<Rightarrow> 't \<Rightarrow> 't) \<Rightarrow> 't poller \<Rightarrow> 't poller prog" where
  "poll_once js pa evict po =
     bind_prog (tick js pa evict po) (\<lambda>outcome. Done (case outcome of
        Inl _ \<Rightarrow> po
      | Inr (_, po) \<Rightarrow>
          po\<lparr> po_ready := True,
              po_watermarks_out := \<lparr> iw_wal = po_wal_cursors po, iw_compaction = po_compaction_cursor po \<rparr>,
              po_heartbeat_cursor := po_compaction_cursor po \<rparr>))"

definition heartbeat ::
    "'e inventory_json \<Rightarrow> path_api \<Rightarrow> string \<Rightarrow> int \<Rightarrow> 't poller \<Rightarrow> ('e, unit) inventory_prog" where
  "heartbeat js pa node_id now_ms po = write_consumer_heartbeat js pa node_id (po_heartbeat_cursor po) now_ms"

definition poller_new :: "(string \<times> nat) list \<Rightarrow> string option \<Rightarrow> ledger \<Rightarrow> 't \<Rightarrow> 't poller" where
  "poller_new initial_wal_watermarks initial_compaction_watermark files tail =
     \<lparr> po_wal_cursors = initial_wal_watermarks, po_compaction_cursor = initial_compaction_watermark,
       po_files = files, po_tail = tail, po_ready = False,
       po_watermarks_out = \<lparr> iw_wal = initial_wal_watermarks, iw_compaction = initial_compaction_watermark \<rparr>,
       po_heartbeat_cursor = initial_compaction_watermark \<rparr>"

section \<open>The folded manifests\<close>

text \<open>
  The abstract poller remembers which manifests it has folded. A view of the inventory adds the
  writer manifests numbered above those of the same writer and the compactions named above all
  folded ones; anything else in the view is passed over.
\<close>

type_synonym inventory_view = "persisted_snapshot list \<times> (string \<times> persisted_snapshot) list"

definition newer :: "persisted_snapshot list \<Rightarrow> persisted_snapshot \<Rightarrow> bool" where
  "newer W m \<longleftrightarrow> 0 < ps_snapshot_sequence_number m \<and>
     list_all (\<lambda>m'. ps_node_id m' = ps_node_id m \<longrightarrow> ps_snapshot_sequence_number m' < ps_snapshot_sequence_number m) W"

definition newer_id :: "(string \<times> persisted_snapshot) list \<Rightarrow> string \<times> persisted_snapshot \<Rightarrow> bool" where
  "newer_id C im \<longleftrightarrow> list_all (\<lambda>jm. fst jm < fst im) C"

definition fold_view :: "inventory_view \<Rightarrow> inventory_view \<Rightarrow> inventory_view" where
  "fold_view v f = (fst f @ filter (newer (fst f)) (fst v), snd f @ filter (newer_id (snd f)) (snd v))"

definition manifests :: "inventory_view \<Rightarrow> ledger_op list" where
  "manifests v = map (\<lambda>m. FoldManifest m None) (fst v) @ map (\<lambda>im. FoldManifest (snd im) (Some (fst im))) (snd v)"

text \<open>
  The cursors of a poller that has folded \<open>v\<close>: no folded manifest is above them, and each is that
  of a folded manifest.
\<close>

definition cursors_of :: "inventory_view \<Rightarrow> (string \<times> nat) list \<Rightarrow> string option \<Rightarrow> bool" where
  "cursors_of v cs cc \<longleftrightarrow>
     (\<forall>m \<in> set (fst v). \<not> beyond cs m) \<and>
     (\<forall>n. the_or 0 (map_of cs n) \<noteq> 0 \<longrightarrow>
        (\<exists>m \<in> set (fst v). ps_node_id m = n \<and> ps_snapshot_sequence_number m = the_or 0 (map_of cs n))) \<and>
     (\<forall>im \<in> set (snd v). \<not> later_than cc (fst im)) \<and>
     (\<forall>c. cc = Some c \<longrightarrow> c \<in> fst ` set (snd v))"

lemma cursors_of_newer:
  assumes "cursors_of v cs cc"
  shows "beyond cs m \<longleftrightarrow> newer (fst v) m" "later_than cc (fst im) \<longleftrightarrow> newer_id (snd v) im"
proof -
  show "beyond cs m \<longleftrightarrow> newer (fst v) m"
  proof
    assume b: "beyond cs m"
    have "ps_snapshot_sequence_number m' < ps_snapshot_sequence_number m"
      if "m' \<in> set (fst v)" "ps_node_id m' = ps_node_id m" for m'
    proof -
      have "\<not> beyond cs m'" using assms that(1) by (simp add: cursors_of_def)
      with b that(2) show ?thesis by (simp add: beyond_def)
    qed
    with b show "newer (fst v) m" by (auto simp: newer_def beyond_def list_all_iff)
  next
    assume n: "newer (fst v) m"
    show "beyond cs m"
    proof (cases "the_or 0 (map_of cs (ps_node_id m)) = 0")
      case True
      with n show ?thesis by (simp add: newer_def beyond_def)
    next
      case False
      with assms obtain m' where "m' \<in> set (fst v)" "ps_node_id m' = ps_node_id m"
        "ps_snapshot_sequence_number m' = the_or 0 (map_of cs (ps_node_id m))" unfolding cursors_of_def by blast
      with n show ?thesis by (auto simp: newer_def beyond_def list_all_iff)
    qed
  qed
  show "later_than cc (fst im) \<longleftrightarrow> newer_id (snd v) im"
  proof (cases cc)
    case None
    with assms have "snd v = []" by (cases "snd v") (auto simp: cursors_of_def later_than_def)
    with None show ?thesis by (simp add: later_than_def newer_id_def)
  next
    case (Some c)
    with assms have "c \<in> fst ` set (snd v)" "\<forall>jm \<in> set (snd v). fst jm \<le> c"
      by (auto simp: cursors_of_def later_than_def not_less)
    with Some show ?thesis by (auto simp: later_than_def newer_id_def list_all_iff)
  qed
qed

section \<open>A tick refines the abstract fold\<close>

lemma fold_wal_snapshots:
  "fold (fold_wal_snapshot evict) nw po =
     po\<lparr> po_files := fold ledger_step (map (\<lambda>m. FoldManifest m None) nw) (po_files po),
         po_wal_cursors := foldl note_sequence (po_wal_cursors po) nw,
         po_tail := fold (\<lambda>s. evict (ps_node_id s) (ps_wal_file_sequence_number s)) nw (po_tail po) \<rparr>"
  by (induction nw arbitrary: po) (simp_all add: fold_wal_snapshot_def)

lemma fold_compactions:
  "fold fold_compaction nc po =
     po\<lparr> po_files := fold ledger_step (map (\<lambda>im. FoldManifest (snd im) (Some (fst im))) nc) (po_files po),
         po_compaction_cursor := (if nc = [] then po_compaction_cursor po else Some (fst (last nc))) \<rparr>"
  by (induction nc arbitrary: po) (simp_all add: fold_compaction_def)

lemma note_sequences:
  "the_or 0 (map_of (foldl note_sequence cs nw) n) =
     fold max (map ps_snapshot_sequence_number (filter (\<lambda>m. ps_node_id m = n) nw)) (the_or 0 (map_of cs n))"
  by (induction nw arbitrary: cs) (auto simp: note_sequence_def map_of_entry_upd max_def)

lemma fold_max_attained: "fold max xs (a :: nat) = a \<or> fold max xs a \<in> set xs"
proof -
  have "fold max xs a = Max (set (a # xs))" using Max.set_eq_fold [of a xs] by simp
  moreover have "Max (set (a # xs)) \<in> set (a # xs)" by (rule Max_in) simp_all
  ultimately show ?thesis by simp
qed

lemma cursors_of_fold:
  assumes v: "cursors_of v cs cc" and nw: "mset nw = mset (filter (beyond cs) W)"
    and nc: "mset nc = mset (filter (\<lambda>im. later_than cc (fst im)) C)" "sorted (map fst nc)"
  shows "cursors_of (fold_view (W, C) v) (foldl note_sequence cs nw) (if nc = [] then cc else Some (fst (last nc)))"
proof -
  have snw: "set nw = {m \<in> set W. newer (fst v) m}"
    using mset_eq_setD [OF nw] cursors_of_newer(1) [OF v] by auto
  have snc: "set nc = {im \<in> set C. newer_id (snd v) im}"
    using mset_eq_setD [OF nc(1)] cursors_of_newer(2) [OF v] by auto
  let ?cs = "foldl note_sequence cs nw" and ?cc = "if nc = [] then cc else Some (fst (last nc))"
  have mono: "the_or 0 (map_of cs n) \<le> the_or 0 (map_of ?cs n)" for n
    unfolding note_sequences by (rule fold_max_nat(2))
  have new: "ps_snapshot_sequence_number m \<le> the_or 0 (map_of ?cs (ps_node_id m))" if "m \<in> set nw" for m
    unfolding note_sequences using that by (intro fold_max_nat(1)) auto
  have "\<not> beyond ?cs m" if "m \<in> set (fst v @ filter (newer (fst v)) W)" for m
  proof (cases "m \<in> set nw")
    case True
    from new [OF this] show ?thesis by (simp add: beyond_def)
  next
    case False
    with that snw have "m \<in> set (fst v)" by auto
    then have "\<not> beyond cs m" using v by (simp add: cursors_of_def)
    with mono [of "ps_node_id m"] show ?thesis by (simp add: beyond_def)
  qed
  moreover have "\<exists>m \<in> set (fst v @ filter (newer (fst v)) W). ps_node_id m = n \<and> ps_snapshot_sequence_number m = the_or 0 (map_of ?cs n)"
    if "the_or 0 (map_of ?cs n) \<noteq> 0" for n
  proof (cases "the_or 0 (map_of ?cs n) = the_or 0 (map_of cs n)")
    case True
    with v that show ?thesis unfolding cursors_of_def by fastforce
  next
    case False
    then have "the_or 0 (map_of ?cs n) \<in> ps_snapshot_sequence_number ` {m \<in> set nw. ps_node_id m = n}"
      unfolding note_sequences
      using fold_max_attained [of "map ps_snapshot_sequence_number (filter (\<lambda>m. ps_node_id m = n) nw)" "the_or 0 (map_of cs n)"]
      by auto
    with snw show ?thesis by auto
  qed
  moreover have "\<not> later_than ?cc (fst im)" if im: "im \<in> set (snd v @ filter (newer_id (snd v)) C)" for im
  proof (cases "nc = []")
    case True
    have "im \<in> set (snd v) \<or> im \<in> set nc" using im unfolding snc by auto
    with True have "im \<in> set (snd v)" by simp
    with v True show ?thesis by (simp add: cursors_of_def)
  next
    case False
    have "fst im \<le> fst (last nc)"
    proof (cases "im \<in> set nc")
      case True
      with nc(2) False show ?thesis using sorted_le_last [of "map fst nc" "fst im"] by (simp add: last_map)
    next
      case old: False
      with im snc have "im \<in> set (snd v)" by auto
      moreover have "newer_id (snd v) (last nc)" using last_in_set [OF False] snc by auto
      ultimately show ?thesis by (auto simp: newer_id_def list_all_iff)
    qed
    with False show ?thesis by (simp add: later_than_def)
  qed
  moreover have "c \<in> fst ` set (snd v @ filter (newer_id (snd v)) C)" if "?cc = Some c" for c
  proof (cases "nc = []")
    case True
    with that v show ?thesis by (auto simp: cursors_of_def)
  next
    case False
    with that last_in_set [OF False] snc show ?thesis by auto
  qed
  ultimately show ?thesis by (simp add: cursors_of_def fold_view_def)
qed

text \<open>
  A collection is followed by manifests above the cursors it was made with, because cursors only
  grow.
\<close>

fun op_after :: "(string \<times> nat) list \<Rightarrow> string option \<Rightarrow> ledger_op \<Rightarrow> bool" where
  "op_after whw chw (FoldManifest m None) = beyond whw m"
| "op_after whw chw (FoldManifest m (Some i)) = later_than chw i"
| "op_after whw chw (CollectTombstones _ _) = True"

fun collects_fresh :: "ledger_op list \<Rightarrow> bool" where
  "collects_fresh [] = True"
| "collects_fresh (FoldManifest _ _ # ops) = collects_fresh ops"
| "collects_fresh (CollectTombstones whw chw # ops) = (list_all (op_after whw chw) ops \<and> collects_fresh ops)"

definition cursors_le :: "(string \<times> nat) list \<Rightarrow> string option \<Rightarrow> (string \<times> nat) list \<Rightarrow> string option \<Rightarrow> bool" where
  "cursors_le whw chw cs cc \<longleftrightarrow> (\<forall>n. the_or 0 (map_of whw n) \<le> the_or 0 (map_of cs n)) \<and> (\<forall>i. later_than cc i \<longrightarrow> later_than chw i)"

definition collects_below :: "(string \<times> nat) list \<Rightarrow> string option \<Rightarrow> ledger_op list \<Rightarrow> bool" where
  "collects_below cs cc ops \<longleftrightarrow> list_all (\<lambda>op. case op of FoldManifest _ _ \<Rightarrow> True | CollectTombstones whw chw \<Rightarrow> cursors_le whw chw cs cc) ops"

lemma cursors_le_trans: "cursors_le a b c d \<Longrightarrow> cursors_le c d e f \<Longrightarrow> cursors_le a b e f"
  unfolding cursors_le_def using le_trans by blast

lemma cursors_le_refl [simp]: "cursors_le a b a b"
  by (simp add: cursors_le_def)

lemma collects_below_mono: "collects_below cs cc ops \<Longrightarrow> cursors_le cs cc cs' cc' \<Longrightarrow> collects_below cs' cc' ops"
  by (auto simp: collects_below_def list_all_iff split: ledger_op.splits dest: cursors_le_trans)

lemma op_after_mono: "cursors_le whw chw cs cc \<Longrightarrow> op_after cs cc op \<Longrightarrow> op_after whw chw op"
  by (cases "(cs, cc, op)" rule: op_after.cases) (auto simp: cursors_le_def beyond_def intro: le_less_trans)

lemma collects_fresh_append:
  assumes "collects_fresh xs" "collects_fresh ys" "collects_below cs cc xs" "list_all (op_after cs cc) ys"
  shows "collects_fresh (xs @ ys)"
  using assms(1,3)
proof (induction xs rule: collects_fresh.induct)
  case (3 whw chw ops)
  have "list_all (op_after whw chw) ys"
    using 3 assms(4) op_after_mono by (auto simp: collects_below_def list_all_iff)
  with 3 show ?case by (auto simp: collects_below_def)
qed (use assms(2) in \<open>auto simp: collects_below_def\<close>)

lemma cursors_le_fold:
  assumes "cursors_of v cs cc" and nc: "mset nc = mset (filter (\<lambda>im. later_than cc (fst im)) C)"
  shows "cursors_le cs cc (foldl note_sequence cs nw) (if nc = [] then cc else Some (fst (last nc)))"
proof -
  have "the_or 0 (map_of cs n) \<le> the_or 0 (map_of (foldl note_sequence cs nw) n)" for n
    unfolding note_sequences by (rule fold_max_nat(2))
  moreover have "later_than cc i" if "nc \<noteq> []" "fst (last nc) < i" for i
  proof -
    have "later_than cc (fst (last nc))" using last_in_set [OF that(1)] mset_eq_setD [OF nc] by auto
    with that(2) show ?thesis by (auto simp: later_than_def split: option.splits)
  qed
  ultimately show ?thesis by (auto simp: cursors_le_def later_than_def [of "Some _"])
qed

definition poll_inv :: "inventory_view \<Rightarrow> ledger_op list \<Rightarrow> 't poller \<Rightarrow> bool" where
  "poll_inv v ops po \<longleftrightarrow>
     po_files po = ledger_run ops \<and> mset (filter is_manifest ops) = mset (manifests v) \<and>
     cursors_of v (po_wal_cursors po) (po_compaction_cursor po) \<and> collects_fresh ops \<and>
     collects_below (po_wal_cursors po) (po_compaction_cursor po) ops"

lemma is_manifest_simps [simp]:
  "is_manifest (FoldManifest m c)" "\<not> is_manifest (CollectTombstones whw chw)"
  by (simp_all add: is_manifest_def)

lemma filter_manifests [simp]: "filter is_manifest (manifests v) = manifests v"
  by (auto simp: manifests_def)

lemma mset_manifests_fold:
  "mset (manifests (fold_view v f)) =
     mset (manifests f) + mset (manifests (filter (newer (fst f)) (fst v), filter (newer_id (snd f)) (snd v)))"
  by (simp add: manifests_def fold_view_def)

lemma mset_manifests_cong: "mset W = mset W' \<Longrightarrow> mset C = mset C' \<Longrightarrow> mset (manifests (W, C)) = mset (manifests (W', C'))"
  by (simp add: manifests_def)

lemma collects_fresh_manifests: "list_all is_manifest ops \<Longrightarrow> collects_fresh ops"
  by (induction ops rule: collects_fresh.induct) simp_all

lemma apply_manifests_inv:
  assumes inv: "poll_inv v ops po" and nw: "mset nw = mset (filter (beyond (po_wal_cursors po)) W)"
    and nc: "mset nc = mset (filter (\<lambda>im. later_than (po_compaction_cursor po) (fst im)) C)" "sorted (map fst nc)"
  shows "\<exists>ops'. poll_inv (fold_view (W, C) v) ops' (snd (apply_manifests evict nw nc po))"
proof (cases "nw = [] \<and> nc = []")
  case True
  have v: "cursors_of v (po_wal_cursors po) (po_compaction_cursor po)" using inv by (simp add: poll_inv_def)
  have "fold_view (W, C) v = v"
    using True nw nc(1) cursors_of_newer [OF v] by (auto simp: fold_view_def filter_empty_conv prod_eq_iff)
  with True inv show ?thesis by (auto simp: apply_manifests_def)
next
  case False
  let ?cs = "po_wal_cursors po" and ?cc = "po_compaction_cursor po"
  let ?cs' = "foldl note_sequence ?cs nw" and ?cc' = "if nc = [] then ?cc else Some (fst (last nc))"
  let ?new = "manifests (nw, nc) @ [CollectTombstones ?cs' ?cc']"
  have v: "cursors_of v ?cs ?cc" using inv by (simp add: poll_inv_def)
  have le: "cursors_le ?cs ?cc ?cs' ?cc'" by (rule cursors_le_fold [OF v nc(1)])
  have after: "list_all (op_after ?cs ?cc) ?new"
    using mset_eq_setD [OF nw] mset_eq_setD [OF nc(1)] by (auto simp: manifests_def list_all_iff)
  have fresh: "collects_fresh ?new"
    by (rule collects_fresh_append [where cs = ?cs' and cc = ?cc'])
       (auto simp: manifests_def collects_below_def list_all_iff intro!: collects_fresh_manifests)
  have "collects_fresh (ops @ ?new)"
    by (rule collects_fresh_append [OF _ fresh _ after]) (use inv in \<open>simp_all add: poll_inv_def\<close>)
  moreover have "collects_below ?cs' ?cc' ?new" by (auto simp: collects_below_def manifests_def list_all_iff)
  with inv le have "collects_below ?cs' ?cc' (ops @ ?new)"
    by (auto simp: poll_inv_def collects_below_def intro: collects_below_mono [unfolded collects_below_def])
  moreover have "mset (filter is_manifest (ops @ ?new)) = mset (manifests (fold_view (W, C) v))"
  proof -
    have eq: "beyond ?cs = newer (fst v)" "(\<lambda>im. later_than ?cc (fst im)) = newer_id (snd v)"
      using cursors_of_newer [OF v] by (auto simp: fun_eq_iff)
    show ?thesis using inv mset_manifests_cong [OF nw nc(1)] unfolding mset_manifests_fold eq by (simp add: poll_inv_def)
  qed
  moreover have "po_files (snd (apply_manifests evict nw nc po)) = ledger_run (ops @ ?new)"
    using False inv
    by (simp add: apply_manifests_def Let_def fold_wal_snapshots fold_compactions poll_inv_def ledger_run_def manifests_def)
  moreover have "po_wal_cursors (snd (apply_manifests evict nw nc po)) = ?cs'"
    "po_compaction_cursor (snd (apply_manifests evict nw nc po)) = ?cc'"
    using False by (simp_all add: apply_manifests_def Let_def fold_wal_snapshots fold_compactions)
  ultimately show ?thesis using cursors_of_fold [OF v nw nc]
    by (intro exI [of _ "ops @ ?new"]) (simp only: poll_inv_def simp_thms)
qed

lemma bind_io_run:
  "run_prog api (bind_io p f) s =
     (case run_prog api p s of (Inl e, s') \<Rightarrow> (Inl e, s') | (Inr x, s') \<Rightarrow> run_prog api (f x) s')"
  by (simp add: bind_io_def run_prog_bind split: prod.split sum.split)

text \<open>A round on a store that shows a view folds the view; a round whose listing fails changes nothing.\<close>

definition listing_fails :: "path_api \<Rightarrow> 's store_api \<Rightarrow> 's \<Rightarrow> bool" where
  "listing_fails pa api s \<longleftrightarrow> (\<exists>e. api_list api (wal_dir pa) s = Inl e)"

lemma poll_once_shows:
  assumes pa: "path_api_ok pa" and inv: "poll_inv v ops po"
    and shown: "inventory_shows js pa api s W C" "manifest_names_ok W C"
  shows "\<exists>ops' po'. run_prog api (poll_once js pa evict po) s = (po', s) \<and> poll_inv (fold_view (W, C) v) ops' po' \<and>
    po_heartbeat_cursor po' = po_compaction_cursor po' \<and> po_ready po'"
proof -
  from load_wal_shows [OF pa shown, of "po_wal_cursors po"] obtain nw where
    nw: "run_prog api (load_all_wal_snapshots js pa (po_wal_cursors po)) s = (Inr nw, s)"
      "mset nw = mset (filter (beyond (po_wal_cursors po)) W)" by blast
  from load_compactions_shows [OF pa shown, of "po_compaction_cursor po"] obtain nc where
    nc: "run_prog api (load_all_compactions js pa (po_compaction_cursor po)) s = (Inr nc, s)"
      "mset nc = mset (filter (\<lambda>im. later_than (po_compaction_cursor po) (fst im)) C)" "sorted (map fst nc)" by blast
  obtain sm po1 where r: "apply_manifests evict nw nc po = (sm, po1)" by (cases "apply_manifests evict nw nc po")
  from apply_manifests_inv [OF inv nw(2) nc(2,3), of evict] r obtain ops' where "poll_inv (fold_view (W, C) v) ops' po1" by auto
  with r nw(1) nc(1) show ?thesis
    by (auto simp: poll_once_def tick_def run_prog_bind bind_io_run poll_inv_def)
qed

lemma poll_once_fails:
  "listing_fails pa api s \<Longrightarrow> run_prog api (poll_once js pa evict po) s = (po, s)"
  by (auto simp: listing_fails_def poll_once_def tick_def run_prog_bind bind_io_run load_all_wal_snapshots_def)

section \<open>Where files come from\<close>

text \<open>
  What holds of the manifests of a cluster. Paths name files. A writer adds files whose path holds
  the writer and a WAL number that is at least the snapshot's number, and removes files of writers
  only; a compaction adds files of its own, and removes a compacted file only after the compaction
  that added it.
\<close>

definition inventory_ok :: "inventory_view \<Rightarrow> bool" where
  "inventory_ok v \<longleftrightarrow>
     names_paths (ops_adds (manifests v)) (ops_rems (manifests v)) \<and> totals_fit (ops_adds (manifests v)) \<and>
     (\<forall>m \<in> set (fst v). \<forall>x \<in> set (each_file (ps_databases m)).
        \<exists>n. parse_gen1_path (loc_path x) = Some (ps_node_id m, n) \<and> ps_snapshot_sequence_number m \<le> n) \<and>
     (\<forall>m \<in> set (fst v). \<forall>x \<in> set (each_file (ps_removed_files m)). parse_gen1_path (loc_path x) \<noteq> None) \<and>
     (\<forall>im \<in> set (snd v). \<forall>x \<in> set (each_file (ps_databases (snd im))). parse_gen1_path (loc_path x) = None) \<and>
     (\<forall>im \<in> set (snd v). \<forall>jm \<in> set (snd v).
        set (each_file (ps_databases (snd im))) \<inter> set (each_file (ps_removed_files (snd jm))) \<noteq> {} \<longrightarrow> fst im \<le> fst jm)"

lemma inventory_okD:
  assumes "inventory_ok v"
  shows "m \<in> set (fst v) \<Longrightarrow> x \<in> set (each_file (ps_databases m)) \<Longrightarrow>
      \<exists>n. parse_gen1_path (loc_path x) = Some (ps_node_id m, n) \<and> ps_snapshot_sequence_number m \<le> n"
    and "m \<in> set (fst v) \<Longrightarrow> x \<in> set (each_file (ps_removed_files m)) \<Longrightarrow> parse_gen1_path (loc_path x) \<noteq> None"
    and "im \<in> set (snd v) \<Longrightarrow> x \<in> set (each_file (ps_databases (snd im))) \<Longrightarrow> parse_gen1_path (loc_path x) = None"
    and "im \<in> set (snd v) \<Longrightarrow> jm \<in> set (snd v) \<Longrightarrow> x \<in> set (each_file (ps_databases (snd im))) \<Longrightarrow>
      x \<in> set (each_file (ps_removed_files (snd jm))) \<Longrightarrow> fst im \<le> fst jm"
  using assms unfolding inventory_ok_def by blast+

lemma op_files_manifest: "x \<in> set (op_adds op) \<Longrightarrow> is_manifest op" "x \<in> set (op_rems op) \<Longrightarrow> is_manifest op"
  by (cases op; simp)+

lemma collects_ok_fresh:
  assumes ok: "inventory_ok v"
    and ops: "\<And>op. op \<in> set (before @ ops) \<Longrightarrow> is_manifest op \<Longrightarrow> op \<in> set (manifests v)" and fresh: "collects_fresh ops"
  shows "collects_ok before ops"
  using ops fresh
proof (induction ops arbitrary: before)
  case (Cons op ops)
  have keeps: "op_keeps op k" if b: "b \<in> set before" "x \<in> set (op_rems b)" "x \<in> set (ops_adds ops)" "op_keys b (loc_path x) = Some k" for b x k
  proof (cases op)
    case (CollectTombstones whw chw)
    have bm: "b \<in> set (manifests v)" using Cons.prems(1) [of b] b(1) op_files_manifest(2) [OF b(2)] by simp
    from b(3) obtain a where a: "a \<in> set ops" "x \<in> set (op_adds a)" by (auto simp: ops_adds_def)
    then have am: "a \<in> set (manifests v)" using Cons.prems(1) [of a] op_files_manifest(1) [OF a(2)] by simp
    have fa: "op_after whw chw a" using Cons.prems(2) a(1) CollectTombstones by (auto simp: list_all_iff)
    from am show ?thesis unfolding manifests_def set_append
    proof (elim UnE)
      assume "a \<in> set (map (\<lambda>m. FoldManifest m None) (fst v))"
      then obtain m where m: "a = FoldManifest m None" "m \<in> set (fst v)" by auto
      with inventory_okD(1) [OF ok m(2), of x] a(2) obtain n where
        n: "parse_gen1_path (loc_path x) = Some (ps_node_id m, n)" "ps_snapshot_sequence_number m \<le> n" by auto
      with b(4) bm have "k = WalSeq (ps_node_id m) n" by (auto simp: manifests_def tombstone_key_def)
      with CollectTombstones fa m(1) n(2) show ?thesis by (simp add: keeps_tombstone_def beyond_def)
    next
      assume "a \<in> set (map (\<lambda>im. FoldManifest (snd im) (Some (fst im))) (snd v))"
      then obtain im where im: "a = FoldManifest (snd im) (Some (fst im))" "im \<in> set (snd v)" by auto
      with inventory_okD(3) [OF ok im(2), of x] a(2) have none: "parse_gen1_path (loc_path x) = None" by simp
      have "\<not> (\<exists>m. b = FoldManifest m None \<and> m \<in> set (fst v))" using inventory_okD(2) [OF ok, of _ x] b(2) none by auto
      with bm obtain jm where jm: "b = FoldManifest (snd jm) (Some (fst jm))" "jm \<in> set (snd v)" by (auto simp: manifests_def)
      with b(4) none have k: "k = Compaction (fst jm)" by (simp add: tombstone_key_def)
      have "fst im \<le> fst jm" using inventory_okD(4) [OF ok im(2) jm(2), of x] a(2) b(2) im(1) jm(1) by simp
      with k CollectTombstones fa im(1) show ?thesis by (auto simp: keeps_tombstone_def later_than_def split: option.splits)
    qed
  qed simp
  have rest: "collects_ok (before @ [op]) ops"
  proof (rule Cons.IH)
    show "collects_fresh ops" using Cons.prems(2) by (cases op) simp_all
    show "op' \<in> set (manifests v)" if "op' \<in> set ((before @ [op]) @ ops)" "is_manifest op'" for op'
      using Cons.prems(1) [of op'] that by simp
  qed
  have "case op_keys b (loc_path x) of None \<Rightarrow> True | Some k \<Rightarrow> op_keeps op k"
    if "b \<in> set before" "x \<in> set (op_rems b)" "x \<in> set (ops_adds ops)" for b x
    using keeps [OF that] by (simp split: option.split)
  with rest show ?case by (simp add: list_all_iff)
qed simp

lemma manifests_keyed:
  assumes "inventory_ok v"
  shows "removals_keyed (manifests v)"
proof -
  have "op_keys op (loc_path x) \<noteq> None" if "op \<in> set (manifests v)" "x \<in> set (op_rems op)" for op x
  proof (cases "\<exists>m \<in> set (fst v). op = FoldManifest m None")
    case True
    with that(2) inventory_okD(2) [OF assms, of _ x] have "parse_gen1_path (loc_path x) \<noteq> None" by auto
    with True show ?thesis by (auto simp: tombstone_key_def)
  next
    case False
    with that(1) show ?thesis by (auto simp: manifests_def tombstone_key_def split: option.split)
  qed
  then show ?thesis by (auto simp: removals_keyed_def list_all_iff)
qed

lemma poll_inv_ops_ok:
  assumes inv: "poll_inv v ops po" and ok: "inventory_ok v"
  shows "ops_ok ops"
proof -
  have eq: "mset (filter is_manifest ops) = mset (manifests v)" and fresh: "collects_fresh ops"
    using inv by (simp_all add: poll_inv_def)
  have mem: "op \<in> set (manifests v)" if "op \<in> set ops" "is_manifest op" for op
    using mset_eq_setD [OF eq] that by auto
  have adds: "mset (ops_adds ops) = mset (ops_adds (manifests v))"
  proof -
    have "mset (map op_adds (filter is_manifest ops)) = mset (map op_adds (manifests v))" by (simp only: mset_map eq)
    then have "mset (concat (map op_adds (filter is_manifest ops))) = mset (concat (map op_adds (manifests v)))"
      by (metis mset_concat sum_mset_sum_list mset_map)
    then show ?thesis unfolding ops_manifests(1) [of ops] by (simp only: ops_adds_def)
  qed
  have rems: "set (ops_rems ops) = set (ops_rems (manifests v))"
    unfolding ops_manifests(2) [of ops] using mset_eq_setD [OF eq] by (simp only: ops_rems_def set_concat set_map)
  have "names_paths (ops_adds ops) (ops_rems ops)"
    using ok rems mset_eq_setD [OF adds] mset_eq_imp_distinct_iff [OF arg_cong [OF adds, of "image_mset loc_path", folded mset_map]]
    by (simp add: inventory_ok_def names_paths_def list_all_iff)
  moreover have "totals_fit (ops_adds ops)"
    using ok sums_cong [OF adds] mset_eq_length [OF adds] by (simp add: inventory_ok_def totals_fit_def)
  moreover have "removals_keyed ops"
    unfolding removals_keyed_def list_all_iff
  proof (intro ballI)
    fix op x
    assume op: "op \<in> set ops" "x \<in> set (op_rems op)"
    with mem [OF op(1) op_files_manifest(2) [OF op(2)]] manifests_keyed [OF ok]
    show "op_keys op (loc_path x) \<noteq> None" by (simp add: removals_keyed_def list_all_iff)
  qed
  moreover have "collects_ok [] ops" using mem fresh by (intro collects_ok_fresh [OF ok]) auto
  ultimately show ?thesis by (simp add: ops_ok_def)
qed

lemma poll_inv_files:
  assumes inv: "poll_inv v ops po" and ok: "inventory_ok v"
  shows "set (each_file (lg_files (po_files po))) = set (ops_adds (manifests v)) - set (ops_rems (manifests v))"
proof -
  have eq: "mset (filter is_manifest ops) = mset (manifests v)" and run: "po_files po = ledger_run ops"
    using inv by (simp_all add: poll_inv_def)
  have "set (ops_adds ops) = set (ops_adds (manifests v))" "set (ops_rems ops) = set (ops_rems (manifests v))"
    unfolding ops_manifests [of ops] using mset_eq_setD [OF eq] by (simp_all only: ops_adds_def ops_rems_def set_concat set_map)
  with mset_eq_setD [OF ops_live(2) [OF poll_inv_ops_ok [OF inv ok]]] show ?thesis by (auto simp: run live_of_def)
qed

section \<open>Histories of rounds\<close>

text \<open>
  The rounds of a poller meet the store in a sequence of states; a round sees a view of the
  inventory, or its listing fails. The abstract poller folds the views.
\<close>

definition poll_run ::
    "'e inventory_json \<Rightarrow> path_api \<Rightarrow> 's store_api \<Rightarrow> (string \<Rightarrow> nat \<Rightarrow> 't \<Rightarrow> 't) \<Rightarrow> 's list \<Rightarrow> 't poller \<Rightarrow> 't poller" where
  "poll_run js pa api evict ss po = fold (\<lambda>s po. fst (run_prog api (poll_once js pa evict po) s)) ss po"

definition round_sees ::
    "'e inventory_json \<Rightarrow> path_api \<Rightarrow> 's store_api \<Rightarrow> 's \<Rightarrow> inventory_view option \<Rightarrow> bool" where
  "round_sees js pa api s v =
     (case v of None \<Rightarrow> listing_fails pa api s
      | Some (W, C) \<Rightarrow> inventory_shows js pa api s W C \<and> manifest_names_ok W C)"

definition folded_from :: "inventory_view \<Rightarrow> inventory_view option list \<Rightarrow> inventory_view" where
  "folded_from f vs = fold (\<lambda>v f. case v of None \<Rightarrow> f | Some v \<Rightarrow> fold_view v f) vs f"

definition poll_state :: "inventory_view \<Rightarrow> 't poller \<Rightarrow> bool" where
  "poll_state f po \<longleftrightarrow> (\<exists>ops. poll_inv f ops po) \<and> po_heartbeat_cursor po = po_compaction_cursor po"

lemma poll_round:
  assumes pa: "path_api_ok pa" and st: "poll_state f po" and sees: "round_sees js pa api s v"
  shows "poll_state (folded_from f [v]) (poll_run js pa api evict [s] po)"
    "po_ready (poll_run js pa api evict [s] po) \<longleftrightarrow> po_ready po \<or> v \<noteq> None"
proof -
  have "poll_state (folded_from f [v]) (poll_run js pa api evict [s] po) \<and>
    (po_ready (poll_run js pa api evict [s] po) \<longleftrightarrow> po_ready po \<or> v \<noteq> None)"
  proof (cases v)
    case None
    with sees poll_once_fails [of pa api s js evict po] st show ?thesis
      by (simp add: round_sees_def poll_run_def folded_from_def)
  next
    case (Some wc)
    obtain W C where wc: "wc = (W, C)" by (cases wc)
    from st obtain ops where inv: "poll_inv f ops po" by (auto simp: poll_state_def)
    from sees Some wc have "inventory_shows js pa api s W C" "manifest_names_ok W C" by (simp_all add: round_sees_def)
    from poll_once_shows [OF pa inv this, of evict] obtain ops' po' where
      r: "run_prog api (poll_once js pa evict po) s = (po', s)" "poll_inv (fold_view (W, C) f) ops' po'"
        "po_heartbeat_cursor po' = po_compaction_cursor po'" "po_ready po'" by blast
    then have "poll_state (fold_view (W, C) f) po'" unfolding poll_state_def by blast
    with r(1,4) Some wc show ?thesis by (simp add: poll_run_def folded_from_def)
  qed
  then show "poll_state (folded_from f [v]) (poll_run js pa api evict [s] po)"
    "po_ready (poll_run js pa api evict [s] po) \<longleftrightarrow> po_ready po \<or> v \<noteq> None" by simp_all
qed

lemma poll_run_Cons: "poll_run js pa api evict (s # ss) po = poll_run js pa api evict ss (poll_run js pa api evict [s] po)"
  by (simp add: poll_run_def)

lemma folded_from_simps:
  "folded_from f [] = f" "folded_from f (v # vs) = folded_from (folded_from f [v]) vs"
  "folded_from f (us @ vs) = folded_from (folded_from f us) vs"
  by (simp_all add: folded_from_def)

lemma poll_run_state:
  assumes pa: "path_api_ok pa" and sees: "list_all2 (round_sees js pa api) ss vs" and st: "poll_state f po"
  shows "poll_state (folded_from f vs) (poll_run js pa api evict ss po) \<and>
    (po_ready (poll_run js pa api evict ss po) \<longleftrightarrow> po_ready po \<or> (\<exists>v \<in> set vs. v \<noteq> None))"
  using sees st
proof (induction ss vs arbitrary: f po rule: list_all2_induct)
  case Nil
  then show ?case by (simp add: poll_run_def folded_from_def)
next
  case (Cons s ss v vs)
  note round = poll_round [OF pa Cons.prems Cons.hyps(1), of evict]
  from Cons.IH [OF round(1)] show ?case
    unfolding poll_run_Cons [of js pa api evict s ss po] folded_from_simps(2) [of f v vs]
    by (simp add: round(2) disj_assoc)
qed

lemma poll_state_new: "poll_state ([], []) (poller_new [] None (ledger_run []) tail)"
  by (auto simp: poll_state_def poll_inv_def poller_new_def cursors_of_def manifests_def collects_below_def
      intro!: exI [of _ "[]"])

text \<open>A compaction that was in every view with a later one is folded once a later one is.\<close>

definition published_in_order :: "string \<times> persisted_snapshot \<Rightarrow> inventory_view option list \<Rightarrow> bool" where
  "published_in_order im vs \<longleftrightarrow>
     (\<forall>W C. Some (W, C) \<in> set vs \<longrightarrow> (\<exists>jm \<in> set C. fst im \<le> fst jm) \<longrightarrow> im \<in> set C)"

lemma in_order_folded:
  assumes "published_in_order im vs" "\<forall>jm \<in> set (snd f). fst im \<le> fst jm \<longrightarrow> im \<in> set (snd f)"
    and "jm \<in> set (snd (folded_from f vs))" "fst im \<le> fst jm"
  shows "im \<in> set (snd (folded_from f vs))"
  using assms
proof (induction vs arbitrary: f)
  case (Cons v vs)
  have "im \<in> set (snd (folded_from f [v]))" if jm: "jm \<in> set (snd (folded_from f [v]))" "fst im \<le> fst jm" for jm
  proof (cases v)
    case None
    with jm Cons.prems(2) show ?thesis by (auto simp: folded_from_def)
  next
    case (Some wc)
    obtain W C where wc: "wc = (W, C)" by (cases wc)
    have jc: "jm \<in> set (snd f) \<or> jm \<in> set C" using jm Some wc by (auto simp: folded_from_def fold_view_def)
    have "jm \<in> set C \<Longrightarrow> im \<in> set C" using Cons.prems(1) jm(2) Some wc unfolding published_in_order_def by auto
    moreover have "im \<in> set (snd f)" if "\<not> newer_id (snd f) im"
      using that Cons.prems(2) by (auto simp: newer_id_def list_all_iff not_less)
    ultimately show ?thesis using jc Cons.prems(2) jm(2) Some wc by (auto simp: folded_from_def fold_view_def)
  qed
  moreover have "published_in_order im vs" using Cons.prems(1) by (simp add: published_in_order_def)
  ultimately show ?case
    using Cons.IH [of "folded_from f [v]"] Cons.prems(3,4) unfolding folded_from_simps(2) [of f v vs] by blast
qed (auto simp: folded_from_def)

text \<open>A compaction below a folded one that was not folded itself is never folded.\<close>

lemma late_never_folded:
  assumes "jm \<in> set (snd f)" "fst im \<le> fst jm" "im \<notin> set (snd f)"
  shows "im \<notin> set (snd (folded_from f vs)) \<and> jm \<in> set (snd (folded_from f vs))"
  using assms
proof (induction vs arbitrary: f)
  case (Cons v vs)
  have "jm \<in> set (snd (folded_from f [v])) \<and> im \<notin> set (snd (folded_from f [v]))"
    using Cons.prems by (auto simp: folded_from_def fold_view_def newer_id_def list_all_iff not_less split: option.split)
  with Cons.IH [of "folded_from f [v]"] Cons.prems(2) show ?case unfolding folded_from_simps(2) [of f v vs] by blast
qed (simp add: folded_from_def)

lemma cursor_covers:
  assumes "poll_state f po" "jm \<in> set (snd f)"
  shows "\<exists>c. po_heartbeat_cursor po = Some c \<and> fst jm \<le> c"
proof -
  have "\<not> later_than (po_compaction_cursor po) (fst jm)" "po_heartbeat_cursor po = po_compaction_cursor po"
    using assms by (auto simp: poll_state_def poll_inv_def cursors_of_def)
  then show ?thesis by (auto simp: later_than_def not_less split: option.splits)
qed

section \<open>Properties\<close>

lemma poll_state_files:
  assumes "poll_state f po" "inventory_ok f"
  shows "set (each_file (lg_files (po_files po))) = set (ops_adds (manifests f)) - set (ops_rems (manifests f))"
  using assms poll_inv_files unfolding poll_state_def by blast

lemma poll_state_cursors: "poll_state f po \<Longrightarrow> cursors_of f (po_wal_cursors po) (po_compaction_cursor po)"
  by (auto simp: poll_state_def poll_inv_def)

text \<open>
  C5. The poller refines folding the views it saw. Whatever rounds it has gone through, failed ones
  included, its ledger holds exactly the files some folded manifest added and no folded manifest
  removed, its cursors are the highest numbers folded, the cursor it reports is that of its ledger,
  and it is ready once a round has succeeded.
\<close>

theorem poller_folds_views:
  fixes evict :: "string \<Rightarrow> nat \<Rightarrow> 't \<Rightarrow> 't" and tail :: 't
  assumes "path_api_ok pa" and "list_all2 (round_sees js pa api) ss vs" and "inventory_ok (folded_from ([], []) vs)"
  defines "f \<equiv> folded_from ([], []) vs" and "po \<equiv> poll_run js pa api evict ss (poller_new [] None (ledger_run []) tail)"
  shows "set (each_file (lg_files (po_files po))) = set (ops_adds (manifests f)) - set (ops_rems (manifests f)) \<and>
    cursors_of f (po_wal_cursors po) (po_compaction_cursor po) \<and>
    po_heartbeat_cursor po = po_compaction_cursor po \<and>
    (po_ready po \<longleftrightarrow> (\<exists>v \<in> set vs. v \<noteq> None))"
proof -
  note run = poll_run_state [OF assms(1,2) poll_state_new, of evict tail, folded f_def po_def]
  then have st: "poll_state f po" by simp
  from st have "po_heartbeat_cursor po = po_compaction_cursor po" by (simp add: poll_state_def)
  with run poll_state_files [OF st assms(3) [folded f_def]] poll_state_cursors [OF st] show ?thesis
    by (simp add: poller_new_def)
qed

text \<open>A compaction that a reader's cursor counts as folded has its removals in the fold.\<close>

lemma folded_removals:
  assumes st: "poll_state (folded_from ([], []) vs) po" and hb: "hb_compaction_cursor hb = po_heartbeat_cursor po"
    and folded: "has_folded (fst im) hb" and order: "published_in_order im vs"
  shows "set (each_file (ps_removed_files (snd im))) \<subseteq> set (ops_rems (manifests (folded_from ([], []) vs)))"
proof -
  let ?f = "folded_from ([], []) vs"
  obtain c where c: "po_compaction_cursor po = Some c" "fst im \<le> c"
    using hb folded st by (auto simp: has_folded_def poll_state_def split: option.splits)
  with poll_state_cursors [OF st] obtain jm where "jm \<in> set (snd ?f)" "fst im \<le> fst jm" by (auto simp: cursors_of_def)
  then have "im \<in> set (snd ?f)" using in_order_folded [OF order, of "([], [])" jm] by simp
  then show ?thesis by (auto simp: ops_rems_def manifests_def)
qed

text \<open>
  C37. A compaction published late is lost to the reader: once a compaction with a higher id is
  folded, one that is not folded yet never will be, so the files only it adds never reach the ledger,
  while the cursor the poller reports counts it as folded.
\<close>

theorem late_compaction_skipped:
  fixes evict :: "string \<Rightarrow> nat \<Rightarrow> 't \<Rightarrow> 't" and tail :: 't
  assumes "path_api_ok pa" and "list_all2 (round_sees js pa api) ss (vs @ vs')"
    and "inventory_ok (folded_from ([], []) (vs @ vs'))"
    and "jm \<in> set (snd (folded_from ([], []) vs))" and "fst im \<le> fst jm" and "im \<notin> set (snd (folded_from ([], []) vs))"
    and "x \<in> set (each_file (ps_databases (snd im)))"
    and "\<forall>op \<in> set (manifests (folded_from ([], []) (vs @ vs'))). x \<in> set (op_adds op) \<longrightarrow> op = FoldManifest (snd im) (Some (fst im))"
  defines "po \<equiv> poll_run js pa api evict ss (poller_new [] None (ledger_run []) tail)"
  shows "x \<notin> set (each_file (lg_files (po_files po))) \<and>
    has_folded (fst im) \<lparr> hb_node_id = node, hb_compaction_cursor = po_heartbeat_cursor po, hb_updated_at_ms = t \<rparr>"
proof -
  define f where "f = folded_from ([], []) (vs @ vs')"
  from poll_run_state [OF assms(1,2) poll_state_new, of evict tail, folded f_def po_def] have st: "poll_state f po" by simp
  have late: "im \<notin> set (snd f)" "jm \<in> set (snd f)"
    using late_never_folded [OF assms(4-6), of vs'] unfolding f_def folded_from_simps(3) by simp_all
  have "FoldManifest (snd im) (Some (fst im)) \<notin> set (manifests f)" using late(1) by (auto simp: manifests_def)
  then have "x \<notin> set (ops_adds (manifests f))" using assms(8) [folded f_def] by (auto simp: ops_adds_def)
  then have "x \<notin> set (each_file (lg_files (po_files po)))"
    using poll_state_files [OF st assms(3) [folded f_def]] by simp
  with cursor_covers [OF st late(2)] assms(5) show ?thesis by (auto simp: has_folded_def)
qed

text \<open>
  A writer's manifest and two compactions: the later one replaces the writer's file, the earlier one
  adds a file and is published after it.
\<close>

definition demo_wal :: persisted_snapshot where
  "demo_wal = (demo_snapshot 2 [(0, [(0, [demo_gen1])])] [])\<lparr> ps_node_id := ''w'' \<rparr>"

definition demo_replacing :: persisted_snapshot where
  "demo_replacing = demo_snapshot 1 [(0, [(0, [demo_gen2])])] [(0, [(0, [demo_gen1])])]"

definition demo_late_file :: parquet_file where "demo_late_file = demo_file 3 ''c/dbs/d/t/gen2/v.parquet'' 0"

definition demo_late :: persisted_snapshot where "demo_late = demo_snapshot 1 [(0, [(0, [demo_late_file])])] []"

definition demo_documents :: "unit inventory_json" where
  "demo_documents =
     \<lparr> write_snapshot = (\<lambda>_. Inl ()),
       read_snapshot = (\<lambda>b. if b = [1] then Inr demo_wal else if b = [2] then Inr demo_replacing
          else if b = [3] then Inr demo_late else Inl ()),
       write_full = (\<lambda>_. Inl ()), read_full = (\<lambda>_. Inl ()), write_heartbeat = (\<lambda>_. Inl ()),
       read_heartbeat = (\<lambda>b. if b = [4]
          then Inr \<lparr> hb_node_id = ''q'', hb_compaction_cursor = Some ''01B'', hb_updated_at_ms = 1000 \<rparr> else Inl ()) \<rparr>"

definition demo_inventory :: "(string \<times> bytes \<times> nat) list \<Rightarrow> mem_store" where
  "demo_inventory others =
     \<lparr> mem_objects = (manifest_entry plain_paths demo_wal, [1], 0) # (compaction_entry plain_paths ''01B'', [2], 1) # others,
       mem_next = 4 \<rparr>"

definition demo_view :: inventory_view where "demo_view = ([demo_wal], [(''01B'', demo_replacing)])"

lemmas demo_inventory_simps =
  round_sees_def inventory_shows_def manifest_names_ok_def lists_exactly_def reads_as_def mem_api_def demo_inventory_def
  demo_view_def demo_documents_def wal_dir_def compaction_dir_def wal_entry_def compaction_entry_def consumer_dir_def
  consumer_entry_def SHARED_INVENTORY_PREFIX_def plain_paths_def plain_seg_def plain_char_def is_digit_def u64_max_def
  suffix_to_prefix Let_def

lemma demo_wal_id [simp]: "ps_node_id demo_wal = ''w''" "ps_snapshot_sequence_number demo_wal = 2"
  by (simp_all add: demo_wal_def demo_snapshot_def persisted_snapshot_new_def)

lemma demo_round: "round_sees demo_documents plain_paths mem_api (demo_inventory []) (Some demo_view)"
  by (simp add: demo_inventory_simps)

lemma demo_late_round:
  "round_sees demo_documents plain_paths mem_api (demo_inventory [(compaction_entry plain_paths ''01A'', [3], 2)])
     (Some ([demo_wal], [(''01A'', demo_late), (''01B'', demo_replacing)]))"
  by (simp add: demo_inventory_simps)

lemma demo_folded:
  "folded_from ([], []) [Some demo_view] = demo_view"
  "folded_from ([], []) [Some demo_view, Some ([demo_wal], [(''01A'', demo_late), (''01B'', demo_replacing)])] = demo_view"
  by (simp_all add: folded_from_def fold_view_def demo_view_def newer_def newer_id_def)

lemma demo_view_ok: "inventory_ok demo_view"
  by (simp add: inventory_ok_def demo_view_def manifests_def demo_wal_def demo_replacing_def demo_ops_simps demo_history_simps)

theorem poller_folds_views_witness:
  "let po = poll_run demo_documents plain_paths mem_api (\<lambda>_ _ t. t) [demo_inventory []] (poller_new [] None (ledger_run []) ())
   in set (each_file (lg_files (po_files po))) = {(0, 0, demo_gen2)} \<and> po_ready po"
proof -
  have "list_all2 (round_sees demo_documents plain_paths mem_api) [demo_inventory []] [Some demo_view]"
    using demo_round by simp
  note poller_folds_views [OF plain_paths_ok this, unfolded demo_folded, OF demo_view_ok, of "\<lambda>_ _ t. t" "()"]
  moreover have "set (ops_adds (manifests demo_view)) - set (ops_rems (manifests demo_view)) = {(0, 0, demo_gen2)}"
    by (auto simp: demo_view_def manifests_def demo_wal_def demo_replacing_def demo_snapshot_def persisted_snapshot_new_def
        demo_gen1_def demo_gen2_def demo_file_def)
  ultimately show ?thesis by (simp add: Let_def)
qed

theorem late_compaction_skipped_witness:
  "let po = poll_run demo_documents plain_paths mem_api (\<lambda>_ _ t. t)
         [demo_inventory [], demo_inventory [(compaction_entry plain_paths ''01A'', [3], 2)]] (poller_new [] None (ledger_run []) ())
   in (0, 0, demo_late_file) \<notin> set (each_file (lg_files (po_files po))) \<and>
      has_folded ''01A'' \<lparr> hb_node_id = ''q'', hb_compaction_cursor = po_heartbeat_cursor po, hb_updated_at_ms = 0 \<rparr>"
proof -
  let ?v = "([demo_wal], [(''01A'', demo_late), (''01B'', demo_replacing)])"
  have sees: "list_all2 (round_sees demo_documents plain_paths mem_api)
      [demo_inventory [], demo_inventory [(compaction_entry plain_paths ''01A'', [3], 2)]] ([Some demo_view] @ [Some ?v])"
    using demo_round demo_late_round by simp
  have "inventory_ok (folded_from ([], []) ([Some demo_view] @ [Some ?v]))" by (simp add: demo_folded demo_view_ok)
  moreover have "(''01B'', demo_replacing) \<in> set (snd (folded_from ([], []) [Some demo_view]))"
    "fst (''01A'', demo_late) \<le> fst (''01B'', demo_replacing)"
    "(''01A'', demo_late) \<notin> set (snd (folded_from ([], []) [Some demo_view]))"
    by (simp_all add: demo_folded) (simp_all add: demo_view_def)
  moreover have "(0, 0, demo_late_file) \<in> set (each_file (ps_databases (snd (''01A'', demo_late))))"
    by (simp add: demo_late_def demo_snapshot_def persisted_snapshot_new_def)
  moreover have "\<forall>op \<in> set (manifests (folded_from ([], []) ([Some demo_view] @ [Some ?v]))). (0, 0, demo_late_file) \<in> set (op_adds op) \<longrightarrow>
      op = FoldManifest (snd (''01A'', demo_late)) (Some (fst (''01A'', demo_late)))"
    by (simp add: demo_folded) (simp add: demo_view_def manifests_def demo_wal_def demo_replacing_def demo_late_file_def demo_snapshot_def
        persisted_snapshot_new_def demo_gen1_def demo_gen2_def demo_file_def)
  ultimately show ?thesis
    using late_compaction_skipped [OF plain_paths_ok sees, of "(''01B'', demo_replacing)" "(''01A'', demo_late)" "(0, 0, demo_late_file)" "\<lambda>_ _ t. t" "()"]
    by (simp add: Let_def)
qed

end
