(* ===== verification/Wal_Tail.thy ===== *)
theory Wal_Tail
  imports Wal_Store Queryable_Buffer Inventory_Poller
begin

text \<open>
  The tail of the writers' WAL a querier keeps (influxdb3_write/src/wal_tail.rs): it lists the WAL files
  of its writers, buffers the rows of each new one, and drops a file once the inventory poller has
  folded a snapshot that covers it. The listing and the reads of the store are arguments, the Arrow
  kernel that concatenates batches is a parameter, and the warning about dropped files is left out.
\<close>

section \<open>The tail of a writer\<close>

type_synonym tail_files = "(nat \<times> buffer_state) list"

fun drop_over_cap :: "nat \<Rightarrow> tail_files \<Rightarrow> tail_files" where
  "drop_over_cap max_files [] = []"
| "drop_over_cap max_files (oldest # files) =
     (if max_files < length (oldest # files) then drop_over_cap max_files files else oldest # files)"

definition tail_add_file :: "nat \<Rightarrow> wal_op list \<Rightarrow> nat \<Rightarrow> tail_files \<Rightarrow> tail_files panicking" where
  "tail_add_file sequence ops max_files files =
     bind_res (buffer_write_ops ops []) (\<lambda>state.
       Inr (drop_over_cap max_files (btree_upd sequence state (\<lambda>_. state) files)))"

definition tail_cursor :: "tail_files \<Rightarrow> nat" where
  "tail_cursor files = (if files = [] then 0 else fst (last files))"

section \<open>The tail buffer\<close>

record wal_tail =
  tl_writer_node_ids :: "string list"
  tl_max_files_per_writer :: nat
  tl_state :: "(string \<times> tail_files) list"
  tl_persisted_high_water :: "(string \<times> nat) list"

definition wal_tail_new :: "string list \<Rightarrow> nat \<Rightarrow> wal_tail" where
  "wal_tail_new writer_node_ids max_files =
     \<lparr> tl_writer_node_ids = writer_node_ids, tl_max_files_per_writer = max max_files 1, tl_state = [],
       tl_persisted_high_water = [] \<rparr>"

definition tail_of :: "string \<Rightarrow> wal_tail \<Rightarrow> tail_files" where
  "tail_of writer tail = the_or [] (map_of (tl_state tail) writer)"

definition high_water_of :: "string \<Rightarrow> wal_tail \<Rightarrow> nat" where
  "high_water_of writer tail = the_or 0 (map_of (tl_persisted_high_water tail) writer)"

definition evict_up_to :: "string \<Rightarrow> nat \<Rightarrow> wal_tail \<Rightarrow> wal_tail" where
  "evict_up_to writer sequence tail =
     (let hw = entry_upd writer 0 (\<lambda>h. if h < sequence then sequence else h) (tl_persisted_high_water tail) in
      if high_water_of writer tail < sequence
      then tail\<lparr> tl_persisted_high_water := hw,
                 tl_state := (case map_of (tl_state tail) writer of
                     None \<Rightarrow> tl_state tail
                   | Some files \<Rightarrow> AList.update writer (filter (\<lambda>f. \<not> fst f \<le> sequence) files) (tl_state tail)) \<rparr>
      else tail\<lparr> tl_persisted_high_water := hw \<rparr>)"

definition parse_wal_seq :: "path_api \<Rightarrow> string \<Rightarrow> nat option" where
  "parse_wal_seq pa path =
     Option.bind (path_filename pa path) (\<lambda>filename. parse_uint u64_max (trim_end_matches ''.wal'' filename))"

text \<open>
  One listed file, with the cursor and the high water read at the start of the tick; \<open>get\<close> reads an
  object. A file that does not decode is passed over.
\<close>

record 'e tail_env =
  te_paths :: path_api
  te_crc :: "byte list \<Rightarrow> 32 word"
  te_decode :: "byte list \<Rightarrow> 'e + wal_contents"

definition tail_path ::
    "'e tail_env \<Rightarrow> (string \<Rightarrow> store_error + byte list) \<Rightarrow> string \<Rightarrow> nat \<Rightarrow> nat \<Rightarrow> string \<Rightarrow> wal_tail \<Rightarrow>
     (store_error + nat \<times> wal_tail) panicking" where
  "tail_path env get writer cursor high_water path tail =
     (case parse_wal_seq (te_paths env) path of
        None \<Rightarrow> Inr (Inr (0, tail))
      | Some sequence \<Rightarrow>
          if sequence \<le> cursor then Inr (Inr (0, tail))
          else if sequence \<le> high_water then Inr (Inr (0, tail))
          else case get path of
              Inl e \<Rightarrow> Inr (Inl e)
            | Inr b \<Rightarrow> (case verify_file_type_and_deserialize (te_crc env) (te_decode env) b of
                  Inl _ \<Rightarrow> Inr (Inr (0, tail))
                | Inr contents \<Rightarrow>
                    bind_res (tail_add_file (wal_file_number contents) (wal_ops contents) (tl_max_files_per_writer tail) (tail_of writer tail)) (\<lambda>files.
                      Inr (Inr (1, tail\<lparr> tl_state := entry_upd writer [] (\<lambda>_. files) (tl_state tail) \<rparr>)))))"

primrec tail_paths ::
    "'e tail_env \<Rightarrow> (string \<Rightarrow> store_error + byte list) \<Rightarrow> string \<Rightarrow> nat \<Rightarrow> nat \<Rightarrow> string list \<Rightarrow> nat \<Rightarrow> wal_tail \<Rightarrow>
     ((store_error + nat) \<times> wal_tail) panicking" where
  "tail_paths env get writer cursor high_water [] applied tail = Inr (Inr applied, tail)"
| "tail_paths env get writer cursor high_water (path # paths) applied tail =
     bind_res (tail_path env get writer cursor high_water path tail) (\<lambda>r. case r of
        Inl e \<Rightarrow> Inr (Inl e, tail)
      | Inr (n, tail) \<Rightarrow> tail_paths env get writer cursor high_water paths (applied + n) tail)"

text \<open>A tick; \<open>None\<close> stands for a listing that never ends.\<close>

primrec tail_tick ::
    "'e tail_env \<Rightarrow> (string \<Rightarrow> string option \<Rightarrow> store_error + string list) \<Rightarrow> (string \<Rightarrow> store_error + byte list) \<Rightarrow>
     string list \<Rightarrow> nat \<Rightarrow> wal_tail \<Rightarrow> ((store_error + nat) \<times> wal_tail) panicking option" where
  "tail_tick env ls get [] applied tail = Some (Inr (Inr applied, tail))"
| "tail_tick env ls get (writer # writers) applied tail =
     (case load_all_wal_file_paths (te_paths env) ls writer of
        None \<Rightarrow> None
      | Some (Inl e) \<Rightarrow> Some (Inr (Inl e, tail))
      | Some (Inr paths) \<Rightarrow>
          (case tail_paths env get writer (tail_cursor (tail_of writer tail)) (high_water_of writer tail) paths applied tail of
             Inl p \<Rightarrow> Some (Inl p)
           | Inr (Inl e, tail) \<Rightarrow> Some (Inr (Inl e, tail))
           | Inr (Inr applied, tail) \<Rightarrow> tail_tick env ls get writers applied tail))"

section \<open>Queries\<close>

datatype tail_query_error = TailBatches table_buffer_error | TailConcat string

definition add_partition ::
    "int \<times> (int \<times> int) \<times> record_batch list \<Rightarrow> (int \<times> (int \<times> int) \<times> record_batch list) list \<Rightarrow> (int \<times> (int \<times> int) \<times> record_batch list) list" where
  "add_partition p by_partition =
     (case p of (chunk_time, ts, batches) \<Rightarrow>
        if batches = [] then by_partition
        else entry_upd chunk_time (ts, []) (\<lambda>(ts', bs). (timestamp_union ts' ts, bs @ batches)) by_partition)"

definition tail_file_batches ::
    "table_def \<Rightarrow> nat \<Rightarrow> nat \<Rightarrow> chunk_filter \<Rightarrow> (int \<times> (int \<times> int) \<times> record_batch list) list \<Rightarrow> nat \<times> buffer_state \<Rightarrow>
     (tail_query_error + (int \<times> (int \<times> int) \<times> record_batch list) list) panicking" where
  "tail_file_batches td d t flt by_partition file =
     (case Option.bind (map_of (snd file) d) (\<lambda>m. map_of m t) of
        None \<Rightarrow> Inr (Inr by_partition)
      | Some tb \<Rightarrow>
          bind_res (buffer_timestamp_min_max tb) (\<lambda>range.
            if \<not> test_time_stamp_min_max flt (fst range) (snd range) then Inr (Inr by_partition)
            else bind_res (partitioned_record_batches td flt tb) (\<lambda>r. case r of
                Inl e \<Rightarrow> Inr (Inl (TailBatches e))
              | Inr partitioned \<Rightarrow> Inr (Inr (fold add_partition partitioned by_partition)))))"

primrec tail_files_batches ::
    "table_def \<Rightarrow> nat \<Rightarrow> nat \<Rightarrow> chunk_filter \<Rightarrow> (nat \<times> buffer_state) list \<Rightarrow> (int \<times> (int \<times> int) \<times> record_batch list) list \<Rightarrow>
     (tail_query_error + (int \<times> (int \<times> int) \<times> record_batch list) list) panicking" where
  "tail_files_batches td d t flt [] by_partition = Inr (Inr by_partition)"
| "tail_files_batches td d t flt (file # files) by_partition =
     bind_res (tail_file_batches td d t flt by_partition file) (\<lambda>r. case r of
        Inl e \<Rightarrow> Inr (Inl e)
      | Inr by_partition \<Rightarrow> tail_files_batches td d t flt files by_partition)"

definition tail_table_chunks ::
    "(record_batch list \<Rightarrow> string + record_batch) \<Rightarrow> table_def \<Rightarrow> nat \<Rightarrow> nat \<Rightarrow> chunk_filter \<Rightarrow> wal_tail \<Rightarrow>
     (tail_query_error + ((int \<times> int) \<times> nat \<times> record_batch) list) panicking" where
  "tail_table_chunks concat_batches td d t flt tail =
     bind_res (tail_files_batches td d t flt (concat (map snd (tl_state tail))) []) (\<lambda>r. case r of
        Inl e \<Rightarrow> Inr (Inl e)
      | Inr by_partition \<Rightarrow> Inr (res_map (\<lambda>(chunk_time, ts, batches). case concat_batches batches of
            Inl e \<Rightarrow> Inl (TailConcat e) | Inr batch \<Rightarrow> Inr (ts, num_rows batch, batch)) by_partition))"

section \<open>A writer, its tail and the poller\<close>

text \<open>
  A writer stores numbered WAL files and later deletes some. The querier lists the present files and
  takes them one by one; evictions of the poller, new files and deletions may come between any two of
  these steps, and a tick may be given up at any point.
\<close>

record tick_state =
  tk_cursor :: nat
  tk_high_water :: nat
  tk_files :: "nat list"
  tk_last :: nat

record tail_sys =
  sy_written :: "nat \<rightharpoonup> wal_contents"
  sy_present :: "nat set"
  sy_tail :: wal_tail
  sy_tick :: "tick_state option"

definition get_present ::
    "'e tail_env \<Rightarrow> string \<Rightarrow> (wal_contents \<Rightarrow> byte list) \<Rightarrow> tail_sys \<Rightarrow> string \<Rightarrow> store_error + byte list" where
  "get_present env writer bytes_of s path =
     (case parse_wal_seq (te_paths env) path of
        None \<Rightarrow> Inl NotFound
      | Some n \<Rightarrow> if n \<in> sy_present s then Inr (bytes_of (the (sy_written s n))) else Inl NotFound)"

inductive tail_sys_step ::
    "buffer_catalog \<Rightarrow> 'e tail_env \<Rightarrow> string \<Rightarrow> (wal_contents \<Rightarrow> byte list) \<Rightarrow> tail_sys \<Rightarrow> tail_sys \<Rightarrow> bool"
  for cat env writer bytes_of where
  store: "\<lbrakk>0 < wal_file_number c; \<forall>m \<in> dom (sy_written s). m < wal_file_number c; wal_file_number c \<le> u64_max;
           list_all (node_op_ok cat) (wal_ops c);
           verify_file_type_and_deserialize (te_crc env) (te_decode env) (bytes_of c) = Inr c\<rbrakk> \<Longrightarrow>
    tail_sys_step cat env writer bytes_of s
      (s\<lparr> sy_written := (sy_written s)(wal_file_number c \<mapsto> c), sy_present := insert (wal_file_number c) (sy_present s) \<rparr>)"
| delete: "tail_sys_step cat env writer bytes_of s (s\<lparr> sy_present := sy_present s - gone \<rparr>)"
| evict: "tail_sys_step cat env writer bytes_of s (s\<lparr> sy_tail := evict_up_to writer n (sy_tail s) \<rparr>)"
| start: "\<lbrakk>sorted_wrt (<) ns; set ns = sy_present s\<rbrakk> \<Longrightarrow>
    tail_sys_step cat env writer bytes_of s
      (s\<lparr> sy_tick := Some \<lparr> tk_cursor = tail_cursor (tail_of writer (sy_tail s)), tk_high_water = high_water_of writer (sy_tail s),
                           tk_files = ns, tk_last = (if ns = [] then 0 else last ns) \<rparr> \<rparr>)"
| take: "\<lbrakk>sy_tick s = Some tk; tk_files tk = n # ns;
          tail_path env (get_present env writer bytes_of s) writer (tk_cursor tk) (tk_high_water tk) (wal_path (te_paths env) writer n) (sy_tail s)
            = Inr (Inr (k, tail'))\<rbrakk> \<Longrightarrow>
    tail_sys_step cat env writer bytes_of s (s\<lparr> sy_tail := tail', sy_tick := Some (tk\<lparr> tk_files := ns \<rparr>) \<rparr>)"
| give_up: "tail_sys_step cat env writer bytes_of s (s\<lparr> sy_tick := None \<rparr>)"

definition window :: "string \<Rightarrow> tail_sys \<Rightarrow> nat set" where
  "window writer s = {m \<in> dom (sy_written s). high_water_of writer (sy_tail s) < m}"

definition window_fits :: "string \<Rightarrow> tail_sys \<Rightarrow> bool" where
  "window_fits writer s \<longleftrightarrow> card (window writer s) \<le> tl_max_files_per_writer (sy_tail s)"

definition tail_file_shows :: "buffer_catalog \<Rightarrow> wal_contents \<Rightarrow> buffer_state \<Rightarrow> bool" where
  "tail_file_shows cat c st \<longleftrightarrow> state_shows cat (\<lambda>d. with_rows (\<lambda>_. (\<lambda>_. [], \<lambda>_. [])) (node_ops_rows (wal_ops c) d)) st"

definition written_ok :: "buffer_catalog \<Rightarrow> (wal_contents \<Rightarrow> bool) \<Rightarrow> tail_sys \<Rightarrow> bool" where
  "written_ok cat decodes s \<longleftrightarrow> finite (dom (sy_written s)) \<and> 0 \<notin> dom (sy_written s) \<and> sy_present s \<subseteq> dom (sy_written s) \<and>
     (\<forall>n c. sy_written s n = Some c \<longrightarrow> wal_file_number c = n \<and> n \<le> u64_max \<and> list_all (node_op_ok cat) (wal_ops c) \<and> decodes c)"

definition tail_files_ok :: "buffer_catalog \<Rightarrow> (nat \<rightharpoonup> wal_contents) \<Rightarrow> tail_files \<Rightarrow> bool" where
  "tail_files_ok cat written files \<longleftrightarrow> keys_sorted files \<and>
     (\<forall>f \<in> set files. \<exists>c. written (fst f) = Some c \<and> tail_file_shows cat c (snd f))"

text \<open>Every present file up to \<open>k\<close> that is above the high water is in the tail.\<close>

definition covers_to :: "nat set \<Rightarrow> nat \<Rightarrow> tail_files \<Rightarrow> nat \<Rightarrow> bool" where
  "covers_to present hw files k \<longleftrightarrow> (\<forall>m \<in> present. hw < m \<longrightarrow> m \<le> k \<longrightarrow> m \<in> fst ` set files)"

definition tick_ok :: "nat set \<Rightarrow> nat set \<Rightarrow> nat \<Rightarrow> tail_files \<Rightarrow> tick_state \<Rightarrow> bool" where
  "tick_ok written present hw files tk \<longleftrightarrow>
     sorted_wrt (<) (tk_files tk) \<and> set (tk_files tk) \<subseteq> written \<and> (\<forall>n \<in> set (tk_files tk). n \<le> tk_last tk) \<and>
     tk_last tk \<in> insert 0 written \<and> tk_cursor tk \<in> insert 0 written \<and> tk_high_water tk \<le> hw \<and>
     covers_to present hw files (tk_cursor tk) \<and> covers_to (present - set (tk_files tk)) hw files (tk_last tk)"

definition tail_sys_inv :: "buffer_catalog \<Rightarrow> (wal_contents \<Rightarrow> bool) \<Rightarrow> string \<Rightarrow> tail_sys \<Rightarrow> bool" where
  "tail_sys_inv cat decodes writer s \<longleftrightarrow>
     (let files = tail_of writer (sy_tail s); hw = high_water_of writer (sy_tail s) in
      written_ok cat decodes s \<and> tail_files_ok cat (sy_written s) files \<and> covers_to (sy_present s) hw files (tail_cursor files) \<and>
      (\<forall>tk. sy_tick s = Some tk \<longrightarrow> tick_ok (dom (sy_written s)) (sy_present s) hw files tk))"

lemma drop_over_cap_drop: "drop_over_cap k files = drop (length files - k) files"
  by (induction files) (auto simp: Suc_diff_le)

lemma tail_cursor_mem: "files \<noteq> [] \<Longrightarrow> tail_cursor files \<in> fst ` set files"
  by (auto simp: tail_cursor_def)

lemma tail_cursor_ge: "keys_sorted files \<Longrightarrow> n \<in> fst ` set files \<Longrightarrow> n \<le> tail_cursor files"
  using increasing_le_last [of "map fst files" n] by (auto simp: keys_sorted_def tail_cursor_def last_map)

lemma tail_of_evict:
  "tail_of w' (evict_up_to w n tail) =
     (if w' = w \<and> high_water_of w tail < n then filter (\<lambda>f. \<not> fst f \<le> n) (tail_of w' tail) else tail_of w' tail)"
  by (auto simp: tail_of_def evict_up_to_def Let_def update_conv' split: option.split)

lemma high_water_of_evict:
  "high_water_of w' (evict_up_to w n tail) = (if w' = w then max (high_water_of w' tail) n else high_water_of w' tail)"
  by (auto simp: high_water_of_def evict_up_to_def Let_def map_of_entry_upd max_def)

lemma tail_evict_max [simp]: "tl_max_files_per_writer (evict_up_to w n tail) = tl_max_files_per_writer tail"
  by (simp add: evict_up_to_def Let_def)

lemma capped_keeps:
  assumes sorted: "keys_sorted fs" and W: "{k \<in> fst ` set fs. h < k} \<subseteq> W" "finite W" "card W \<le> cap"
    and k: "k \<in> fst ` set fs" "h < k"
  shows "k \<in> fst ` set (drop_over_cap cap fs)"
proof -
  let ?ks = "map fst fs"
  have ks: "sorted_wrt (<) ?ks" using sorted by (simp add: keys_sorted_def)
  from k(1) obtain i where i: "i < length ?ks" "?ks ! i = k" unfolding list.set_map [symmetric] in_set_conv_nth by blast
  have "set (drop i ?ks) \<subseteq> W"
  proof
    fix j assume "j \<in> set (drop i ?ks)"
    then obtain l where "l < length (drop i ?ks)" "drop i ?ks ! l = j" unfolding in_set_conv_nth by blast
    then have l: "i + l < length ?ks" "j = ?ks ! (i + l)" by simp_all
    have "k \<le> j"
    proof (cases "l = 0")
      case False
      with sorted_wrt_nth_less [OF ks, of i "i + l"] i l show ?thesis by simp
    qed (use i l in simp)
    with k(2) l have "j \<in> {k \<in> fst ` set fs. h < k}" using nth_mem [OF l(1)] by auto
    with W(1) show "j \<in> W" by blast
  qed
  then have "card (set (drop i ?ks)) \<le> cap" using card_mono [OF W(2)] W(3) le_trans by blast
  moreover have "card (set (drop i ?ks)) = length fs - i"
    using ks by (simp add: distinct_card distinct_drop strict_sorted_iff)
  ultimately have le: "length fs - cap \<le> i" by simp
  let ?n = "length fs - cap"
  have "drop ?n ?ks ! (i - ?n) = k" using le i by (simp only: nth_drop length_map le_add_diff_inverse)
  moreover have "i - ?n < length (drop ?n ?ks)" using le i(1) by simp
  ultimately have "k \<in> set (drop ?n ?ks)" using nth_mem by metis
  then show ?thesis by (simp add: drop_over_cap_drop drop_map)
qed

lemma keys_sorted_drop: "keys_sorted fs \<Longrightarrow> keys_sorted (drop n fs)"
  by (simp add: keys_sorted_def sorted_wrt_drop flip: drop_map)

lemma set_btree_upd: "x \<in> set (btree_upd k v (\<lambda>_. v) m) \<Longrightarrow> x = (k, v) \<or> x \<in> set m"
  by (induction m) (auto split: if_splits)

lemma parse_wal_path:
  assumes "path_api_ok pa" "plain_seg writer" "n \<le> u64_max"
  shows "parse_wal_seq pa (wal_path pa writer n) = Some n"
proof -
  have ss: "list_all plain_seg [writer, ''wal'', pad0 11 n @ ''.wal'']"
    using assms(2) plain_seg_pad0 [of "''.wal''" 11 n] by (simp add: plain_seg_def plain_char_def is_digit_def)
  have "wal_path pa writer n = join_path [writer, ''wal'', pad0 11 n @ ''.wal'']"
    using path_api_okD(1) [OF assms(1) _ ss] by (simp add: wal_path_def)
  then have "path_filename pa (wal_path pa writer n) = Some (pad0 11 n @ ''.wal'')"
    using path_api_okD(3) [OF assms(1) _ ss] by simp
  moreover have "trim_end_matches ''.wal'' (pad0 11 n @ ''.wal'') = pad0 11 n"
    by (rule trim_digits) (simp_all add: pad0_digits is_digit_def)
  ultimately show ?thesis using assms(3) by (simp add: parse_wal_seq_def)
qed

lemma state_shows_nil: "state_shows cat (\<lambda>_ _. (\<lambda>_. [], \<lambda>_. [])) []"
  by (simp add: state_shows_def db_shows_def table_shows_def keys_distinct_def)

lemma tail_add_file_shows:
  assumes "list_all (node_op_ok cat) (wal_ops c)"
  shows "\<exists>st. buffer_write_ops (wal_ops c) [] = Inr st \<and> tail_file_shows cat c st"
  using buffer_write_ops_shows [OF state_shows_nil assms] by (simp add: tail_file_shows_def)

lemma covers_to_mono:
  assumes "covers_to present hw files k" "present' \<subseteq> present" "hw \<le> hw'" "k' \<le> k"
    and "\<forall>m \<in> fst ` set files. hw' < m \<longrightarrow> m \<in> fst ` set files'"
  shows "covers_to present' hw' files' k'"
  using assms unfolding covers_to_def by (meson le_less_trans le_trans subsetD)

lemma tick_ok_mono:
  assumes "tick_ok written present hw files tk" "written \<subseteq> written'" "present' \<subseteq> present" "hw \<le> hw'"
    and "\<forall>m \<in> fst ` set files. hw' < m \<longrightarrow> m \<in> fst ` set files'"
  shows "tick_ok written' present' hw' files' tk"
proof -
  have "covers_to present' hw' files' (tk_cursor tk)" "covers_to (present' - set (tk_files tk)) hw' files' (tk_last tk)"
    using assms(1) by (auto simp: tick_ok_def intro: covers_to_mono [OF _ _ assms(4) order_refl assms(5)] subsetD [OF assms(3)])
  with assms(1,2,4) show ?thesis by (auto simp: tick_ok_def)
qed

lemma covers_to_insert: "covers_to present hw files k \<Longrightarrow> k < n \<Longrightarrow> covers_to (insert n present) hw files k"
  by (auto simp: covers_to_def)

lemma cursor_written:
  "tail_files_ok cat written files \<Longrightarrow> tail_cursor files \<in> insert 0 (dom written)"
  using tail_cursor_mem [of files] by (cases "files = []") (auto simp: tail_files_ok_def tail_cursor_def)

lemma inv_store:
  assumes inv: "tail_sys_inv cat decodes writer s" and n: "0 < n" "\<forall>m \<in> dom (sy_written s). m < n" "n \<le> u64_max"
    and c: "wal_file_number c = n" "list_all (node_op_ok cat) (wal_ops c)" "decodes c"
  shows "tail_sys_inv cat decodes writer (s\<lparr> sy_written := (sy_written s)(n \<mapsto> c), sy_present := insert n (sy_present s) \<rparr>)"
proof -
  let ?files = "tail_of writer (sy_tail s)" and ?hw = "high_water_of writer (sy_tail s)"
  have less: "k < n" if "k \<in> insert 0 (dom (sy_written s))" for k using that n(1,2) by blast
  have i: "written_ok cat decodes s" "tail_files_ok cat (sy_written s) ?files" "covers_to (sy_present s) ?hw ?files (tail_cursor ?files)"
    "\<And>tk. sy_tick s = Some tk \<Longrightarrow> tick_ok (dom (sy_written s)) (sy_present s) ?hw ?files tk"
    using inv by (simp_all add: tail_sys_inv_def Let_def)
  have "written_ok cat decodes (s\<lparr> sy_written := (sy_written s)(n \<mapsto> c), sy_present := insert n (sy_present s) \<rparr>)"
    using i(1) n c by (auto simp: written_ok_def)
  moreover have "tail_files_ok cat ((sy_written s)(n \<mapsto> c)) ?files"
    using i(2) less unfolding tail_files_ok_def by (metis domI fun_upd_other insertCI less_irrefl_nat)
  moreover have "covers_to (insert n (sy_present s)) ?hw ?files (tail_cursor ?files)"
    by (rule covers_to_insert [OF i(3) less [OF cursor_written [OF i(2)]]])
  moreover have "tick_ok (dom ((sy_written s)(n \<mapsto> c))) (insert n (sy_present s)) ?hw ?files tk" if "sy_tick s = Some tk" for tk
  proof -
    note tk = i(4) [OF that, unfolded tick_ok_def]
    have "covers_to (insert n (sy_present s)) ?hw ?files (tk_cursor tk)" "covers_to (insert n (sy_present s) - set (tk_files tk)) ?hw ?files (tk_last tk)"
      using tk less [of "tk_cursor tk"] less [of "tk_last tk"] by (auto simp: covers_to_def)
    with tk show ?thesis unfolding tick_ok_def by auto
  qed
  ultimately show ?thesis by (simp add: tail_sys_inv_def)
qed

lemma inv_evict:
  assumes inv: "tail_sys_inv cat decodes writer s"
  shows "tail_sys_inv cat decodes writer (s\<lparr> sy_tail := evict_up_to writer n (sy_tail s) \<rparr>)"
proof -
  let ?files = "tail_of writer (sy_tail s)" and ?files' = "tail_of writer (evict_up_to writer n (sy_tail s))"
  let ?hw = "high_water_of writer (sy_tail s)" and ?hw' = "high_water_of writer (evict_up_to writer n (sy_tail s))"
  have i: "written_ok cat decodes s" "tail_files_ok cat (sy_written s) ?files" "covers_to (sy_present s) ?hw ?files (tail_cursor ?files)"
    "\<And>tk. sy_tick s = Some tk \<Longrightarrow> tick_ok (dom (sy_written s)) (sy_present s) ?hw ?files tk"
    using inv by (simp_all add: tail_sys_inv_def Let_def)
  have sub: "set ?files' \<subseteq> set ?files" by (auto simp: tail_of_evict)
  have sorted: "keys_sorted ?files" "keys_sorted ?files'"
    using i(2) keys_sorted_filter [of ?files "\<lambda>f. \<not> fst f \<le> n"] by (auto simp: tail_files_ok_def tail_of_evict)
  have hw: "?hw \<le> ?hw'" by (simp add: high_water_of_evict)
  have keep: "\<forall>m \<in> fst ` set ?files. ?hw' < m \<longrightarrow> m \<in> fst ` set ?files'"
    by (auto simp: tail_of_evict high_water_of_evict)
  have cur: "tail_cursor ?files' \<le> tail_cursor ?files"
  proof (cases "?files' = []")
    case False
    then show ?thesis using tail_cursor_mem [OF False] sub tail_cursor_ge [OF sorted(1)] by blast
  qed (simp add: tail_cursor_def)
  have "written_ok cat decodes (s\<lparr> sy_tail := evict_up_to writer n (sy_tail s) \<rparr>)" using i(1) by (simp add: written_ok_def)
  moreover have "tail_files_ok cat (sy_written s) ?files'" using i(2) sub sorted(2) by (auto simp: tail_files_ok_def)
  moreover have "covers_to (sy_present s) ?hw' ?files' (tail_cursor ?files')"
    by (rule covers_to_mono [OF i(3) order_refl hw cur keep])
  moreover have "tick_ok (dom (sy_written s)) (sy_present s) ?hw' ?files' tk" if "sy_tick s = Some tk" for tk
    by (rule tick_ok_mono [OF i(4) [OF that] order_refl order_refl hw keep])
  ultimately show ?thesis by (simp add: tail_sys_inv_def)
qed

lemma tail_of_put [simp]:
  "tail_of writer (tail\<lparr> tl_state := entry_upd writer [] (\<lambda>_. files) (tl_state tail) \<rparr>) = files"
  "high_water_of writer (tail\<lparr> tl_state := st \<rparr>) = high_water_of writer tail"
  by (simp_all add: tail_of_def high_water_of_def map_of_entry_upd)

lemma capped_files:
  assumes ok: "written_ok cat decodes s" "tail_files_ok cat (sy_written s) files" and fits: "window_fits writer s"
    and n: "sy_written s n = Some c" and st: "tail_file_shows cat c st"
  defines "files' \<equiv> drop_over_cap (tl_max_files_per_writer (sy_tail s)) (btree_upd n st (\<lambda>_. st) files)"
  shows "tail_files_ok cat (sy_written s) files'"
    and "\<forall>m \<in> insert n (fst ` set files). high_water_of writer (sy_tail s) < m \<longrightarrow> m \<in> fst ` set files'"
    and "tail_cursor files' \<le> max n (tail_cursor files)"
proof -
  let ?fs = "btree_upd n st (\<lambda>_. st) files"
  have sorted: "keys_sorted files" "keys_sorted ?fs" using ok(2) by (simp_all add: tail_files_ok_def keys_sorted_btree_upd)
  have sub: "set files' \<subseteq> set ?fs" unfolding files'_def drop_over_cap_drop by (rule set_drop_subset)
  have each: "\<exists>c. sy_written s (fst f) = Some c \<and> tail_file_shows cat c (snd f)" if "f \<in> set ?fs" for f
    using set_btree_upd [OF that] ok(2) n st by (auto simp: tail_files_ok_def)
  have "keys_sorted files'" unfolding files'_def drop_over_cap_drop by (rule keys_sorted_drop [OF sorted(2)])
  with sub each show "tail_files_ok cat (sy_written s) files'" by (auto simp: tail_files_ok_def)
  have "{k \<in> fst ` set ?fs. high_water_of writer (sy_tail s) < k} \<subseteq> window writer s"
    using each by (fastforce simp: window_def)
  moreover have "finite (window writer s)" using ok(1) by (simp add: window_def written_ok_def)
  ultimately show "\<forall>m \<in> insert n (fst ` set files). high_water_of writer (sy_tail s) < m \<longrightarrow> m \<in> fst ` set files'"
    using capped_keeps [OF sorted(2), of "high_water_of writer (sy_tail s)" "window writer s"] fits
    unfolding window_fits_def files'_def keys_btree_upd by blast
  show "tail_cursor files' \<le> max n (tail_cursor files)"
  proof (cases "files' = []")
    case False
    have "tail_cursor files' \<in> fst ` set ?fs" using tail_cursor_mem [OF False] sub by blast
    then have "tail_cursor files' = n \<or> tail_cursor files' \<in> fst ` set files" by (simp only: keys_btree_upd insert_iff)
    then show ?thesis using tail_cursor_ge [OF sorted(1), of "tail_cursor files'"] by (metis max.cobounded1 max.coboundedI2)
  qed (simp add: tail_cursor_def)
qed

lemma tick_ok_skip:
  assumes "tick_ok written present hw files tk" "tk_files tk = n # ns" "n \<le> tk_cursor tk \<or> n \<le> hw"
  shows "tick_ok written present hw files (tk\<lparr> tk_files := ns \<rparr>)"
  using assms by (auto simp: tick_ok_def covers_to_def)

lemma tick_ok_add:
  assumes tk: "tick_ok written present hw files tk" "tk_files tk = n # ns"
    and cov: "covers_to present hw files (tail_cursor files)"
    and keep: "\<forall>m \<in> insert n (fst ` set files). hw < m \<longrightarrow> m \<in> fst ` set files'"
    and cur: "tail_cursor files' \<le> max n (tail_cursor files)"
  shows "tick_ok written present hw files' (tk\<lparr> tk_files := ns \<rparr>)" and "covers_to present hw files' (tail_cursor files')"
proof -
  have old: "m \<in> fst ` set files" if "m \<in> present" "hw < m" "m \<notin> set (n # ns)" "m \<le> tk_last tk" for m
    using tk that by (auto simp: tick_ok_def covers_to_def)
  have "covers_to (present - set ns) hw files' (tk_last tk)"
    unfolding covers_to_def
  proof (intro ballI impI)
    fix m assume m: "m \<in> present - set ns" "hw < m" "m \<le> tk_last tk"
    then have "m \<in> insert n (fst ` set files)" using old [of m] by auto
    with keep m(2) show "m \<in> fst ` set files'" by blast
  qed
  moreover have "covers_to present hw files' (tk_cursor tk)"
  proof (rule covers_to_mono [OF _ order_refl order_refl order_refl])
    show "covers_to present hw files (tk_cursor tk)" using tk(1) by (simp add: tick_ok_def)
    show "\<forall>m \<in> fst ` set files. hw < m \<longrightarrow> m \<in> fst ` set files'" using keep by blast
  qed
  ultimately show "tick_ok written present hw files' (tk\<lparr> tk_files := ns \<rparr>)" using tk by (auto simp: tick_ok_def)
  show "covers_to present hw files' (tail_cursor files')"
    unfolding covers_to_def
  proof (intro ballI impI)
    fix m assume m: "m \<in> present" "hw < m" "m \<le> tail_cursor files'"
    show "m \<in> fst ` set files'"
    proof (cases "m \<le> tail_cursor files")
      case True
      then have "m \<in> fst ` set files" using cov m by (simp add: covers_to_def)
      with keep m(2) show ?thesis by blast
    next
      case False
      with m(3) cur have "m \<le> n" by simp
      moreover have "sorted_wrt (<) (n # ns)" "n \<le> tk_last tk" using tk by (auto simp: tick_ok_def)
      ultimately have "m = n \<or> m \<notin> set (n # ns) \<and> m \<le> tk_last tk" by auto
      with old [of m] m(1,2) have "m \<in> insert n (fst ` set files)" by blast
      with keep m(2) show ?thesis by blast
    qed
  qed
qed

lemma inv_take:
  assumes env: "path_api_ok (te_paths env)" "plain_seg writer"
      "\<forall>c. decodes c \<longrightarrow> verify_file_type_and_deserialize (te_crc env) (te_decode env) (bytes_of c) = Inr c"
    and inv: "tail_sys_inv cat decodes writer s" and fits: "window_fits writer s" and tk: "sy_tick s = Some tk" "tk_files tk = n # ns"
    and run: "tail_path env (get_present env writer bytes_of s) writer (tk_cursor tk) (tk_high_water tk) (wal_path (te_paths env) writer n) (sy_tail s)
            = Inr (Inr (k, tail'))"
  shows "tail_sys_inv cat decodes writer (s\<lparr> sy_tail := tail', sy_tick := Some (tk\<lparr> tk_files := ns \<rparr>) \<rparr>)"
proof -
  let ?files = "tail_of writer (sy_tail s)" and ?hw = "high_water_of writer (sy_tail s)"
  have i: "written_ok cat decodes s" "tail_files_ok cat (sy_written s) ?files" "covers_to (sy_present s) ?hw ?files (tail_cursor ?files)"
    "tick_ok (dom (sy_written s)) (sy_present s) ?hw ?files tk"
    using inv tk(1) by (simp_all add: tail_sys_inv_def Let_def)
  have "n \<in> dom (sy_written s)" using i(4) tk(2) by (auto simp: tick_ok_def)
  then obtain c where c: "sy_written s n = Some c" "wal_file_number c = n" "n \<le> u64_max" "list_all (node_op_ok cat) (wal_ops c)" "decodes c"
    using i(1) unfolding written_ok_def by blast
  then have ver: "verify_file_type_and_deserialize (te_crc env) (te_decode env) (bytes_of c) = Inr c" using env(3) by blast
  note parse = parse_wal_path [OF env(1,2) c(3)]
  have wok: "written_ok cat decodes (s\<lparr> sy_tail := tail', sy_tick := Some (tk\<lparr> tk_files := ns \<rparr>) \<rparr>)" using i(1) by (simp add: written_ok_def)
  show ?thesis
  proof (cases "n \<le> tk_cursor tk \<or> n \<le> tk_high_water tk")
    case True
    then have "tail' = sy_tail s" using run by (auto simp: tail_path_def parse split: if_splits)
    moreover have "n \<le> tk_cursor tk \<or> n \<le> ?hw" using True i(4) by (auto simp: tick_ok_def)
    ultimately show ?thesis using i wok tick_ok_skip [OF i(4) tk(2)] by (simp add: tail_sys_inv_def)
  next
    case False
    obtain st where st: "buffer_write_ops (wal_ops c) [] = Inr st" "tail_file_shows cat c st" using tail_add_file_shows [OF c(4)] by blast
    let ?files' = "drop_over_cap (tl_max_files_per_writer (sy_tail s)) (btree_upd n st (\<lambda>_. st) ?files)"
    have "tail' = (sy_tail s)\<lparr> tl_state := entry_upd writer [] (\<lambda>_. ?files') (tl_state (sy_tail s)) \<rparr>"
      using run False st(1) c(1,2) ver by (auto simp: tail_path_def parse get_present_def tail_add_file_def split: if_splits)
    then have t: "tail_of writer tail' = ?files'" "high_water_of writer tail' = ?hw" by simp_all
    note cap = capped_files [OF i(1,2) fits c(1) st(2)]
    from tick_ok_add [OF i(4) tk(2) i(3) cap(2,3)] cap(1) wok show ?thesis by (simp add: tail_sys_inv_def t)
  qed
qed

lemma inv_delete:
  assumes "tail_sys_inv cat decodes writer s"
  shows "tail_sys_inv cat decodes writer (s\<lparr> sy_present := sy_present s - gone \<rparr>)"
proof -
  let ?files = "tail_of writer (sy_tail s)" and ?hw = "high_water_of writer (sy_tail s)"
  have i: "written_ok cat decodes s" "tail_files_ok cat (sy_written s) ?files" "covers_to (sy_present s) ?hw ?files (tail_cursor ?files)"
    "\<And>tk. sy_tick s = Some tk \<Longrightarrow> tick_ok (dom (sy_written s)) (sy_present s) ?hw ?files tk"
    using assms by (simp_all add: tail_sys_inv_def Let_def)
  have "written_ok cat decodes (s\<lparr> sy_present := sy_present s - gone \<rparr>)" using i(1) by (auto simp: written_ok_def)
  moreover have "covers_to (sy_present s - gone) ?hw ?files (tail_cursor ?files)" using i(3) by (simp add: covers_to_def)
  moreover have "tick_ok (dom (sy_written s)) (sy_present s - gone) ?hw ?files tk" if "sy_tick s = Some tk" for tk
    using i(4) [OF that] by (simp add: tick_ok_def covers_to_def)
  ultimately show ?thesis using i(2) by (simp add: tail_sys_inv_def)
qed

lemma inv_start:
  assumes inv: "tail_sys_inv cat decodes writer s" and ns: "sorted_wrt (<) ns" "set ns = sy_present s"
  shows "tail_sys_inv cat decodes writer
      (s\<lparr> sy_tick := Some \<lparr> tk_cursor = tail_cursor (tail_of writer (sy_tail s)), tk_high_water = high_water_of writer (sy_tail s),
                           tk_files = ns, tk_last = (if ns = [] then 0 else last ns) \<rparr> \<rparr>)"
proof -
  let ?files = "tail_of writer (sy_tail s)" and ?hw = "high_water_of writer (sy_tail s)"
  have i: "written_ok cat decodes s" "tail_files_ok cat (sy_written s) ?files" "covers_to (sy_present s) ?hw ?files (tail_cursor ?files)"
    using inv by (simp_all add: tail_sys_inv_def Let_def)
  have "n \<le> last ns" if "n \<in> set ns" for n using increasing_le_last [OF ns(1) that] .
  moreover have "ns \<noteq> [] \<Longrightarrow> last ns \<in> dom (sy_written s)" "set ns \<subseteq> dom (sy_written s)"
    using i(1) ns(2) last_in_set [of ns] by (auto simp: written_ok_def)
  ultimately have "tick_ok (dom (sy_written s)) (sy_present s) ?hw ?files
      \<lparr> tk_cursor = tail_cursor ?files, tk_high_water = ?hw, tk_files = ns, tk_last = (if ns = [] then 0 else last ns) \<rparr>"
    using i(3) ns cursor_written [OF i(2)] unfolding tick_ok_def by (auto simp: covers_to_def)
  with i show ?thesis by (simp add: tail_sys_inv_def written_ok_def)
qed

lemma inv_step:
  fixes env bytes_of
  defines "decodes \<equiv> (\<lambda>c. verify_file_type_and_deserialize (te_crc env) (te_decode env) (bytes_of c) = Inr c)"
  assumes env: "path_api_ok (te_paths env)" "plain_seg writer"
    and "tail_sys_step cat env writer bytes_of s s'" and "window_fits writer s" and inv: "tail_sys_inv cat decodes writer s"
  shows "tail_sys_inv cat decodes writer s'"
  using assms(4,5) inv
proof (induction rule: tail_sys_step.induct)
  case (store c s)
  then show ?case by (intro inv_store) (auto simp: decodes_def)
next
  case (delete s gone)
  then show ?case by (intro inv_delete)
next
  case (evict s n)
  then show ?case by (intro inv_evict)
next
  case (start ns s)
  then show ?case by (intro inv_start)
next
  case (take s tk n ns k tail')
  show ?case by (rule inv_take [OF env _ take(5,4,1,2,3)]) (simp add: decodes_def)
next
  case (give_up s)
  then show ?case by (simp add: tail_sys_inv_def written_ok_def Let_def)
qed

definition tail_sys_new :: "string \<Rightarrow> nat \<Rightarrow> tail_sys" where
  "tail_sys_new writer max_files =
     \<lparr> sy_written = (\<lambda>_. None), sy_present = {}, sy_tail = wal_tail_new [writer] max_files, sy_tick = None \<rparr>"

lemma inv_new: "tail_sys_inv cat decodes writer (tail_sys_new writer max_files)"
  by (simp add: tail_sys_inv_def tail_sys_new_def wal_tail_new_def tail_of_def written_ok_def tail_files_ok_def covers_to_def keys_sorted_def)

definition capped_step ::
    "buffer_catalog \<Rightarrow> 'e tail_env \<Rightarrow> string \<Rightarrow> (wal_contents \<Rightarrow> byte list) \<Rightarrow> tail_sys \<Rightarrow> tail_sys \<Rightarrow> bool" where
  "capped_step cat env writer bytes_of s s' \<longleftrightarrow> window_fits writer s \<and> tail_sys_step cat env writer bytes_of s s'"

lemma inv_reach:
  fixes env bytes_of
  defines "decodes \<equiv> (\<lambda>c. verify_file_type_and_deserialize (te_crc env) (te_decode env) (bytes_of c) = Inr c)"
  assumes env: "path_api_ok (te_paths env)" "plain_seg writer"
    and "(capped_step cat env writer bytes_of)\<^sup>*\<^sup>* (tail_sys_new writer max_files) s"
  shows "tail_sys_inv cat decodes writer s"
  using assms(4)
proof (induction rule: rtranclp_induct)
  case base
  show ?case by (rule inv_new)
next
  case (step s s')
  then show ?case using inv_step [OF env] by (auto simp: capped_step_def decodes_def)
qed

text \<open>
  C9. The tail has no hole. Under any interleaving of writes, deletions, evictions and ticks, as long as
  the cap exceeds the files that are not persisted yet, every file of the tail shows exactly the rows of
  its WAL file; and every present file above the persisted high water is in the tail once it is below the
  tail's cursor, or was listed by a tick that has gone through its list.
\<close>

theorem tail_has_no_hole:
  assumes "path_api_ok (te_paths env)" and "plain_seg writer"
    and "(capped_step cat env writer bytes_of)\<^sup>*\<^sup>* (tail_sys_new writer max_files) s"
  shows "(\<forall>(n, st) \<in> set (tail_of writer (sy_tail s)). \<exists>c. sy_written s n = Some c \<and> tail_file_shows cat c st) \<and>
    (\<forall>m \<in> sy_present s. high_water_of writer (sy_tail s) < m \<longrightarrow>
       m \<le> tail_cursor (tail_of writer (sy_tail s)) \<or> (\<exists>tk. sy_tick s = Some tk \<and> tk_files tk = [] \<and> m \<le> tk_last tk) \<longrightarrow>
       m \<in> fst ` set (tail_of writer (sy_tail s)))"
proof -
  note inv_reach [OF assms]
  then have i: "tail_files_ok cat (sy_written s) (tail_of writer (sy_tail s))"
    "covers_to (sy_present s) (high_water_of writer (sy_tail s)) (tail_of writer (sy_tail s)) (tail_cursor (tail_of writer (sy_tail s)))"
    "\<And>tk. sy_tick s = Some tk \<Longrightarrow> tick_ok (dom (sy_written s)) (sy_present s) (high_water_of writer (sy_tail s)) (tail_of writer (sy_tail s)) tk"
    by (simp_all add: tail_sys_inv_def Let_def)
  have "m \<in> fst ` set (tail_of writer (sy_tail s))"
    if "m \<in> sy_present s" "high_water_of writer (sy_tail s) < m" "sy_tick s = Some tk" "tk_files tk = []" "m \<le> tk_last tk" for m tk
    using i(3) [OF that(3)] that by (simp add: tick_ok_def covers_to_def)
  with i(1,2) show ?thesis by (fastforce simp: tail_files_ok_def covers_to_def)
qed

definition demo_tail_env :: "unit tail_env" where
  "demo_tail_env = \<lparr> te_paths = plain_paths, te_crc = (\<lambda>_. 0),
     te_decode = (\<lambda>b. if b = [1] then Inr (demo_write [(0, [bare_row 5])]) else Inl ()) \<rparr>"

definition demo_wal_bytes :: "wal_contents \<Rightarrow> byte list" where
  "demo_wal_bytes c = FILE_TYPE_IDENTIFIER @ to_be_bytes (0 :: 32 word) @ [1]"

lemma demo_wal_decodes:
  "verify_file_type_and_deserialize (te_crc demo_tail_env) (te_decode demo_tail_env) (demo_wal_bytes c) = Inr (demo_write [(0, [bare_row 5])])"
  using wal_file_accepts_char [of "te_decode demo_tail_env" "[1]" "demo_write [(0, [bare_row 5])]" "te_crc demo_tail_env"]
  by (simp add: demo_tail_env_def demo_wal_bytes_def)

theorem tail_has_no_hole_witness:
  "\<exists>s. (capped_step demo_catalog demo_tail_env ''w'' demo_wal_bytes)\<^sup>*\<^sup>* (tail_sys_new ''w'' 2) s \<and>
     sy_present s = {7} \<and> 7 \<in> fst ` set (tail_of ''w'' (sy_tail s))"
proof -
  let ?c = "demo_write [(0, [bare_row 5])]" and ?s0 = "tail_sys_new ''w'' 2"
  let ?step = "capped_step demo_catalog demo_tail_env ''w'' demo_wal_bytes"
  have ok: "list_all (node_op_ok demo_catalog) (wal_ops ?c)"
    using demo_write_ok [of "[(0, [bare_row 5])]"] by (simp add: demo_env_def demo_row_simps)
  have num: "wal_file_number ?c = 7" by (simp add: demo_write_def)
  let ?s1 = "?s0\<lparr> sy_written := [7 \<mapsto> ?c], sy_present := {7} \<rparr>"
  have fits0: "window_fits ''w'' ?s0" by (simp add: window_fits_def window_def tail_sys_new_def wal_tail_new_def)
  have "tail_sys_step demo_catalog demo_tail_env ''w'' demo_wal_bytes ?s0 ?s1"
    using tail_sys_step.store [of ?c ?s0 demo_catalog demo_tail_env demo_wal_bytes "''w''"] ok demo_wal_decodes [of ?c] num
    by (simp add: tail_sys_new_def u64_max_def)
  then have a: "?step ?s0 ?s1" using fits0 by (simp add: capped_step_def)
  let ?tk = "\<lparr> tk_cursor = 0, tk_high_water = 0, tk_files = [7], tk_last = 7 \<rparr>"
  have fits1: "window_fits ''w'' ?s1" "window_fits ''w'' (?s1\<lparr> sy_tick := Some ?tk \<rparr>)"
    by (simp_all add: window_fits_def window_def tail_sys_new_def wal_tail_new_def high_water_of_def Collect_conv_if)
  have "tail_sys_step demo_catalog demo_tail_env ''w'' demo_wal_bytes ?s1 (?s1\<lparr> sy_tick := Some ?tk \<rparr>)"
    using tail_sys_step.start [of "[7]" ?s1 demo_catalog demo_tail_env "''w''" demo_wal_bytes]
    by (simp add: tail_sys_new_def wal_tail_new_def tail_of_def high_water_of_def tail_cursor_def)
  then have b: "?step ?s1 (?s1\<lparr> sy_tick := Some ?tk \<rparr>)" using fits1(1) by (simp add: capped_step_def)
  obtain st where st: "buffer_write_ops (wal_ops ?c) [] = Inr st" using tail_add_file_shows [OF ok] by blast
  let ?s2 = "?s1\<lparr> sy_tick := Some ?tk \<rparr>"
  have "plain_seg ''w''" by (simp add: plain_seg_def plain_char_def is_digit_def)
  then have parse: "parse_wal_seq plain_paths (wal_path plain_paths ''w'' 7) = Some 7"
    by (intro parse_wal_path plain_paths_ok) (simp_all add: u64_max_def)
  let ?tail' = "(sy_tail ?s2)\<lparr> tl_state := entry_upd ''w'' [] (\<lambda>_. [(7, st)]) (tl_state (sy_tail ?s2)) \<rparr>"
  have "tail_path demo_tail_env (get_present demo_tail_env ''w'' demo_wal_bytes ?s2) ''w'' 0 0 (wal_path plain_paths ''w'' 7) (sy_tail ?s2)
      = Inr (Inr (1, ?tail'))"
    using st parse demo_wal_decodes num
    by (simp add: tail_path_def get_present_def tail_add_file_def tail_sys_new_def wal_tail_new_def tail_of_def demo_tail_env_def)
  then have "tail_sys_step demo_catalog demo_tail_env ''w'' demo_wal_bytes ?s2 (?s2\<lparr> sy_tail := ?tail', sy_tick := Some (?tk\<lparr> tk_files := [] \<rparr>) \<rparr>)"
    by (intro tail_sys_step.take [of ?s2 ?tk 7 "[]"]) (simp_all add: demo_tail_env_def)
  then have c: "?step ?s2 (?s2\<lparr> sy_tail := ?tail', sy_tick := Some (?tk\<lparr> tk_files := [] \<rparr>) \<rparr>)" using fits1(2) by (simp add: capped_step_def)
  let ?s3 = "?s2\<lparr> sy_tail := ?tail', sy_tick := Some (?tk\<lparr> tk_files := [] \<rparr>) \<rparr>"
  have reach: "?step\<^sup>*\<^sup>* ?s0 ?s3" using a b c by (meson rtranclp.rtrancl_into_rtrancl rtranclp.rtrancl_refl)
  have "path_api_ok (te_paths demo_tail_env)" using plain_paths_ok by (simp add: demo_tail_env_def)
  from tail_has_no_hole [OF this \<open>plain_seg ''w''\<close> reach] have "7 \<in> fst ` set (tail_of ''w'' (sy_tail ?s3))"
    by (simp add: tail_sys_new_def wal_tail_new_def high_water_of_def)
  with reach show ?thesis by (intro exI [of _ ?s3]) simp
qed

text \<open>A tick that nobody interrupts is a sequence of these steps.\<close>

lemma tail_paths_steps:
  assumes "tail_paths env (get_present env writer bytes_of s) writer cur hw (map (wal_path (te_paths env) writer) ns) applied (sy_tail s) = Inr (Inr n, tail')"
  shows "(tail_sys_step cat env writer bytes_of)\<^sup>*\<^sup>*
    (s\<lparr> sy_tick := Some \<lparr> tk_cursor = cur, tk_high_water = hw, tk_files = ns, tk_last = l \<rparr> \<rparr>)
    (s\<lparr> sy_tail := tail', sy_tick := Some \<lparr> tk_cursor = cur, tk_high_water = hw, tk_files = [], tk_last = l \<rparr> \<rparr>)"
  using assms
proof (induction ns arbitrary: s applied)
  case (Cons m ns)
  let ?tk = "\<lambda>ns. \<lparr> tk_cursor = cur, tk_high_water = hw, tk_files = ns, tk_last = l \<rparr>"
  have get': "get_present env writer bytes_of (s\<lparr> sy_tick := t \<rparr>) = get_present env writer bytes_of s"
    "get_present env writer bytes_of (s\<lparr> sy_tail := u \<rparr>) = get_present env writer bytes_of s" for t u
    by (simp_all add: get_present_def fun_eq_iff split: option.split)
  from Cons.prems obtain r where r: "tail_path env (get_present env writer bytes_of s) writer cur hw (wal_path (te_paths env) writer m) (sy_tail s) = Inr r"
    "(case r of Inl e \<Rightarrow> Inr (Inl e, sy_tail s)
      | Inr (k, tail) \<Rightarrow> tail_paths env (get_present env writer bytes_of s) writer cur hw (map (wal_path (te_paths env) writer) ns) (applied + k) tail) = Inr (Inr n, tail')"
    by (auto simp: bind_res_eq_Inr)
  then obtain k tail1 where "r = Inr (k, tail1)" by (cases r) auto
  with r have one: "tail_path env (get_present env writer bytes_of s) writer cur hw (wal_path (te_paths env) writer m) (sy_tail s) = Inr (Inr (k, tail1))"
    and rest: "tail_paths env (get_present env writer bytes_of s) writer cur hw (map (wal_path (te_paths env) writer) ns) (applied + k) tail1 = Inr (Inr n, tail')"
    by simp_all
  have "tail_sys_step cat env writer bytes_of (s\<lparr> sy_tick := Some (?tk (m # ns)) \<rparr>)
      (s\<lparr> sy_tick := Some (?tk (m # ns)), sy_tail := tail1, sy_tick := Some ((?tk (m # ns))\<lparr> tk_files := ns \<rparr>) \<rparr>)"
    by (rule tail_sys_step.take [of _ "?tk (m # ns)" m ns]) (use one in \<open>simp_all add: get'\<close>)
  also have "s\<lparr> sy_tick := Some (?tk (m # ns)), sy_tail := tail1, sy_tick := Some ((?tk (m # ns))\<lparr> tk_files := ns \<rparr>) \<rparr> =
      (s\<lparr> sy_tail := tail1 \<rparr>)\<lparr> sy_tick := Some (?tk ns) \<rparr>" by simp
  finally have "tail_sys_step cat env writer bytes_of (s\<lparr> sy_tick := Some (?tk (m # ns)) \<rparr>) ((s\<lparr> sy_tail := tail1 \<rparr>)\<lparr> sy_tick := Some (?tk ns) \<rparr>)" .
  moreover have "(tail_sys_step cat env writer bytes_of)\<^sup>*\<^sup>* ((s\<lparr> sy_tail := tail1 \<rparr>)\<lparr> sy_tick := Some (?tk ns) \<rparr>)
      ((s\<lparr> sy_tail := tail1 \<rparr>)\<lparr> sy_tail := tail', sy_tick := Some (?tk []) \<rparr>)"
    by (rule Cons.IH) (use rest in \<open>simp add: get'\<close>)
  ultimately show ?case by (simp add: converse_rtranclp_into_rtranclp)
next
  case Nil
  then have "s\<lparr> sy_tail := tail', sy_tick := t \<rparr> = s\<lparr> sy_tick := t \<rparr>" for t by (cases s) simp
  then show ?case by simp
qed

text \<open>The cap keeps the newest files, whether their rows are persisted or not.\<close>

lemma cap_keeps_newest:
  assumes "tail_add_file n ops cap files = Inr files'"
  shows "\<exists>st. files' = drop (length (btree_upd n st (\<lambda>_. st) files) - cap) (btree_upd n st (\<lambda>_. st) files)"
  using assms by (auto simp: tail_add_file_def drop_over_cap_drop bind_res_eq_Inr)



end
