(* ===== verification/Leases.thy ===== *)
theory Leases
  imports Gen1_Duration Object_Store
begin

text \<open>
  influxdb3_write/src/leases.rs: singleton leases on an object store. Each operation is a program
  over the store, so that a whole operation can be one step (\<open>atomic_step\<close>) or every store call of
  it (\<open>call_step\<close>). The JSON codec of the lease document is an argument. Clocks are arguments too:
  each operation reads the wall clock once, in its caller.
\<close>

section \<open>The lease\<close>

record lease_doc =
  ld_owner :: string
  acquired_at_unix_ms :: int
  ld_expires_at_unix_ms :: int

record lease_config =
  lc_path :: string
  lc_owner :: string
  lc_ttl :: duration
  lc_refresh_interval :: duration

definition lease_config_new :: "string \<Rightarrow> string \<Rightarrow> duration \<Rightarrow> lease_config" where
  "lease_config_new path owner ttl =
     \<lparr> lc_path = path, lc_owner = owner, lc_ttl = ttl, lc_refresh_interval = ttl div 3 \<rparr>"

record lease_inner =
  held_version :: "update_version option"
  expires_at_unix_ms :: int

definition lease_inner_default :: lease_inner where
  "lease_inner_default = \<lparr> held_version = None, expires_at_unix_ms = 0 \<rparr>"

datatype 'e lease_error = LeaseObjectStore store_error | LeaseSerdeJson 'e

record 'e lease_json =
  doc_to_vec :: "lease_doc \<Rightarrow> 'e + bytes"
  doc_from_slice :: "bytes \<Rightarrow> 'e + lease_doc"

definition lease_json_ok :: "'e lease_json \<Rightarrow> bool" where
  "lease_json_ok js \<longleftrightarrow> (\<forall>d b. doc_to_vec js d = Inr b \<longrightarrow> doc_from_slice js b = Inr d)"

definition is_leader :: "lease_inner \<Rightarrow> int \<Rightarrow> bool" where
  "is_leader inner now \<longleftrightarrow> held_version inner \<noteq> None \<and> expires_at_unix_ms inner > now"

definition new_lease_doc :: "lease_config \<Rightarrow> int \<Rightarrow> lease_doc" where
  "new_lease_doc cfg now =
     \<lparr> ld_owner = lc_owner cfg, acquired_at_unix_ms = now,
       ld_expires_at_unix_ms = i64_wrap (now + i64_wrap (int (as_millis (lc_ttl cfg)))) \<rparr>"

definition record_acquired :: "update_version \<Rightarrow> int \<Rightarrow> lease_inner \<Rightarrow> lease_inner" where
  "record_acquired v expires inner = inner \<lparr> held_version := Some v, expires_at_unix_ms := expires \<rparr>"

type_synonym 'e lease_outcome = "('e lease_error + bool) \<times> lease_inner"

definition acquire_non_atomic ::
    "'e lease_json \<Rightarrow> lease_config \<Rightarrow> lease_doc \<Rightarrow> bytes \<Rightarrow> int \<Rightarrow> lease_inner \<Rightarrow> 'e lease_outcome prog" where
  "acquire_non_atomic js cfg new_doc payload now inner =
     (let put = Put (lc_path cfg) payload PutOverwrite (\<lambda>r.
            case r of
              Inl e \<Rightarrow> Done (Inl (LeaseObjectStore e), inner)
            | Inr v \<Rightarrow> Done (Inr True, record_acquired v (ld_expires_at_unix_ms new_doc) inner))
      in Get (lc_path cfg) (\<lambda>r.
           case r of
             Inr b \<Rightarrow>
               (case doc_from_slice js b of
                  Inl e \<Rightarrow> Done (Inl (LeaseSerdeJson e), inner)
                | Inr existing \<Rightarrow>
                    if ld_expires_at_unix_ms existing > now \<and> ld_owner existing \<noteq> lc_owner cfg
                    then Done (Inr False, inner) else put)
           | Inl NotFound \<Rightarrow> put
           | Inl e \<Rightarrow> Done (Inl (LeaseObjectStore e), inner)))"

text \<open>Taking over an expired lease: a \<open>head\<close> for the version, then a conditional put on it.\<close>

definition take_over ::
    "lease_config \<Rightarrow> lease_doc \<Rightarrow> bytes \<Rightarrow> lease_inner \<Rightarrow> 'e lease_outcome prog" where
  "take_over cfg new_doc payload inner =
     Head (lc_path cfg) (\<lambda>r.
       case r of
         Inl e \<Rightarrow> Done (Inl (LeaseObjectStore e), inner)
       | Inr version \<Rightarrow>
           Put (lc_path cfg) payload (PutUpdate version) (\<lambda>r.
             case r of
               Inr v \<Rightarrow> Done (Inr True, record_acquired v (ld_expires_at_unix_ms new_doc) inner)
             | Inl Precondition \<Rightarrow> Done (Inr False, inner)
             | Inl e \<Rightarrow> Done (Inl (LeaseObjectStore e), inner)))"

definition try_acquire ::
    "'e lease_json \<Rightarrow> lease_config \<Rightarrow> int \<Rightarrow> lease_inner \<Rightarrow> 'e lease_outcome prog" where
  "try_acquire js cfg now inner =
     (let new_doc = new_lease_doc cfg now in
      case doc_to_vec js new_doc of
        Inl e \<Rightarrow> Done (Inl (LeaseSerdeJson e), inner)
      | Inr payload \<Rightarrow>
          Put (lc_path cfg) payload PutCreate (\<lambda>r.
            case r of
              Inr v \<Rightarrow> Done (Inr True, record_acquired v (ld_expires_at_unix_ms new_doc) inner)
            | Inl AlreadyExists \<Rightarrow>
                Get (lc_path cfg) (\<lambda>r.
                  case r of
                    Inl e \<Rightarrow> Done (Inl (LeaseObjectStore e), inner)
                  | Inr b \<Rightarrow>
                      (case doc_from_slice js b of
                         Inl e \<Rightarrow> Done (Inl (LeaseSerdeJson e), inner)
                       | Inr existing \<Rightarrow>
                           if ld_expires_at_unix_ms existing > now then Done (Inr False, inner)
                           else take_over cfg new_doc payload inner))
            | Inl NotSupported \<Rightarrow> acquire_non_atomic js cfg new_doc payload now inner
            | Inl e \<Rightarrow> Done (Inl (LeaseObjectStore e), inner)))"

definition lease_refresh ::
    "'e lease_json \<Rightarrow> lease_config \<Rightarrow> int \<Rightarrow> lease_inner \<Rightarrow> 'e lease_outcome prog" where
  "lease_refresh js cfg now inner =
     (case held_version inner of
        None \<Rightarrow> Done (Inr False, inner)
      | Some version \<Rightarrow>
        (let new_doc = new_lease_doc cfg now in
         case doc_to_vec js new_doc of
           Inl e \<Rightarrow> Done (Inl (LeaseSerdeJson e), inner)
         | Inr payload \<Rightarrow>
             Put (lc_path cfg) payload (PutUpdate version) (\<lambda>r.
               case r of
                 Inr v \<Rightarrow> Done (Inr True, record_acquired v (ld_expires_at_unix_ms new_doc) inner)
               | Inl e \<Rightarrow>
                   if e = Precondition \<or> e = NotFound
                   then Done (Inr False, inner \<lparr> held_version := None \<rparr>)
                   else Done (Inl (LeaseObjectStore e), inner))))"

definition lease_release :: "lease_config \<Rightarrow> lease_inner \<Rightarrow> lease_inner prog" where
  "lease_release cfg inner =
     (case held_version inner of
        None \<Rightarrow> Done inner
      | Some version \<Rightarrow>
          Head (lc_path cfg) (\<lambda>r.
            case r of
              Inr h \<Rightarrow> if e_tag h \<noteq> e_tag version then Done inner
                        else Delete (lc_path cfg) (\<lambda>_. Done inner)
            | Inl _ \<Rightarrow> Delete (lc_path cfg) (\<lambda>_. Done inner)))"

text \<open>
  One turn of the background loop after its sleep: refresh when leading, otherwise try to acquire.
  The metrics it records are the operation and its result; the leader gauge is left alone on errors.
\<close>

record lease_metrics =
  lm_is_leader :: bool
  lm_operations :: "(string \<times> string) list"

definition lease_turn ::
    "'e lease_json \<Rightarrow> lease_config \<Rightarrow> int \<Rightarrow> lease_inner \<Rightarrow> lease_metrics \<Rightarrow>
     (lease_inner \<times> lease_metrics) prog" where
  "lease_turn js cfg now inner m =
     (let note = (\<lambda>opn res leader. m \<lparr> lm_is_leader := leader,
                    lm_operations := lm_operations m @ [(opn, res)] \<rparr>)
      in if is_leader inner now
         then bind_prog (lease_refresh js cfg now inner) (\<lambda>(outcome, inner).
           Done (inner, case outcome of
             Inr True \<Rightarrow> note ''renew'' ''ok'' True
           | Inr False \<Rightarrow> note ''renew'' ''lost'' False
           | Inl _ \<Rightarrow> note ''renew'' ''error'' (lm_is_leader m)))
         else bind_prog (try_acquire js cfg now inner) (\<lambda>(outcome, inner).
           Done (inner, case outcome of
             Inr True \<Rightarrow> note ''acquire'' ''ok'' True
           | Inr False \<Rightarrow> note ''acquire'' ''conflict'' False
           | Inl _ \<Rightarrow> note ''acquire'' ''error'' (lm_is_leader m))))"

definition lease_sleep :: "lease_config \<Rightarrow> bool \<Rightarrow> duration" where
  "lease_sleep cfg leader = (if leader then lc_refresh_interval cfg else lc_ttl cfg div 2)"

section \<open>Several processes\<close>

text \<open>
  Processes are numbered; process \<open>i\<close> runs with \<open>cfgs i\<close>. In the coarse system an operation is one
  step. In the fine system every store call is a step and the calls of different processes
  interleave. Time is what the processes' wall clocks show; they are taken to agree.
\<close>

record 's lease_sys =
  ls_store :: 's
  ls_inner :: "nat \<Rightarrow> lease_inner"
  ls_now :: int

inductive atomic_step ::
    "'s store_api \<Rightarrow> 'e lease_json \<Rightarrow> (nat \<Rightarrow> lease_config) \<Rightarrow> 's lease_sys \<Rightarrow> 's lease_sys \<Rightarrow> bool"
  for api js cfgs where
  acquire: "run_prog api (try_acquire js (cfgs i) (ls_now st) (ls_inner st i)) (ls_store st) = ((r, inner'), s') \<Longrightarrow>
    atomic_step api js cfgs st (st \<lparr> ls_store := s', ls_inner := (ls_inner st)(i := inner') \<rparr>)"
| refresh: "run_prog api (lease_refresh js (cfgs i) (ls_now st) (ls_inner st i)) (ls_store st) = ((r, inner'), s') \<Longrightarrow>
    atomic_step api js cfgs st (st \<lparr> ls_store := s', ls_inner := (ls_inner st)(i := inner') \<rparr>)"
| tick: "ls_now st \<le> now' \<Longrightarrow> atomic_step api js cfgs st (st \<lparr> ls_now := now' \<rparr>)"

inductive_cases atomic_stepE: "atomic_step api js cfgs st st'"

record ('s, 'e) lease_calls = "'s lease_sys" +
  ls_pending :: "nat \<Rightarrow> 'e lease_outcome prog option"

fun is_done :: "'a prog \<Rightarrow> bool" where
  "is_done (Done _) = True"
| "is_done _ = False"

inductive call_step ::
    "'s store_api \<Rightarrow> 'e lease_json \<Rightarrow> (nat \<Rightarrow> lease_config) \<Rightarrow> ('s, 'e) lease_calls \<Rightarrow> ('s, 'e) lease_calls \<Rightarrow> bool"
  for api js cfgs where
  begin_acquire: "ls_pending st i = None \<Longrightarrow> p = try_acquire js (cfgs i) (ls_now st) (ls_inner st i) \<Longrightarrow>
    call_step api js cfgs st (st \<lparr> ls_pending := (ls_pending st)(i \<mapsto> p) \<rparr>)"
| begin_refresh: "ls_pending st i = None \<Longrightarrow> p = lease_refresh js (cfgs i) (ls_now st) (ls_inner st i) \<Longrightarrow>
    call_step api js cfgs st (st \<lparr> ls_pending := (ls_pending st)(i \<mapsto> p) \<rparr>)"
| call: "ls_pending st i = Some p \<Longrightarrow> \<not> is_done p \<Longrightarrow> prog_call api p (ls_store st) = (p', s') \<Longrightarrow>
    call_step api js cfgs st (st \<lparr> ls_store := s', ls_pending := (ls_pending st)(i \<mapsto> p') \<rparr>)"
| finish: "ls_pending st i = Some (Done (r, inner')) \<Longrightarrow>
    call_step api js cfgs st
      (st \<lparr> ls_inner := (ls_inner st)(i := inner'), ls_pending := (ls_pending st)(i := None) \<rparr>)"
| pass: "ls_now st \<le> now' \<Longrightarrow> call_step api js cfgs st (st \<lparr> ls_now := now' \<rparr>)"

section \<open>Effect of one operation\<close>

definition lease_free :: "'e lease_json \<Rightarrow> objects \<Rightarrow> string \<Rightarrow> int \<Rightarrow> bool" where
  "lease_free js ob lp now \<longleftrightarrow>
     (case ob lp of
        None \<Rightarrow> True
      | Some (b, _) \<Rightarrow> (case doc_from_slice js b of
                        Inr d \<Rightarrow> ld_expires_at_unix_ms d \<le> now | Inl _ \<Rightarrow> False))"

text \<open>The store holds a new document of this process, under a version nobody has seen.\<close>

definition wrote ::
    "('s \<Rightarrow> objects) \<Rightarrow> ('s \<Rightarrow> update_version set) \<Rightarrow> 'e lease_json \<Rightarrow> lease_config \<Rightarrow> int \<Rightarrow> 's \<Rightarrow> 's \<Rightarrow>
     update_version \<Rightarrow> bool" where
  "wrote view used js cfg now s s' v \<longleftrightarrow>
     (\<exists>payload. doc_to_vec js (new_lease_doc cfg now) = Inr payload \<and> v \<notin> used s \<and>
        used s' = insert v (used s) \<and> view s' = (view s)(lc_path cfg \<mapsto> (payload, v)))"

definition unchanged :: "('s \<Rightarrow> objects) \<Rightarrow> ('s \<Rightarrow> update_version set) \<Rightarrow> 's \<Rightarrow> 's \<Rightarrow> bool" where
  "unchanged view used s s' \<longleftrightarrow> view s' = view s \<and> used s' = used s"

definition supports_create :: "'s store_api \<Rightarrow> bool" where
  "supports_create api \<longleftrightarrow> (\<forall>p b s. fst (api_put api p b PutCreate s) \<noteq> Inl NotSupported)"

lemma put_effect:
  assumes "store_ok api view used" "api_put api p b m s = (r, s')"
    "doc_to_vec js (new_lease_doc cfg now) = Inr b" "p = lc_path cfg"
  shows "case r of
      Inr v \<Rightarrow> mode_allows m (view s p) \<and> wrote view used js cfg now s s' v
    | Inl e \<Rightarrow> unchanged view used s s' \<or>
        \<not> object_error e \<and> mode_allows m (view s p) \<and> (\<exists>v. wrote view used js cfg now s s' v)"
  using store_put [OF assms(1,2)] assms(3,4)
  by (auto simp: put_law_def wrote_def unchanged_def split: sum.splits)

lemma take_over_effect:
  assumes ok: "store_ok api view used" and pl: "doc_to_vec js (new_lease_doc cfg now) = Inr payload"
    and run: "run_prog api (take_over cfg (new_lease_doc cfg now) payload inner) s = ((r, inner'), s')"
  shows "unchanged view used s s' \<and> inner' = inner \<or>
    view s (lc_path cfg) \<noteq> None \<and> (\<exists>v. wrote view used js cfg now s s' v \<and>
      (inner' = inner \<or> inner' = record_acquired v (ld_expires_at_unix_ms (new_lease_doc cfg now)) inner))"
proof (cases "api_head api (lc_path cfg) s")
  case (Inl e)
  with run show ?thesis by (auto simp: take_over_def unchanged_def)
next
  case (Inr v0)
  obtain r1 s1 where p: "api_put api (lc_path cfg) payload (PutUpdate v0) s = (r1, s1)" by fastforce
  show ?thesis
    using put_effect [OF ok p pl refl] run Inr p
    by (auto simp: take_over_def split: sum.splits store_error.splits)
qed

lemma try_acquire_effect:
  assumes ok: "store_ok api view used" and sc: "supports_create api"
    and run: "run_prog api (try_acquire js cfg now inner) s = ((r, inner'), s')"
  shows "unchanged view used s s' \<and> inner' = inner \<or>
    lease_free js (view s) (lc_path cfg) now \<and> (\<exists>v. wrote view used js cfg now s s' v \<and>
      (inner' = inner \<or> inner' = record_acquired v (ld_expires_at_unix_ms (new_lease_doc cfg now)) inner))"
proof (cases "doc_to_vec js (new_lease_doc cfg now)")
  case (Inl e)
  with run show ?thesis by (auto simp: try_acquire_def Let_def unchanged_def)
next
  case pl: (Inr payload)
  obtain r1 s1 where p: "api_put api (lc_path cfg) payload PutCreate s = (r1, s1)" by fastforce
  note eff = put_effect [OF ok p pl refl]
  show ?thesis
  proof (cases "r1 = Inl AlreadyExists")
    case False
    moreover have "r1 \<noteq> Inl NotSupported"
      using sc p unfolding supports_create_def by (metis fst_conv)
    ultimately show ?thesis
      using eff run p pl
      by (auto simp: try_acquire_def Let_def lease_free_def split: sum.splits store_error.splits)
  next
    case True
    with eff have u: "unchanged view used s s1" by (auto simp: object_error_def)
    show ?thesis
    proof (cases "api_get api (lc_path cfg) s1")
      case (Inl e)
      with run p pl True u show ?thesis by (auto simp: try_acquire_def Let_def)
    next
      case (Inr b)
      then obtain v where v: "view s1 (lc_path cfg) = Some (b, v)" using store_get [OF ok] by blast
      show ?thesis
      proof (cases "\<exists>d. doc_from_slice js b = Inr d \<and> ld_expires_at_unix_ms d \<le> now")
        case False
        with run p pl True u Inr show ?thesis
          by (auto simp: try_acquire_def Let_def split: sum.splits if_splits)
      next
        case d: True
        with run p pl True Inr
        have "run_prog api (take_over cfg (new_lease_doc cfg now) payload inner) s1 = ((r, inner'), s')"
          by (auto simp: try_acquire_def Let_def)
        from take_over_effect [OF ok pl this] u v d show ?thesis
          by (auto simp: unchanged_def wrote_def lease_free_def)
      qed
    qed
  qed
qed

lemma lease_refresh_effect:
  assumes ok: "store_ok api view used"
    and run: "run_prog api (lease_refresh js cfg now inner) s = ((r, inner'), s')"
  shows "unchanged view used s s' \<and> (inner' = inner \<or> inner' = inner \<lparr> held_version := None \<rparr>) \<or>
    (\<exists>b v0 v. view s (lc_path cfg) = Some (b, v0) \<and> held_version inner = Some v0 \<and>
      wrote view used js cfg now s s' v \<and>
      (inner' = inner \<or> inner' = record_acquired v (ld_expires_at_unix_ms (new_lease_doc cfg now)) inner))"
proof (cases "held_version inner")
  case None
  with run show ?thesis by (auto simp: lease_refresh_def unchanged_def)
next
  case (Some v0)
  show ?thesis
  proof (cases "doc_to_vec js (new_lease_doc cfg now)")
    case (Inl e)
    with run Some show ?thesis by (auto simp: lease_refresh_def Let_def unchanged_def)
  next
    case pl: (Inr payload)
    obtain r1 s1 where p: "api_put api (lc_path cfg) payload (PutUpdate v0) s = (r1, s1)" by fastforce
    show ?thesis
      using put_effect [OF ok p pl refl] run Some p pl
      by (auto simp: lease_refresh_def Let_def object_error_def split: sum.splits if_splits)
  qed
qed

section \<open>Mutual exclusion of atomic operations\<close>

definition ttl_ms :: "lease_config \<Rightarrow> int" where
  "ttl_ms cfg = int (as_millis (lc_ttl cfg))"

abbreviation leads :: "('s, 'z) lease_sys_scheme \<Rightarrow> nat \<Rightarrow> bool" where
  "leads st i \<equiv> is_leader (ls_inner st i) (ls_now st)"

definition lease_inv ::
    "('s \<Rightarrow> objects) \<Rightarrow> ('s \<Rightarrow> update_version set) \<Rightarrow> 'e lease_json \<Rightarrow> (nat \<Rightarrow> lease_config) \<Rightarrow> string \<Rightarrow>
     's lease_sys \<Rightarrow> bool" where
  "lease_inv view used js cfgs lp st \<longleftrightarrow>
     (\<forall>i v. held_version (ls_inner st i) = Some v \<longrightarrow> v \<in> used (ls_store st)) \<and>
     (\<forall>i. held_version (ls_inner st i) \<noteq> None \<longrightarrow>
        expires_at_unix_ms (ls_inner st i) \<le> ls_now st + ttl_ms (cfgs i)) \<and>
     (\<forall>i. leads st i \<longrightarrow> (\<exists>b v d. view (ls_store st) lp = Some (b, v) \<and> doc_from_slice js b = Inr d \<and>
        expires_at_unix_ms (ls_inner st i) \<le> ld_expires_at_unix_ms d)) \<and>
     (\<forall>i j. leads st i \<and> leads st j \<longrightarrow> i = j) \<and>
     (\<forall>i j b v. view (ls_store st) lp = Some (b, v) \<and> held_version (ls_inner st j) = Some v \<and>
        leads st i \<longrightarrow> i = j)"

lemma new_lease_doc_expires:
  "0 \<le> now \<Longrightarrow> now + ttl_ms cfg \<le> i64_max \<Longrightarrow> ld_expires_at_unix_ms (new_lease_doc cfg now) = now + ttl_ms cfg"
  by (simp add: new_lease_doc_def ttl_ms_def i64_wrap_exact i64_defs)

lemma lease_inv_write:
  assumes inv: "lease_inv view used js cfgs lp st" and js: "lease_json_ok js"
    and lp: "lc_path (cfgs i) = lp" and t: "0 \<le> ls_now st" "ls_now st + ttl_ms (cfgs i) \<le> i64_max"
    and idle: "\<And>j. leads st j \<Longrightarrow> j = i"
    and w: "wrote view used js (cfgs i) (ls_now st) (ls_store st) s' v"
    and inner: "inner' = ls_inner st i \<or> inner' = record_acquired v
      (ld_expires_at_unix_ms (new_lease_doc (cfgs i) (ls_now st))) (ls_inner st i)"
  shows "lease_inv view used js cfgs lp
    (st \<lparr> ls_store := s', ls_inner := (ls_inner st)(i := inner') \<rparr>)"
proof -
  let ?d = "new_lease_doc (cfgs i) (ls_now st)"
  have e: "ld_expires_at_unix_ms ?d = ls_now st + ttl_ms (cfgs i)" using t by (rule new_lease_doc_expires)
  from w obtain b where b: "doc_to_vec js ?d = Inr b" "v \<notin> used (ls_store st)"
    "used s' = insert v (used (ls_store st))" "view s' = (view (ls_store st))(lp \<mapsto> (b, v))"
    by (auto simp: wrote_def lp)
  have dec: "doc_from_slice js b = Inr ?d" using js b(1) by (simp add: lease_json_ok_def)
  have old: "held_version (ls_inner st j) = Some u \<Longrightarrow> u \<in> used (ls_store st)"
    "held_version (ls_inner st j) \<noteq> None \<Longrightarrow>
       expires_at_unix_ms (ls_inner st j) \<le> ls_now st + ttl_ms (cfgs j)" for j u
    using inv unfolding lease_inv_def by blast+
  show ?thesis
    unfolding lease_inv_def
    using inner old b(2) idle e
    by (auto simp: b(3,4) dec record_acquired_def is_leader_def split: if_splits)
qed

lemma lease_inv_quiet:
  assumes "lease_inv view used js cfgs lp st" "unchanged view used (ls_store st) s'"
    "inner' = ls_inner st i \<or> inner' = ls_inner st i \<lparr> held_version := None \<rparr>"
  shows "lease_inv view used js cfgs lp
    (st \<lparr> ls_store := s', ls_inner := (ls_inner st)(i := inner') \<rparr>)"
  using assms(3)
proof
  assume "inner' = ls_inner st i"
  then show ?thesis using assms(1,2) by (simp add: lease_inv_def unchanged_def)
next
  assume "inner' = ls_inner st i \<lparr> held_version := None \<rparr>"
  then show ?thesis
    using assms(1,2) unfolding lease_inv_def unchanged_def
    by (auto simp: is_leader_def split: if_splits)
qed

lemma lease_inv_tick:
  "lease_inv view used js cfgs lp st \<Longrightarrow> ls_now st \<le> now' \<Longrightarrow>
   lease_inv view used js cfgs lp (st \<lparr> ls_now := now' \<rparr>)"
proof -
  assume inv: "lease_inv view used js cfgs lp st" and le: "ls_now st \<le> now'"
  have "is_leader (ls_inner st i) now' \<Longrightarrow> leads st i" for i using le by (simp add: is_leader_def)
  moreover have "held_version (ls_inner st i) \<noteq> None \<Longrightarrow>
      expires_at_unix_ms (ls_inner st i) \<le> now' + ttl_ms (cfgs i)" for i
  proof -
    assume "held_version (ls_inner st i) \<noteq> None"
    then have "expires_at_unix_ms (ls_inner st i) \<le> ls_now st + ttl_ms (cfgs i)"
      using inv unfolding lease_inv_def by blast
    with le show ?thesis by simp
  qed
  ultimately show ?thesis using inv unfolding lease_inv_def by simp
qed

lemma atomic_step_inv:
  assumes ok: "store_ok api view used" and sc: "supports_create api" and js: "lease_json_ok js"
    and lp: "\<And>i. lc_path (cfgs i) = lp"
    and step: "atomic_step api js cfgs st st'" and inv: "lease_inv view used js cfgs lp st"
    and t: "0 \<le> ls_now st" "\<And>i. ls_now st + ttl_ms (cfgs i) \<le> i64_max"
  shows "lease_inv view used js cfgs lp st'"
proof -
  have idle: "\<not> leads st j" if "lease_free js (view (ls_store st)) lp (ls_now st)" for j
  proof
    assume "leads st j"
    then obtain b v d where "view (ls_store st) lp = Some (b, v)" "doc_from_slice js b = Inr d"
      "expires_at_unix_ms (ls_inner st j) \<le> ld_expires_at_unix_ms d"
      using inv unfolding lease_inv_def by blast
    with that \<open>leads st j\<close> show False by (simp add: lease_free_def is_leader_def)
  qed
  have own: "leads st j \<Longrightarrow> j = i"
    if "view (ls_store st) lp = Some (b, v)" "held_version (ls_inner st i) = Some v" for i j b v
    using inv that unfolding lease_inv_def by blast
  note quiet = lease_inv_quiet [OF inv] and wr = lease_inv_write [OF inv js lp t(1) t(2)]
  from step show ?thesis
  proof (cases rule: atomic_step.cases)
    case a: acquire
    show ?thesis
      using try_acquire_effect [OF ok sc a(2)] a(1) quiet wr idle by (auto simp: lp simp del: fun_upd_triv)
  next
    case r: refresh
    show ?thesis
      using lease_refresh_effect [OF ok r(2)] r(1) quiet wr own by (auto simp: lp simp del: fun_upd_triv)
  next
    case tick
    with lease_inv_tick [OF inv] show ?thesis by simp
  qed
qed

lemma atomic_reach_inv:
  assumes ok: "store_ok api view used" and sc: "supports_create api" and js: "lease_json_ok js"
    and lp: "\<And>i. lc_path (cfgs i) = lp"
    and reach: "(atomic_step api js cfgs)\<^sup>*\<^sup>* st st'" and init: "lease_inv view used js cfgs lp st" "0 \<le> ls_now st"
  shows "0 \<le> ls_now st' \<and> ((\<forall>i. ls_now st' + ttl_ms (cfgs i) \<le> i64_max) \<longrightarrow> lease_inv view used js cfgs lp st')"
  using reach
proof (induction rule: rtranclp_induct)
  case (step y z)
  have le: "ls_now y \<le> ls_now z" using step.hyps(2) by (cases rule: atomic_stepE) auto
  show ?case
  proof (intro conjI impI)
    show "0 \<le> ls_now z" using step.IH le by simp
    assume "\<forall>i. ls_now z + ttl_ms (cfgs i) \<le> i64_max"
    then have b: "ls_now y + ttl_ms (cfgs i) \<le> i64_max" for i using le by (meson add_right_mono order_trans)
    show "lease_inv view used js cfgs lp z"
      using step.IH b by (intro atomic_step_inv [OF ok sc js lp step.hyps(2)]) auto
  qed
qed (use init in simp)

section \<open>Versions are exclusive under every interleaving\<close>

text \<open>
  What an operation may still do: end with the lease state it started from, or without a version, or
  with the version a put of its own just returned.
\<close>

primrec lease_prog :: "lease_inner \<Rightarrow> 'e lease_outcome prog \<Rightarrow> bool" where
  "lease_prog inner (Done x) \<longleftrightarrow> held_version (snd x) \<in> {held_version inner, None}"
| "lease_prog inner (Put p b m k) \<longleftrightarrow> (\<forall>e. lease_prog inner (k (Inl e))) \<and>
     (\<forall>v. \<exists>r x. k (Inr v) = Done (r, x) \<and> held_version x = Some v)"
| "lease_prog inner (Get p k) \<longleftrightarrow> (\<forall>r. lease_prog inner (k r))"
| "lease_prog inner (Head p k) \<longleftrightarrow> (\<forall>r. lease_prog inner (k r))"
| "lease_prog inner (Delete p k) \<longleftrightarrow> (\<forall>r. lease_prog inner (k r))"
| "lease_prog inner (ListPrefix p k) \<longleftrightarrow> (\<forall>r. lease_prog inner (k r))"

lemma take_over_lease_prog: "lease_prog inner (take_over cfg d b inner)"
  by (auto simp: take_over_def record_acquired_def split: sum.split store_error.split)

lemma acquire_non_atomic_lease_prog: "lease_prog inner (acquire_non_atomic js cfg d b now inner)"
  by (auto simp: acquire_non_atomic_def record_acquired_def split: sum.split store_error.split)

lemma try_acquire_lease_prog: "lease_prog inner (try_acquire js cfg now inner)"
  by (auto simp: try_acquire_def Let_def record_acquired_def take_over_lease_prog
      acquire_non_atomic_lease_prog split: sum.split store_error.split)

lemma lease_refresh_lease_prog: "lease_prog inner (lease_refresh js cfg now inner)"
  by (auto simp: lease_refresh_def Let_def record_acquired_def split: sum.split option.split)

text \<open>The versions a process holds or is about to record.\<close>

definition pend_version :: "'e lease_outcome prog option \<Rightarrow> update_version set" where
  "pend_version p = (case p of Some (Done x) \<Rightarrow> set_option (held_version (snd x)) | _ \<Rightarrow> {})"

definition versions :: "('s, 'e) lease_calls \<Rightarrow> nat \<Rightarrow> update_version set" where
  "versions st i = set_option (held_version (ls_inner st i)) \<union> pend_version (ls_pending st i)"

definition versions_ok :: "('s \<Rightarrow> update_version set) \<Rightarrow> ('s, 'e) lease_calls \<Rightarrow> bool" where
  "versions_ok used st \<longleftrightarrow> (\<forall>i. versions st i \<subseteq> used (ls_store st)) \<and>
     (\<forall>i j. i \<noteq> j \<longrightarrow> versions st i \<inter> versions st j = {})"

definition progs_ok :: "('s, 'e) lease_calls \<Rightarrow> bool" where
  "progs_ok st \<longleftrightarrow> (\<forall>i p. ls_pending st i = Some p \<longrightarrow> lease_prog (ls_inner st i) p \<or> is_done p)"

lemma versions_ok_step:
  assumes "versions_ok used st" "used (ls_store st) \<subseteq> used (ls_store st')"
    and "\<And>j. j \<noteq> i \<Longrightarrow> versions st' j \<subseteq> versions st j" "versions st' i \<subseteq> versions st i \<union> new"
    and "new \<inter> used (ls_store st) = {}" "new \<subseteq> used (ls_store st')"
  shows "versions_ok used st'"
proof -
  have a: "versions st j \<subseteq> used (ls_store st)" for j using assms(1) by (simp add: versions_ok_def)
  have d: "versions st j \<inter> versions st k = {}" if "j \<noteq> k" for j k
    using assms(1) that by (simp add: versions_ok_def)
  have i: "versions st' i \<inter> versions st' k = {}" if "k \<noteq> i" for k
    using assms(3) [OF that] assms(4,5) a [of k] d [of i k] that by blast
  have "versions st' j \<subseteq> used (ls_store st')" for j
  proof (cases "j = i")
    case True
    then show ?thesis using assms(2,4,6) a [of i] by blast
  next
    case False
    then show ?thesis using assms(2) assms(3) [OF False] a [of j] by blast
  qed
  moreover have "versions st' j \<inter> versions st' k = {}" if "j \<noteq> k" for j k
  proof (cases "j = i \<or> k = i")
    case True
    then show ?thesis using i [of k] i [of j] that by (auto simp: Int_commute)
  next
    case False
    then show ?thesis using assms(3) [of j] assms(3) [of k] d [OF that] by blast
  qed
  ultimately show ?thesis by (simp add: versions_ok_def)
qed

lemma pend_version_lease_prog:
  "lease_prog inner p \<Longrightarrow> pend_version (Some p) \<subseteq> set_option (held_version inner)"
  by (cases p) (auto simp: pend_version_def)

lemma pend_version_not_done: "\<not> is_done p \<Longrightarrow> pend_version (Some p) = {}"
  by (cases p) (auto simp: pend_version_def)

lemma prog_call_versions:
  assumes "store_ok api view used" "lease_prog inner p" "prog_call api p s = (p', s')"
  shows "used s \<subseteq> used s' \<and> (lease_prog inner p' \<or>
    is_done p' \<and> pend_version (Some p') \<inter> used s = {} \<and> pend_version (Some p') \<subseteq> used s')"
proof (cases p)
  case (Put q b m k)
  obtain r1 s1 where c: "api_put api q b m s = (r1, s1)" by fastforce
  note law = store_put [OF assms(1) c]
  have e: "p' = k r1" "s' = s1" using assms(3) Put c by simp_all
  show ?thesis
  proof (cases r1)
    case (Inl x)
    then have "lease_prog inner p'" using assms(2) Put e by simp
    moreover have "used s \<subseteq> used s'" using law Inl e by (auto simp: put_law_def)
    ultimately show ?thesis by simp
  next
    case (Inr v)
    have "\<exists>r x. k (Inr v) = Done (r, x) \<and> held_version x = Some v" using assms(2) Put by simp
    then have "is_done p'" "pend_version (Some p') = {v}" using e Inr by (auto simp: pend_version_def)
    with law Inr e show ?thesis by (auto simp: put_law_def)
  qed
next
  case (Delete q k)
  obtain r1 s1 where c: "api_delete api q s = (r1, s1)" by fastforce
  have "p' = k r1" "s' = s1" using assms(3) Delete c by simp_all
  moreover have "used s \<subseteq> used s1"
    using store_delete [OF assms(1) c] by (cases r1) (auto simp: delete_law_def)
  ultimately show ?thesis using assms(2) Delete by simp
qed (use assms(2,3) in clarsimp)+

lemma progs_ok_upd:
  assumes "progs_ok st" "ls_pending st' = (ls_pending st)(i := q)"
    and "\<And>j. j \<noteq> i \<Longrightarrow> ls_inner st' j = ls_inner st j"
    and "\<And>p. q = Some p \<Longrightarrow> lease_prog (ls_inner st' i) p \<or> is_done p"
  shows "progs_ok st'"
  unfolding progs_ok_def
proof (intro allI impI)
  fix j p
  assume "ls_pending st' j = Some p"
  then show "lease_prog (ls_inner st' j) p \<or> is_done p"
    using assms by (cases "j = i") (simp_all add: progs_ok_def)
qed

lemma begin_inv:
  assumes inv: "versions_ok used st" "progs_ok st" and p: "lease_prog (ls_inner st i) p"
    and none: "ls_pending st i = None"
  shows "versions_ok used (st \<lparr> ls_pending := (ls_pending st)(i \<mapsto> p) \<rparr>) \<and>
    progs_ok (st \<lparr> ls_pending := (ls_pending st)(i \<mapsto> p) \<rparr>)" (is "versions_ok _ ?st \<and> _")
proof
  show "versions_ok used ?st"
  proof (rule versions_ok_step [OF inv(1), where i = i and new = "{}"])
    show "versions ?st i \<subseteq> versions st i \<union> {}"
      using pend_version_lease_prog [OF p] by (simp add: versions_def) blast
  qed (simp_all add: versions_def)
  show "progs_ok ?st" by (rule progs_ok_upd [OF inv(2), where i = i and q = "Some p"]) (simp_all add: p)
qed

lemma call_inv:
  assumes ok: "store_ok api view used" and inv: "versions_ok used st" "progs_ok st"
    and p: "ls_pending st i = Some p" "\<not> is_done p" "prog_call api p (ls_store st) = (p', s')"
  shows "versions_ok used (st \<lparr> ls_store := s', ls_pending := (ls_pending st)(i \<mapsto> p') \<rparr>) \<and>
    progs_ok (st \<lparr> ls_store := s', ls_pending := (ls_pending st)(i \<mapsto> p') \<rparr>)"
    (is "versions_ok _ ?st \<and> _")
proof
  have lp: "lease_prog (ls_inner st i) p" using inv(2) p(1,2) by (auto simp: progs_ok_def)
  note v = prog_call_versions [OF ok lp p(3)]
  let ?new = "if lease_prog (ls_inner st i) p' then {} else pend_version (Some p')"
  show "versions_ok used ?st"
  proof (rule versions_ok_step [OF inv(1), where i = i and new = ?new])
    show "versions ?st i \<subseteq> versions st i \<union> ?new"
      using pend_version_lease_prog [of "ls_inner st i" p'] by (auto simp: versions_def)
  qed (use v in \<open>auto simp: versions_def\<close>)
  show "progs_ok ?st"
    by (rule progs_ok_upd [OF inv(2), where i = i and q = "Some p'"]) (use v in auto)
qed

lemma finish_inv:
  assumes inv: "versions_ok used st" "progs_ok st" and p: "ls_pending st i = Some (Done (r, inner'))"
  shows "versions_ok used (st \<lparr> ls_inner := (ls_inner st)(i := inner'), ls_pending := (ls_pending st)(i := None) \<rparr>) \<and>
    progs_ok (st \<lparr> ls_inner := (ls_inner st)(i := inner'), ls_pending := (ls_pending st)(i := None) \<rparr>)"
    (is "versions_ok _ ?st \<and> _")
proof
  show "versions_ok used ?st"
  proof (rule versions_ok_step [OF inv(1), where i = i and new = "{}"])
    show "versions ?st i \<subseteq> versions st i \<union> {}" using p by (simp add: versions_def pend_version_def)
  qed (simp_all add: versions_def)
  show "progs_ok ?st"
    by (rule progs_ok_upd [OF inv(2), where i = i and q = None]) simp_all
qed

lemma call_step_inv:
  assumes ok: "store_ok api view used" and step: "call_step api js cfgs st st'"
    and inv: "versions_ok used st" "progs_ok st"
  shows "versions_ok used st' \<and> progs_ok st'"
  using step
proof (cases rule: call_step.cases)
  case b: (begin_acquire i p)
  show ?thesis unfolding b(1) by (rule begin_inv [OF inv _ b(2)]) (simp add: b(3) try_acquire_lease_prog)
next
  case b: (begin_refresh i p)
  show ?thesis unfolding b(1) by (rule begin_inv [OF inv _ b(2)]) (simp add: b(3) lease_refresh_lease_prog)
next
  case c: (call i p p' s')
  show ?thesis unfolding c(1) by (rule call_inv [OF ok inv c(2-4)])
next
  case f: (finish i r inner')
  show ?thesis unfolding f(1) by (rule finish_inv [OF inv f(2)])
next
  case p: (pass now')
  show ?thesis
    using inv unfolding p(1) by (simp add: versions_ok_def progs_ok_def versions_def)
qed

section \<open>Concrete runs\<close>

text \<open>A schedule of events of the fine system, executed one by one; None when a guard fails.\<close>

datatype lease_event = BeginAcquire nat | BeginRefresh nat | StoreCall nat | Finish nat | Pass int

fun do_event ::
    "'s store_api \<Rightarrow> 'e lease_json \<Rightarrow> (nat \<Rightarrow> lease_config) \<Rightarrow> lease_event \<Rightarrow> ('s, 'e) lease_calls \<Rightarrow>
     ('s, 'e) lease_calls option" where
  "do_event api js cfgs (BeginAcquire i) st =
     (if ls_pending st i = None
      then Some (st \<lparr> ls_pending := (ls_pending st)(i \<mapsto> try_acquire js (cfgs i) (ls_now st) (ls_inner st i)) \<rparr>)
      else None)"
| "do_event api js cfgs (BeginRefresh i) st =
     (if ls_pending st i = None
      then Some (st \<lparr> ls_pending := (ls_pending st)(i \<mapsto> lease_refresh js (cfgs i) (ls_now st) (ls_inner st i)) \<rparr>)
      else None)"
| "do_event api js cfgs (StoreCall i) st =
     (case ls_pending st i of
        None \<Rightarrow> None
      | Some p \<Rightarrow>
          if is_done p then None
          else let (p', s') = prog_call api p (ls_store st)
               in Some (st \<lparr> ls_store := s', ls_pending := (ls_pending st)(i \<mapsto> p') \<rparr>))"
| "do_event api js cfgs (Finish i) st =
     (case ls_pending st i of
        Some (Done (r, inner')) \<Rightarrow>
          Some (st \<lparr> ls_inner := (ls_inner st)(i := inner'), ls_pending := (ls_pending st)(i := None) \<rparr>)
      | _ \<Rightarrow> None)"
| "do_event api js cfgs (Pass now') st = (if ls_now st \<le> now' then Some (st \<lparr> ls_now := now' \<rparr>) else None)"

fun do_events ::
    "'s store_api \<Rightarrow> 'e lease_json \<Rightarrow> (nat \<Rightarrow> lease_config) \<Rightarrow> lease_event list \<Rightarrow> ('s, 'e) lease_calls \<Rightarrow>
     ('s, 'e) lease_calls option" where
  "do_events api js cfgs [] st = Some st"
| "do_events api js cfgs (ev # evs) st = Option.bind (do_event api js cfgs ev st) (do_events api js cfgs evs)"

lemma do_event_step: "do_event api js cfgs ev st = Some st' \<Longrightarrow> call_step api js cfgs st st'"
proof (cases ev)
  case (StoreCall i)
  assume "do_event api js cfgs ev st = Some st'"
  with StoreCall show ?thesis
    by (auto simp: Let_def intro: call_step.call split: option.splits if_splits prod.splits)
next
  case (Finish i)
  assume "do_event api js cfgs ev st = Some st'"
  with Finish show ?thesis
    by (auto intro: call_step.finish split: option.splits prog.splits)
qed (auto intro: call_step.intros split: if_splits)

lemma do_events_reach: "do_events api js cfgs evs st = Some st' \<Longrightarrow> (call_step api js cfgs)\<^sup>*\<^sup>* st st'"
proof (induction evs arbitrary: st)
  case (Cons ev evs)
  then obtain st1 where "do_event api js cfgs ev st = Some st1" "do_events api js cfgs evs st1 = Some st'"
    by (auto simp: bind_eq_Some_conv)
  with Cons.IH do_event_step show ?case by (meson converse_rtranclp_into_rtranclp)
qed simp

text \<open>A codec for documents with a one-letter owner and times of one byte; it refuses others.\<close>

definition byte_json :: "unit lease_json" where
  "byte_json =
     \<lparr> doc_to_vec = (\<lambda>d. case ld_owner d of
           [c] \<Rightarrow> if 0 \<le> acquired_at_unix_ms d \<and> acquired_at_unix_ms d < 256 \<and>
                    0 \<le> ld_expires_at_unix_ms d \<and> ld_expires_at_unix_ms d < 256
                  then Inr [of_nat (of_char c), of_int (acquired_at_unix_ms d), of_int (ld_expires_at_unix_ms d)]
                  else Inl ()
         | _ \<Rightarrow> Inl ()),
       doc_from_slice = (\<lambda>b. case b of
           [c, a, e] \<Rightarrow> Inr \<lparr> ld_owner = [char_of (unat c)], acquired_at_unix_ms = uint a,
                             ld_expires_at_unix_ms = uint e \<rparr>
         | _ \<Rightarrow> Inl ()) \<rparr>"

lemma uint_of_int_byte: "0 \<le> x \<Longrightarrow> x < 256 \<Longrightarrow> uint (of_int x :: 8 word) = x"
  by (simp add: uint_word_of_int take_bit_int_eq_self)

lemma byte_json_ok: "lease_json_ok byte_json"
proof -
  have "unat (of_nat (of_char c) :: 8 word) = of_char c" for c :: char
    by (simp add: unat_of_nat take_bit_nat_eq_self)
  then show ?thesis
    by (auto simp: lease_json_ok_def byte_json_def uint_of_int_byte split: list.splits if_splits)
qed

definition demo_cfg :: "nat \<Rightarrow> lease_config" where
  "demo_cfg i = lease_config_new ''lease'' [char_of (97 + i mod 26)] 10000000"

definition demo_start :: "(mem_store, unit) lease_calls" where
  "demo_start = \<lparr> ls_store = mem_empty, ls_inner = (\<lambda>_. lease_inner_default), ls_now = 1, ls_pending = (\<lambda>_. None) \<rparr>"

text \<open>Process 0 holds the lease and lets it expire; 1 and 2 then take it over at the same time.\<close>

definition race_schedule :: "lease_event list" where
  "race_schedule =
     [BeginAcquire 0, StoreCall 0, Finish 0, Pass 20,
      BeginAcquire 1, StoreCall 1, StoreCall 1, BeginAcquire 2, StoreCall 2, StoreCall 2,
      StoreCall 1, StoreCall 1, Finish 1, StoreCall 2, StoreCall 2, Finish 2]"

lemmas demo_simps = demo_start_def try_acquire_def take_over_def new_lease_doc_def demo_cfg_def
  lease_config_new_def i64_wrap_def as_millis_def byte_json_def mem_api_def mem_put_def mem_empty_def
  mem_fresh_def mem_delete_def mem_view_def record_acquired_def is_leader_def mem_version_inj
  lease_inner_default_def race_schedule_def Let_def

section \<open>Properties\<close>


lemma mem_supports_create: "supports_create mem_api"
  by (auto simp: supports_create_def mem_api_def mem_put_def split: option.splits if_splits)


text \<open>
  C17. Taking over an expired lease is not safe against a peer doing the same: there is a run of
  three processes over a conforming store in which two of them read the expired document, the
  first takes the lease over, and the second then fetches the version of the first one's fresh
  document and replaces it, so that both lead at the same time. The conditional put protects only
  against a change after the version was fetched, which is after the expiry was checked.
\<close>

theorem takeover_race_two_leaders:
  "\<exists>st. (call_step mem_api byte_json demo_cfg)\<^sup>*\<^sup>* demo_start st \<and>
     is_leader (ls_inner st 1) (ls_now st) \<and> is_leader (ls_inner st 2) (ls_now st)"
proof -
  have run: "case do_events mem_api byte_json demo_cfg race_schedule demo_start of
      None \<Rightarrow> False
    | Some st \<Rightarrow> is_leader (ls_inner st 1) (ls_now st) \<and> is_leader (ls_inner st 2) (ls_now st)"
    by (simp add: demo_simps)
  then obtain st where st: "do_events mem_api byte_json demo_cfg race_schedule demo_start = Some st"
    "is_leader (ls_inner st 1) (ls_now st) \<and> is_leader (ls_inner st 2) (ls_now st)"
    by (auto split: option.splits)
  with do_events_reach [OF st(1)] show ?thesis by blast
qed

text \<open>
  C18. A version belongs to one process under every interleaving of store calls: if a process holds
  the version the store currently has, no other process does, so no other refresh can be accepted.
\<close>

theorem refresh_is_exclusive:
  assumes "store_ok api view used"
    and "\<And>i. held_version (ls_inner st i) = None" "\<And>i. ls_pending st i = None"
    and "(call_step api js cfgs)\<^sup>*\<^sup>* st st'"
    and "held_version (ls_inner st' i) = Some v" "view (ls_store st') lp = Some (b, v)"
    and "held_version (ls_inner st' j) = Some u" "j \<noteq> i"
  shows "\<not> mode_allows (PutUpdate u) (view (ls_store st') lp)"
proof -
  have "versions_ok used st \<and> progs_ok st"
    using assms(2,3) by (simp add: versions_ok_def progs_ok_def versions_def pend_version_def)
  with assms(4) have "versions_ok used st' \<and> progs_ok st'"
    by (induction rule: rtranclp_induct) (auto dest: call_step_inv [OF assms(1)])
  then have "versions st' i \<inter> versions st' j = {}" using assms(8) by (simp add: versions_ok_def)
  with assms(5,7) have "u \<noteq> v" by (auto simp: versions_def)
  with assms(6) show ?thesis by simp
qed

theorem refresh_is_exclusive_witness:
  "\<exists>st v u. (call_step mem_api byte_json demo_cfg)\<^sup>*\<^sup>* demo_start st \<and>
     held_version (ls_inner st 2) = Some v \<and> held_version (ls_inner st 1) = Some u \<and>
     \<not> mode_allows (PutUpdate u) (mem_view (ls_store st) ''lease'')"
proof -
  have run: "case do_events mem_api byte_json demo_cfg race_schedule demo_start of
      None \<Rightarrow> False
    | Some st \<Rightarrow> held_version (ls_inner st 2) = Some (mem_version 2) \<and>
        held_version (ls_inner st 1) = Some (mem_version 1) \<and>
        map_option snd (mem_view (ls_store st) ''lease'') = Some (mem_version 2)"
    by (simp add: demo_simps)
  then obtain st where st: "do_events mem_api byte_json demo_cfg race_schedule demo_start = Some st"
    "held_version (ls_inner st 2) = Some (mem_version 2)" "held_version (ls_inner st 1) = Some (mem_version 1)"
    "map_option snd (mem_view (ls_store st) ''lease'') = Some (mem_version 2)"
    by (auto split: option.splits)
  from st(4) obtain b where b: "mem_view (ls_store st) ''lease'' = Some (b, mem_version 2)" by auto
  note reach = do_events_reach [OF st(1)]
  have "\<And>i. held_version (ls_inner demo_start i) = None" "\<And>i. ls_pending demo_start i = None"
    by (simp_all add: demo_start_def lease_inner_default_def)
  from refresh_is_exclusive [OF mem_api_ok this reach st(2) b st(3)]
  have "\<not> mode_allows (PutUpdate (mem_version 1)) (mem_view (ls_store st) ''lease'')" by simp
  with reach st(2,3) show ?thesis by blast
qed

text \<open>
  Releasing does not stop this process from leading: after a release that deleted the lease
  document, the process still reports to lead until its expiry, so a standby that acquires the free
  lease at once leads at the same time.
\<close>

theorem release_keeps_leading:
  assumes "store_ok api view used" "held_version inner = Some v" "now < expires_at_unix_ms inner"
    and "view s (lc_path cfg) = Some (b, v)"
    and "run_prog api (lease_release cfg inner) s = (inner', s')"
    and "api_head api (lc_path cfg) s = Inr v" "fst (api_delete api (lc_path cfg) s) = Inr ()"
  shows "view s' (lc_path cfg) = None \<and> is_leader inner' now"
proof -
  obtain s1 where d: "api_delete api (lc_path cfg) s = (Inr (), s1)"
    using assms(7) by (metis prod.collapse)
  from store_delete [OF assms(1) d] have "view s1 (lc_path cfg) = None" by (simp add: delete_law_def)
  with assms(2,3,5,6) d show ?thesis by (auto simp: lease_release_def is_leader_def)
qed

theorem release_keeps_leading_witness:
  "let r = run_prog mem_api (try_acquire byte_json (demo_cfg 0) 1 lease_inner_default) mem_empty;
       q = run_prog mem_api (lease_release (demo_cfg 0) (snd (fst r))) (snd r)
   in mem_view (snd q) ''lease'' = None \<and> is_leader (fst q) 1"
proof -
  define r where "r = run_prog mem_api (try_acquire byte_json (demo_cfg 0) 1 lease_inner_default) mem_empty"
  define q where "q = run_prog mem_api (lease_release (demo_cfg 0) (snd (fst r))) (snd r)"
  have p: "lc_path (demo_cfg 0) = ''lease''" by (simp add: demo_cfg_def lease_config_new_def)
  have h: "held_version (snd (fst r)) = Some (mem_version 0)" "1 < expires_at_unix_ms (snd (fst r))"
    "map_option snd (mem_view (snd r) ''lease'') = Some (mem_version 0)"
    "api_head mem_api ''lease'' (snd r) = Inr (mem_version 0)"
    "fst (api_delete mem_api ''lease'' (snd r)) = Inr ()"
    unfolding r_def by (simp_all add: demo_simps)
  from h(3) obtain b where b: "mem_view (snd r) ''lease'' = Some (b, mem_version 0)" by auto
  have "run_prog mem_api (lease_release (demo_cfg 0) (snd (fst r))) (snd r) = (fst q, snd q)"
    by (simp add: q_def)
  from release_keeps_leading [OF mem_api_ok h(1,2) _ this] b h(4,5)
  show ?thesis by (simp add: Let_def r_def [symmetric] q_def [symmetric] p)
qed

end
