(* ===== verification/Compaction.thy ===== *)
theory Compaction
  imports Inventory_Poller Queryable_Buffer Leases
begin

text \<open>
  The compaction service (influxdb3_write/src/compaction.rs): which files of a table are rewritten
  together, the per-table claims that keep two compactors apart, the publication of a compaction and
  the deletion of the files it replaces. What DataFusion makes of the inputs, the parquet writer and
  JSON are parameters; concurrent jobs of a cycle touch different tables and are modelled one by one.
\<close>

section \<open>Jobs\<close>

record convergence_config =
  cv_staleness_ttl :: duration

record compaction_config =
  cf_max_files_per_run :: nat
  cf_min_files_for_compaction :: nat
  cf_generation_durations :: "(nat \<times> duration) list"
  cf_keep_generations_trailing_window :: duration
  cf_cold_gc_enabled :: bool
  cf_cold_gc_max_deletes_per_run :: nat
  cf_consumer_convergence :: "convergence_config option"
  cf_checkpoint_every_n_cycles :: nat
  cf_claim_ttl :: duration

datatype compaction_error =
    InvalidGeneration nat string
  | UnparsableGeneration string
  | SortKeyEmpty
  | NoDurationFor nat
  | NoTimeColumn
  | TimeColumnType
  | NoRows
  | PlanFailed string
  | StoreFailed store_error
  | SerdeFailed string

definition get_file_generation :: "parquet_file \<Rightarrow> compaction_error + nat" where
  "get_file_generation file =
     (let path = pf_path file in
      case find_sub ''/gen'' path of
        None \<Rightarrow> Inr 1
      | Some gen_start \<Rightarrow>
          let gen_part = drop (gen_start + 4) path in
          (case find_sub ''/'' gen_part of
             None \<Rightarrow> Inr 1
           | Some gen_end \<Rightarrow>
               (case parse_uint 255 (take gen_end gen_part) of
                  Some level \<Rightarrow> if 1 \<le> level \<and> level \<le> 5 then Inr level else Inl (InvalidGeneration level path)
                | None \<Rightarrow> Inl (UnparsableGeneration path))))"

definition get_next_generation :: "nat \<Rightarrow> nat option" where
  "get_next_generation current_gen = (if current_gen < 5 then Some (current_gen + 1) else None)"

definition can_compact_to_generation :: "compaction_config \<Rightarrow> parquet_file list \<Rightarrow> duration \<Rightarrow> bool" where
  "can_compact_to_generation cfg files target_duration =
     (if length files < cf_min_files_for_compaction cfg then False
      else let min_time = (case map pf_min_time files of [] \<Rightarrow> 0 | t # ts \<Rightarrow> fold min ts t);
               max_time = (case map pf_max_time files of [] \<Rightarrow> 0 | t # ts \<Rightarrow> fold max ts t);
               span = nat (max (i64_wrap (max_time - min_time)) 0)
           in target_duration \<le> span)"

fun chunks_of :: "nat \<Rightarrow> 'a list \<Rightarrow> 'a list list" where
  "chunks_of n [] = []"
| "chunks_of n (x # xs) = (x # take (n - 1) xs) # chunks_of n (drop (n - 1) xs)"

definition chunk_files_for_jobs :: "parquet_file list \<Rightarrow> nat \<Rightarrow> parquet_file list list" where
  "chunk_files_for_jobs files max_files = chunks_of (max max_files 1) (sort_key pf_min_time files)"

record compaction_job =
  cj_database_id :: nat
  cj_database_name :: string
  cj_table_id :: nat
  cj_table_name :: string
  cj_source_generation :: nat
  cj_target_generation :: nat
  cj_files :: "parquet_file list"
  cj_sort_key :: "string list"

text \<open>What the service reads of the catalog.\<close>

record catalog_table =
  ct_table_id :: nat
  ct_table_name :: string
  ct_deleted :: bool
  ct_sort_key :: "string list"

record catalog_db =
  cd_id :: nat
  cd_name :: string
  cd_deleted :: bool
  cd_tables :: "catalog_table list"

definition group_by_generation ::
    "parquet_file list \<Rightarrow> compaction_error + (nat \<times> parquet_file list) list" where
  "group_by_generation files =
     fold_res (\<lambda>file m. bind_res (get_file_generation file) (\<lambda>generation.
        Inr (btree_upd generation [] (\<lambda>fs. fs @ [file]) m))) files []"

definition generation_jobs ::
    "compaction_config \<Rightarrow> catalog_db \<Rightarrow> catalog_table \<Rightarrow> nat \<times> parquet_file list \<Rightarrow> compaction_job list" where
  "generation_jobs cfg db table gf =
     (case gf of (current_gen, files) \<Rightarrow>
        if length files < cf_min_files_for_compaction cfg then []
        else case get_next_generation current_gen of
            None \<Rightarrow> []
          | Some next_gen \<Rightarrow>
              (case map_of (cf_generation_durations cfg) next_gen of
                 None \<Rightarrow> []
               | Some target_duration \<Rightarrow>
                   if can_compact_to_generation cfg files target_duration
                   then map (\<lambda>chunk.
                          \<lparr> cj_database_id = cd_id db, cj_database_name = cd_name db, cj_table_id = ct_table_id table,
                            cj_table_name = ct_table_name table, cj_source_generation = current_gen,
                            cj_target_generation = next_gen, cj_files = chunk, cj_sort_key = ct_sort_key table \<rparr>)
                          (chunk_files_for_jobs files (cf_max_files_per_run cfg))
                   else []))"

definition compaction_table_jobs ::
    "compaction_config \<Rightarrow> ledger \<Rightarrow> catalog_db \<Rightarrow> catalog_table \<Rightarrow> compaction_error + compaction_job list" where
  "compaction_table_jobs cfg lg db table =
     (if ct_deleted table then Inr []
      else let files = get_files (cd_id db) (ct_table_id table) lg in
        if length files < cf_min_files_for_compaction cfg then Inr []
        else bind_res (group_by_generation files) (\<lambda>by_gen. Inr (concat (map (generation_jobs cfg db table) by_gen))))"

definition identify_compaction_jobs ::
    "compaction_config \<Rightarrow> catalog_db list \<Rightarrow> ledger \<Rightarrow> compaction_error + compaction_job list" where
  "identify_compaction_jobs cfg dbs lg =
     map_sum id concat (res_map (\<lambda>db. if cd_deleted db then Inr []
        else map_sum id concat (res_map (compaction_table_jobs cfg lg db) (cd_tables db))) dbs)"

definition claim_path :: "path_api \<Rightarrow> compaction_job \<Rightarrow> string" where
  "claim_path pa job =
     path_from pa (''_compactor/claims/'' @ show_nat (cj_database_id job) @ ''-'' @ show_nat (cj_table_id job) @ ''-gen'' @
       show_nat (cj_source_generation job) @ ''-to-gen'' @ show_nat (cj_target_generation job) @ ''.claim'')"

definition claim_groups :: "path_api \<Rightarrow> compaction_job list \<Rightarrow> (string \<times> compaction_job list) list" where
  "claim_groups pa jobs = btree_group (claim_path pa) jobs"

section \<open>Executing a job\<close>

text \<open>The time range of the output, which is sorted by series and not by time.\<close>

definition batch_time_range ::
    "int \<times> int \<times> nat \<Rightarrow> record_batch \<Rightarrow> compaction_error + int \<times> int \<times> nat" where
  "batch_time_range acc batch =
     (case acc of (min_time, max_time, total_rows) \<Rightarrow>
        case map_of batch ''time'' of
          None \<Rightarrow> Inl NoTimeColumn
        | Some (BTime ts) \<Rightarrow>
            if ts = [] then Inr (min_time, max_time, total_rows)
            else let vs = List.map_filter id ts
                 in Inr (fold min vs min_time, fold max vs max_time, u64_add total_rows (num_rows batch))
        | Some _ \<Rightarrow> Inl TimeColumnType)"

definition batches_time_range_and_rows :: "record_batch list \<Rightarrow> compaction_error + int \<times> int \<times> nat" where
  "batches_time_range_and_rows batches =
     bind_res (fold_res (\<lambda>b acc. batch_time_range acc b) batches (i64_max, i64_min, 0)) (\<lambda>(min_time, max_time, total_rows).
       if total_rows = 0 then Inl NoRows else Inr (min_time, max_time, total_rows))"

definition chunk_time_for_duration :: "int \<Rightarrow> duration \<Rightarrow> int" where
  "chunk_time_for_duration min_time target_duration =
     (let nanos = i64_wrap (int target_duration)
      in if 0 < nanos then i64_wrap (min_time sdiv nanos * nanos) else min_time)"

definition compacted_file_path ::
    "path_api \<Rightarrow> (int \<Rightarrow> string) \<Rightarrow> string \<Rightarrow> compaction_job \<Rightarrow> nat \<Rightarrow> int \<Rightarrow> string \<Rightarrow> string" where
  "compacted_file_path pa date_string host job generation chunk_time compaction_id =
     path_from pa (host @ ''/dbs/'' @ cj_database_name job @ ''-'' @ show_nat (cj_database_id job) @ ''/'' @
       cj_table_name job @ ''-'' @ show_nat (cj_table_id job) @ ''/gen'' @ show_nat generation @ ''/'' @
       date_string chunk_time @ ''/'' @ compaction_id @ ''.parquet'')"

text \<open>
  \<open>ce_compact\<close> stands for the plan DataFusion runs over the inputs, \<open>ce_encode\<close> for the parquet
  writer, \<open>ce_date_string\<close> for chrono's format. The identifiers a job draws are arguments.
\<close>

record 'e compaction_env =
  ce_config :: compaction_config
  ce_paths :: path_api
  ce_date_string :: "int \<Rightarrow> string"
  ce_host :: string
  ce_json :: "'e inventory_json"
  ce_compact :: "compaction_job \<Rightarrow> string + record_batch list"
  ce_encode :: "record_batch list \<Rightarrow> string + bytes"
  ce_catalog_sequence_number :: nat

definition write_compacted_file ::
    "'e compaction_env \<Rightarrow> compaction_job \<Rightarrow> record_batch list \<Rightarrow> string \<Rightarrow> nat \<Rightarrow> (compaction_error + parquet_file option) prog" where
  "write_compacted_file env job data compaction_id file_id =
     (let non_empty = filter (\<lambda>b. 0 < num_rows b) data in
      if non_empty = [] then Done (Inr None)
      else case batches_time_range_and_rows non_empty of
          Inl e \<Rightarrow> Done (Inl e)
        | Inr (min_time, max_time, rows) \<Rightarrow>
            (case map_of (cf_generation_durations (ce_config env)) (cj_target_generation job) of
               None \<Rightarrow> Done (Inl (NoDurationFor (cj_target_generation job)))
             | Some target_duration \<Rightarrow>
                 let chunk_time = chunk_time_for_duration min_time target_duration;
                     path = compacted_file_path (ce_paths env) (ce_date_string env) (ce_host env) job (cj_target_generation job) chunk_time compaction_id
                 in (case ce_encode env non_empty of
                       Inl e \<Rightarrow> Done (Inl (PlanFailed e))
                     | Inr b \<Rightarrow> Put path b PutOverwrite (\<lambda>r. Done (case r of
                         Inl e \<Rightarrow> Inl (StoreFailed e)
                       | Inr _ \<Rightarrow> Inr (Some
                           \<lparr> pf_id = file_id, pf_path = path, pf_size_bytes = length b, pf_row_count = rows,
                             pf_chunk_time = chunk_time, pf_min_time = min_time, pf_max_time = max_time \<rparr>))))))"

definition compaction_manifest ::
    "'e compaction_env \<Rightarrow> nat \<Rightarrow> compaction_job \<Rightarrow> parquet_file list \<Rightarrow> parquet_file list \<Rightarrow> persisted_snapshot" where
  "compaction_manifest env next_id job new_files old_files =
     (foldl (\<lambda>s f. add_parquet_file next_id (cj_database_id job) (cj_table_id job) f s)
        (persisted_snapshot_new next_id (ce_host env) 0 0 (ce_catalog_sequence_number env)) new_files)
       \<lparr> ps_removed_files := [(cj_database_id job, [(cj_table_id job, old_files)])] \<rparr>"

definition persist_compaction_snapshot ::
    "'e compaction_env \<Rightarrow> string \<Rightarrow> persisted_snapshot \<Rightarrow> (compaction_error + unit) prog" where
  "persist_compaction_snapshot env compaction_id snapshot =
     (case write_snapshot (ce_json env) snapshot of
        Inl _ \<Rightarrow> Done (Inl (SerdeFailed compaction_id))
      | Inr b \<Rightarrow> Put (compaction_info_file_path (ce_paths env) (ce_host env) compaction_id) b PutOverwrite
          (\<lambda>r. Done (case r of Inl e \<Rightarrow> Inl (StoreFailed e) | Inr _ \<Rightarrow> Inr ())))"

text \<open>The local ledger takes the new files and drops the old ones once the manifest is stored.\<close>

definition apply_compaction :: "compaction_job \<Rightarrow> parquet_file list \<Rightarrow> parquet_file list \<Rightarrow> ledger \<Rightarrow> ledger" where
  "apply_compaction job new_files old_files lg =
     remove_persisted_files (cj_database_id job) (cj_table_id job) old_files
       (foldl (\<lambda>lg f. add_persisted_file (cj_database_id job) (cj_table_id job) f lg) lg new_files)"

definition publish_job ::
    "'e compaction_env \<Rightarrow> bool \<Rightarrow> nat \<Rightarrow> compaction_job \<Rightarrow> parquet_file list \<Rightarrow> parquet_file list \<Rightarrow> string \<Rightarrow> ledger \<Rightarrow>
     ((compaction_error + unit) \<times> ledger) prog" where
  "publish_job env has_inventory next_id job new_files old_files compaction_id lg =
     (let snapshot = compaction_manifest env next_id job new_files old_files in
      bind_prog (persist_compaction_snapshot env compaction_id snapshot) (\<lambda>r. case r of
         Inl e \<Rightarrow> Done (Inl e, lg)
       | Inr _ \<Rightarrow>
           bind_prog (if has_inventory then publish_compaction (ce_json env) (ce_paths env) compaction_id snapshot else Done (Inr ()))
             (\<lambda>_. Done (Inr (), apply_compaction job new_files old_files lg))))"

definition execute_compaction_job ::
    "'e compaction_env \<Rightarrow> bool \<Rightarrow> nat \<Rightarrow> nat \<Rightarrow> string \<Rightarrow> compaction_job \<Rightarrow> ledger \<Rightarrow>
     ((compaction_error + parquet_file list) \<times> ledger) prog" where
  "execute_compaction_job env has_inventory file_id next_id compaction_id job lg =
     (if cj_sort_key job = [] then Done (Inl SortKeyEmpty, lg)
      else case ce_compact env job of
          Inl e \<Rightarrow> Done (Inl (PlanFailed e), lg)
        | Inr data \<Rightarrow>
            bind_prog (write_compacted_file env job data compaction_id file_id) (\<lambda>r. case r of
               Inl e \<Rightarrow> Done (Inl e, lg)
             | Inr None \<Rightarrow> Done (Inr [], lg)
             | Inr (Some file) \<Rightarrow>
                 bind_prog (publish_job env has_inventory next_id job [file] (cj_files job) compaction_id lg) (\<lambda>(r, lg).
                   Done (case r of Inl e \<Rightarrow> Inl e | Inr _ \<Rightarrow> Inr [file], lg))))"

section \<open>Deleting what was replaced\<close>

definition defer_deletion_to_cold_gc :: "bool \<Rightarrow> duration \<Rightarrow> bool" where
  "defer_deletion_to_cold_gc cold_gc_enabled keep_window \<longleftrightarrow> cold_gc_enabled \<and> keep_window \<noteq> 0"

text \<open>
  The gate is asked at a sequence of times, each with the answer to whether the longest wait is over;
  \<open>None\<close> says that the task is still waiting after them.
\<close>

fun convergence_gate ::
    "'e inventory_json \<Rightarrow> path_api \<Rightarrow> string \<Rightarrow> int \<Rightarrow> (int \<times> bool) list \<Rightarrow> bool option prog" where
  "convergence_gate js pa compaction_id stale_ms [] = Done None"
| "convergence_gate js pa compaction_id stale_ms ((now_ms, waited_max) # polls) =
     bind_prog (all_live_consumers_folded js pa compaction_id now_ms stale_ms) (\<lambda>r.
       if r = Inr True then Done (Some True)
       else if waited_max then Done (Some False)
       else convergence_gate js pa compaction_id stale_ms polls)"

fun delete_attempts :: "string \<Rightarrow> nat \<Rightarrow> bool prog" where
  "delete_attempts path 0 = Done False"
| "delete_attempts path (Suc left) =
     Delete path (\<lambda>r. case r of
        Inr _ \<Rightarrow> Done True
      | Inl NotFound \<Rightarrow> Done True
      | Inl _ \<Rightarrow> delete_attempts path left)"

primrec delete_paths :: "string list \<Rightarrow> bool list prog" where
  "delete_paths [] = Done []"
| "delete_paths (path # paths) =
     bind_prog (delete_attempts path 6) (\<lambda>deleted. bind_prog (delete_paths paths) (\<lambda>rest. Done (deleted # rest)))"

definition delete_superseded ::
    "'e compaction_env \<Rightarrow> bool \<Rightarrow> string \<Rightarrow> (int \<times> bool) list \<Rightarrow> parquet_file list \<Rightarrow> bool list option prog" where
  "delete_superseded env has_inventory compaction_id polls old_files =
     (let cfg = ce_config env; old_paths = map (\<lambda>f. path_from (ce_paths env) (pf_path f)) old_files in
      if defer_deletion_to_cold_gc (cf_cold_gc_enabled cfg) (cf_keep_generations_trailing_window cfg) then Done None
      else bind_prog
        (case cf_consumer_convergence cfg of
           Some cv \<Rightarrow> if has_inventory
             then convergence_gate (ce_json env) (ce_paths env) compaction_id (i64_wrap (int (as_millis (cv_staleness_ttl cv)))) polls
             else Done (Some True)
         | None \<Rightarrow> Done (Some True))
        (\<lambda>passed. if passed = Some True then bind_prog (delete_paths old_paths) (\<lambda>ds. Done (Some ds)) else Done None))"

section \<open>Claims\<close>

record 'e claim_json =
  write_claim :: "int \<Rightarrow> bytes"
  read_claim :: "bytes \<Rightarrow> 'e + int"

datatype 'e claim_error = ClaimStore store_error | ClaimParse 'e

text \<open>
  A claim is created, or taken over when it is older than the time to live. The second attempt is for
  a claim that vanishes between the two calls.
\<close>

fun claim_attempts :: "'e claim_json \<Rightarrow> duration \<Rightarrow> int \<Rightarrow> string \<Rightarrow> nat \<Rightarrow> ('e claim_error + bool) prog" where
  "claim_attempts js claim_ttl now_ms path 0 = Done (Inr False)"
| "claim_attempts js claim_ttl now_ms path (Suc attempts) =
     Put path (write_claim js now_ms) PutCreate (\<lambda>r. case r of
        Inr _ \<Rightarrow> Done (Inr True)
      | Inl AlreadyExists \<Rightarrow>
          Get path (\<lambda>r. case r of
             Inr b \<Rightarrow>
               (case read_claim js b of
                  Inl e \<Rightarrow> Done (Inl (ClaimParse e))
                | Inr acquired_at_ms \<Rightarrow>
                    if nat (max (i64_wrap (now_ms - acquired_at_ms)) 0) < as_millis claim_ttl then Done (Inr False)
                    else Put path (write_claim js now_ms) PutOverwrite (\<lambda>r. Done (case r of
                           Inl e \<Rightarrow> Inl (ClaimStore e) | Inr _ \<Rightarrow> Inr True)))
           | Inl NotFound \<Rightarrow> claim_attempts js claim_ttl now_ms path attempts
           | Inl e \<Rightarrow> Done (Inl (ClaimStore e)))
      | Inl NotSupported \<Rightarrow>
          Put path (write_claim js now_ms) PutOverwrite (\<lambda>r. Done (case r of
             Inl e \<Rightarrow> Inl (ClaimStore e) | Inr _ \<Rightarrow> Inr True))
      | Inl e \<Rightarrow> Done (Inl (ClaimStore e)))"

definition acquire_claim :: "'e claim_json \<Rightarrow> duration \<Rightarrow> int \<Rightarrow> string \<Rightarrow> ('e claim_error + bool) prog" where
  "acquire_claim js claim_ttl now_ms path = claim_attempts js claim_ttl now_ms path 2"

definition release_claim :: "string \<Rightarrow> unit prog" where
  "release_claim path = Delete path (\<lambda>_. Done ())"

text \<open>
  The jobs of one claim run one after the other and the claim is given back at the end. The time and
  the identifiers each job draws are arguments.
\<close>

primrec execute_jobs ::
    "'e compaction_env \<Rightarrow> bool \<Rightarrow> (compaction_job \<times> nat \<times> nat \<times> string) list \<Rightarrow> nat \<Rightarrow> ledger \<Rightarrow> (nat \<times> ledger) prog" where
  "execute_jobs env has_inventory [] completed lg = Done (completed, lg)"
| "execute_jobs env has_inventory (j # jobs) completed lg =
     (case j of (job, file_id, next_id, compaction_id) \<Rightarrow>
        bind_prog (execute_compaction_job env has_inventory file_id next_id compaction_id job lg) (\<lambda>(r, lg).
          execute_jobs env has_inventory jobs (case r of Inl _ \<Rightarrow> completed | Inr _ \<Rightarrow> completed + 1) lg))"

definition execute_claim_group ::
    "'e compaction_env \<Rightarrow> 'c claim_json \<Rightarrow> int \<Rightarrow> bool \<Rightarrow> string \<Rightarrow> (compaction_job \<times> nat \<times> nat \<times> string) list \<Rightarrow> ledger \<Rightarrow>
     (nat \<times> ledger) prog" where
  "execute_claim_group env cjs now_ms has_inventory path jobs lg =
     bind_prog (acquire_claim cjs (cf_claim_ttl (ce_config env)) now_ms path) (\<lambda>r.
       if r = Inr True
       then bind_prog (execute_jobs env has_inventory jobs 0 lg) (\<lambda>out. bind_prog (release_claim path) (\<lambda>_. Done out))
       else Done (0, lg))"

section \<open>Jobs cover the files\<close>

lemma chunks_of_concat: "0 < n \<Longrightarrow> concat (chunks_of n xs) = xs"
  by (induction n xs rule: chunks_of.induct) (simp_all add: append_take_drop_id)

lemma chunks_of_sizes: "0 < n \<Longrightarrow> c \<in> set (chunks_of n xs) \<Longrightarrow> c \<noteq> [] \<and> length c \<le> n"
  by (induction n xs rule: chunks_of.induct) auto

lemma chunk_files_concat: "concat (chunk_files_for_jobs files k) = sort_key pf_min_time files"
  by (simp add: chunk_files_for_jobs_def chunks_of_concat)

definition generation :: "parquet_file \<Rightarrow> nat" where
  "generation f = projr (get_file_generation f)"

lemma group_by_generation_ok:
  assumes "list_all (\<lambda>f. \<exists>g. get_file_generation f = Inr g) files"
  shows "group_by_generation files = Inr (btree_group generation files)"
proof -
  have "fold_res (\<lambda>file m. bind_res (get_file_generation file) (\<lambda>generation.
        Inr (btree_upd generation [] (\<lambda>fs. fs @ [file]) m))) files m =
      Inr (foldl (\<lambda>m f. btree_upd (generation f) [] (\<lambda>fs. fs @ [f]) m) m files)" for m
    using assms by (induction files arbitrary: m) (auto simp: generation_def)
  then show ?thesis by (simp add: group_by_generation_def btree_group_def)
qed

lemma group_by_generation_error:
  assumes "f \<in> set files" "get_file_generation f = Inl e"
  shows "\<exists>e'. group_by_generation files = Inl e'"
proof -
  have "\<exists>e'. fold_res (\<lambda>file m. bind_res (get_file_generation file) (\<lambda>generation.
        Inr (btree_upd generation [] (\<lambda>fs. fs @ [file]) m))) files m = Inl e'" for m
    using assms
  proof (induction files arbitrary: m)
    case (Cons x files)
    then show ?case by (cases "get_file_generation x") auto
  qed simp
  then show ?thesis by (simp add: group_by_generation_def)
qed

lemma filter_concat_key:
  assumes "distinct (map kx xs)" "x \<in> set xs" "\<forall>y \<in> set xs. \<forall>j \<in> set (F y). kj j = kx y"
  shows "filter (\<lambda>j. kj j = kx x) (concat (map F xs)) = F x"
  using assms
proof (induction xs)
  case (Cons y xs)
  show ?case
  proof (cases "x = y")
    case True
    have "kj j \<noteq> kx x" if "z \<in> set xs" "j \<in> set (F z)" for z j
    proof -
      have "kj j = kx z" using Cons.prems(3) that by simp
      moreover have "kx z \<noteq> kx y" using Cons.prems(1) that(1) by (metis distinct.simps(2) image_eqI list.map(2) list.set_map)
      ultimately show ?thesis using True by simp
    qed
    then have "filter (\<lambda>j. kj j = kx x) (concat (map F xs)) = []" by (auto simp: filter_empty_conv)
    with Cons.prems(3) True show ?thesis by simp
  next
    case False
    with Cons.prems have x: "x \<in> set xs" by simp
    have "kx x \<noteq> kx y" using Cons.prems(1) x by (metis distinct.simps(2) image_eqI list.map(2) list.set_map)
    then have "filter (\<lambda>j. kj j = kx x) (F y) = []" using Cons.prems(3) by (auto simp: filter_empty_conv)
    with Cons.IH Cons.prems x show ?thesis by simp
  qed
qed simp

definition eligible :: "compaction_config \<Rightarrow> nat \<Rightarrow> parquet_file list \<Rightarrow> bool" where
  "eligible cfg g files \<longleftrightarrow> cf_min_files_for_compaction cfg \<le> length files \<and> g < 5 \<and>
     (\<exists>target. map_of (cf_generation_durations cfg) (g + 1) = Some target \<and> can_compact_to_generation cfg files target)"

lemma generation_jobs_files:
  "concat (map cj_files (generation_jobs cfg db table (g, files))) = (if eligible cfg g files then sort_key pf_min_time files else [])"
  by (auto simp: generation_jobs_def eligible_def get_next_generation_def comp_def chunk_files_concat split: option.split)

lemma generation_jobs_each:
  assumes "j \<in> set (generation_jobs cfg db table (g, files))"
  shows "cj_database_id j = cd_id db \<and> cj_table_id j = ct_table_id table \<and> cj_source_generation j = g \<and>
    cj_target_generation j = g + 1 \<and> cj_files j \<noteq> [] \<and> length (cj_files j) \<le> max (cf_max_files_per_run cfg) 1"
proof -
  have "c \<noteq> [] \<and> length c \<le> max (cf_max_files_per_run cfg) (Suc 0)"
    if "c \<in> set (chunks_of (max (cf_max_files_per_run cfg) (Suc 0)) (sort_key pf_min_time files))" for c
    using chunks_of_sizes [OF _ that] by simp
  with assms show ?thesis
    by (fastforce simp: generation_jobs_def get_next_generation_def chunk_files_for_jobs_def split: option.splits if_splits)
qed

lemma group_generation_files:
  "filter (\<lambda>j. cj_source_generation j = g) (concat (map (generation_jobs cfg db table) (btree_group generation files))) =
     (if filter (\<lambda>f. generation f = g) files = [] then [] else generation_jobs cfg db table (g, filter (\<lambda>f. generation f = g) files))"
proof -
  let ?m = "btree_group generation files" and ?fs = "filter (\<lambda>f. generation f = g) files"
  have each: "\<forall>y \<in> set ?m. \<forall>j \<in> set (generation_jobs cfg db table y). cj_source_generation j = fst y"
    using generation_jobs_each by fastforce
  have dist: "distinct (map fst ?m)"
    using keys_sorted_imp_distinct [OF keys_sorted_btree_group, of generation files] by (simp add: keys_distinct_def)
  show ?thesis
  proof (cases "?fs = []")
    case True
    then have "map_of ?m g = None" by (simp add: lookup_btree_group)
    then have "g \<notin> fst ` set ?m" by (simp add: map_of_eq_None_iff)
    with each True show ?thesis by (fastforce simp: filter_empty_conv)
  next
    case False
    then have "map_of ?m g = Some ?fs" by (simp add: lookup_btree_group Let_def)
    then have "(g, ?fs) \<in> set ?m" by (rule map_of_SomeD)
    from filter_concat_key [OF dist this each] False show ?thesis by simp
  qed
qed

lemma res_map_Inr: "res_map f xs = Inr ys \<Longrightarrow> (\<forall>x \<in> set xs. \<exists>y. f x = Inr y) \<and> ys = map (projr \<circ> f) xs"
  by (induction xs arbitrary: ys) (auto simp: bind_res_eq_Inr)

lemma res_map_error: "x \<in> set xs \<Longrightarrow> f x = Inl e \<Longrightarrow> \<exists>e'. res_map f xs = Inl e'"
proof (induction xs)
  case (Cons y xs)
  then show ?case by (cases "f y"; cases "res_map f xs") (auto simp: bind_res_def)
qed simp

lemma table_jobs_generation:
  assumes "compaction_table_jobs cfg lg db table = Inr jobs" "\<not> ct_deleted table"
  defines "files \<equiv> get_files (cd_id db) (ct_table_id table) lg"
  shows "concat (map cj_files (filter (\<lambda>j. cj_source_generation j = g) jobs)) =
    (if cf_min_files_for_compaction cfg \<le> length files \<and> eligible cfg g (filter (\<lambda>f. get_file_generation f = Inr g) files)
     then sort_key pf_min_time (filter (\<lambda>f. get_file_generation f = Inr g) files) else [])"
proof (cases "length files < cf_min_files_for_compaction cfg")
  case True
  with assms show ?thesis by (simp add: compaction_table_jobs_def Let_def)
next
  case False
  have ok: "list_all (\<lambda>f. \<exists>g. get_file_generation f = Inr g) files"
  proof (rule ccontr)
    assume "\<not> ?thesis"
    then obtain f where f: "f \<in> set files" "\<forall>g. get_file_generation f \<noteq> Inr g" by (auto simp: list_all_iff)
    then obtain e where "get_file_generation f = Inl e" by (cases "get_file_generation f") auto
    from group_by_generation_error [OF f(1) this] assms False show False by (auto simp: compaction_table_jobs_def Let_def)
  qed
  have "generation f = g \<longleftrightarrow> get_file_generation f = Inr g" if "f \<in> set files" for f
    using ok that by (auto simp: list_all_iff generation_def)
  then have fs: "filter (\<lambda>f. generation f = g) files = filter (\<lambda>f. get_file_generation f = Inr g) files"
    by (intro filter_cong) auto
  have "jobs = concat (map (generation_jobs cfg db table) (btree_group generation files))"
    using assms(1,2) False group_by_generation_ok [OF ok] by (simp add: compaction_table_jobs_def files_def Let_def)
  then have "filter (\<lambda>j. cj_source_generation j = g) jobs =
      (if filter (\<lambda>f. generation f = g) files = [] then [] else generation_jobs cfg db table (g, filter (\<lambda>f. generation f = g) files))"
    by (simp only: group_generation_files)
  then have "concat (map cj_files (filter (\<lambda>j. cj_source_generation j = g) jobs)) =
      (if filter (\<lambda>f. generation f = g) files = [] then [] else concat (map cj_files (generation_jobs cfg db table (g, filter (\<lambda>f. generation f = g) files))))"
    by (simp only: if_distrib [of "\<lambda>js. concat (map cj_files js)"] list.map concat.simps)
  with False show ?thesis unfolding fs generation_jobs_files by (simp add: not_less)
qed

lemma table_jobs_each:
  assumes "compaction_table_jobs cfg lg db table = Inr jobs" "j \<in> set jobs"
  shows "cj_database_id j = cd_id db \<and> cj_table_id j = ct_table_id table \<and>
    cj_target_generation j = cj_source_generation j + 1 \<and> cj_files j \<noteq> [] \<and> length (cj_files j) \<le> max (cf_max_files_per_run cfg) 1"
proof -
  from assms obtain gf where "j \<in> set (generation_jobs cfg db table gf)"
    by (auto simp: compaction_table_jobs_def Let_def bind_res_eq_Inr split: if_splits)
  then show ?thesis using generation_jobs_each [of j cfg db table "fst gf" "snd gf"] by simp
qed

lemma jobs_of_database:
  assumes "identify_compaction_jobs cfg dbs lg = Inr jobs" and "distinct (map cd_id dbs)" and "db \<in> set dbs" and "\<not> cd_deleted db"
  shows "\<exists>ts. res_map (compaction_table_jobs cfg lg db) (cd_tables db) = Inr ts \<and>
    filter (\<lambda>j. cj_database_id j = cd_id db) jobs = concat ts"
proof -
  let ?F = "\<lambda>db. if cd_deleted db then Inr [] else map_sum id concat (res_map (compaction_table_jobs cfg lg db) (cd_tables db))"
  from assms(1) obtain out where out: "res_map ?F dbs = Inr out" "jobs = concat out"
    by (cases "res_map ?F dbs") (auto simp: identify_compaction_jobs_def)
  note dbs = res_map_Inr [OF out(1)]
  have tables: "\<exists>ts. res_map (compaction_table_jobs cfg lg db') (cd_tables db') = Inr ts \<and> projr (?F db') = concat ts"
    if "db' \<in> set dbs" "\<not> cd_deleted db'" for db'
    using dbs that by (cases "res_map (compaction_table_jobs cfg lg db') (cd_tables db')") auto
  have each: "cj_database_id j = cd_id db'" if db': "db' \<in> set dbs" "j \<in> set (projr (?F db'))" for db' j
  proof -
    have live: "\<not> cd_deleted db'" using db'(2) by auto
    from tables [OF db'(1) live] obtain ts where ts: "res_map (compaction_table_jobs cfg lg db') (cd_tables db') = Inr ts" "projr (?F db') = concat ts" by blast
    from res_map_Inr [OF ts(1)] ts(2) db'(2) obtain t js where "j \<in> set (projr (compaction_table_jobs cfg lg db' t))" "compaction_table_jobs cfg lg db' t = Inr js"
      by auto
    with table_jobs_each [of cfg lg db' t js j] show ?thesis by simp
  qed
  have "jobs = concat (map (\<lambda>x. projr (?F x)) dbs)" using out(2) dbs by (simp add: comp_def)
  then have "filter (\<lambda>j. cj_database_id j = cd_id db) jobs = projr (?F db)"
    using filter_concat_key [OF assms(2,3), of "\<lambda>x. projr (?F x)" cj_database_id] each by blast
  with tables [OF assms(3,4)] show ?thesis by auto
qed

lemma jobs_of_table:
  assumes "res_map (compaction_table_jobs cfg lg db) (cd_tables db) = Inr ts" and "distinct (map ct_table_id (cd_tables db))"
    and "table \<in> set (cd_tables db)"
  shows "\<exists>tj. compaction_table_jobs cfg lg db table = Inr tj \<and> filter (\<lambda>j. cj_table_id j = ct_table_id table) (concat ts) = tj"
proof -
  let ?J = "\<lambda>t. projr (compaction_table_jobs cfg lg db t)"
  note tjs = res_map_Inr [OF assms(1)]
  from tjs assms(3) obtain tj where tj: "compaction_table_jobs cfg lg db table = Inr tj" by blast
  have "cj_table_id j = ct_table_id t" if t: "t \<in> set (cd_tables db)" "j \<in> set (?J t)" for t j
  proof -
    from tjs t(1) obtain js where "compaction_table_jobs cfg lg db t = Inr js" by blast
    with t(2) show ?thesis using table_jobs_each [of cfg lg db t js j] by simp
  qed
  then have "filter (\<lambda>j. cj_table_id j = ct_table_id table) (concat (map ?J (cd_tables db))) = ?J table"
    using filter_concat_key [OF assms(2,3), of ?J cj_table_id] by blast
  with tj tjs show ?thesis by (simp add: comp_def)
qed


definition demo_config :: compaction_config where
  "demo_config = \<lparr> cf_max_files_per_run = 1, cf_min_files_for_compaction = 2, cf_generation_durations = [(2, 60)],
     cf_keep_generations_trailing_window = 0, cf_cold_gc_enabled = False, cf_cold_gc_max_deletes_per_run = 0,
     cf_consumer_convergence = None, cf_checkpoint_every_n_cycles = 0, cf_claim_ttl = 0 \<rparr>"

definition demo_dbs :: "catalog_db list" where
  "demo_dbs = [\<lparr> cd_id = 0, cd_name = ''d'', cd_deleted = False,
     cd_tables = [\<lparr> ct_table_id = 0, ct_table_name = ''t'', ct_deleted = False, ct_sort_key = [''time''] \<rparr>] \<rparr>]"

definition demo_generations :: ledger where
  "demo_generations = ledger_default\<lparr> lg_files := [(0, [(0, [demo_file 1 ''n/dbs/0/0/a.parquet'' 0, demo_file 2 ''n/dbs/0/0/b.parquet'' 60,
     demo_file 3 ''n/dbs/d-0/t-0/gen2/c.parquet'' 0])])] \<rparr>"

lemmas demo_jobs_simps =
  demo_config_def demo_dbs_def demo_generations_def get_files_def get_files_filtered_def files_at_def demo_file_def
  test_time_stamp_min_max_def chunk_filter_default_def get_file_generation_def find_sub.simps parse_uint_def parse_digits_def
  digits_val_def digit_val_def is_digit_def Let_def


text \<open>A path is searched from its start, so a database whose name starts with \<open>gen\<close> is read as a generation.\<close>

lemma find_sub_skip: "c \<notin> set xs \<Longrightarrow> find_sub (c # ps) (xs @ ys) = map_option (\<lambda>i. i + length xs) (find_sub (c # ps) ys)"
proof (induction xs)
  case Nil
  show ?case by (simp add: option.map_ident)
next
  case (Cons x xs)
  then show ?case by (subst find_sub.simps) (auto simp: option.map_comp comp_def)
qed

lemma parse_uint_dash: "CHR ''-'' \<in> set s \<Longrightarrow> parse_uint mx s = None"
  by (cases s) (auto simp: parse_uint_def parse_digits_def list_all_iff is_digit_def)

lemma gen_path_unreadable:
  assumes "CHR ''/'' \<notin> set host" "CHR ''/'' \<notin> set x" "pf_path f = host @ ''/dbs/gen'' @ x @ ''-'' @ show_nat n @ ''/'' @ rest"
  shows "get_file_generation f = Inl (UnparsableGeneration (pf_path f))"
proof -
  let ?part = "x @ ''-'' @ show_nat n"
  have "find_sub ''/gen'' (''/dbs/gen'' @ ?part @ ''/'' @ rest) = Some 4"
    by (simp add: find_sub.simps)
  then have find: "find_sub ''/gen'' (pf_path f) = Some (length host + 4)"
    using find_sub_skip [OF assms(1), of "''gen''"] by (simp add: assms(3))
  have drop: "drop (length host + 4 + 4) (pf_path f) = ?part @ ''/'' @ rest" by (simp add: assms(3))
  have digits: "CHR ''/'' \<notin> set (show_nat n)" using digits_not_in [OF show_nat_digits, of "CHR ''/''"] by (simp add: is_digit_def)
  have "find_sub ''/'' (?part @ ''/'' @ rest) = Some (length ?part)"
    using find_sub_skip [of "CHR ''/''" ?part "[]" "''/'' @ rest"] assms(2) digits by (simp add: find_sub.simps)
  moreover have "parse_uint 255 ?part = None" by (rule parse_uint_dash) simp
  ultimately show ?thesis by (simp add: get_file_generation_def Let_def find drop [simplified])
qed



section \<open>Deletion waits for the readers\<close>

lemma convergence_gate_passes:
  assumes "heartbeats_shown js pa api s hbs"
  shows "snd (run_prog api (convergence_gate js pa cid stale_ms polls) s) = s \<and>
    (fst (run_prog api (convergence_gate js pa cid stale_ms polls) s) = Some True \<longrightarrow>
      (\<exists>p \<in> set polls. list_all (\<lambda>hb. live_heartbeat (fst p) stale_ms hb \<longrightarrow> has_folded cid hb) hbs))"
  using gate_exact [OF assms] by (induction polls) (auto simp: run_prog_bind split: if_splits)

lemma delete_attempts_view:
  assumes "store_ok api view used"
  shows "view (snd (run_prog api (delete_attempts path n) s)) q = view s q \<or> q = path"
proof (induction n arbitrary: s)
  case (Suc n)
  obtain r s1 where d: "api_delete api path s = (r, s1)" by force
  have "view s1 q = view s q \<or> q = path"
    using store_delete [OF assms d] by (auto simp: delete_law_def split: sum.splits)
  with Suc.IH [of s1] show ?case by (auto simp: d split: sum.split store_error.split)
qed simp

lemma delete_paths_view:
  assumes "store_ok api view used"
  shows "view (snd (run_prog api (delete_paths paths) s)) q = view s q \<or> q \<in> set paths"
proof (induction paths arbitrary: s)
  case (Cons path paths)
  obtain r s1 where a: "run_prog api (delete_attempts path 6) s = (r, s1)" by force
  from Cons.IH [of s1] delete_attempts_view [OF assms, of path 6 s q] show ?case
    by (auto simp: run_prog_bind a split: prod.split)
qed simp

text \<open>
  The deletion task either leaves the store alone or has seen the gate open, and it touches nothing but
  the replaced files.
\<close>

lemma delete_superseded_gated:
  fixes cid polls old_files
  assumes store: "store_ok api view used" and hbs: "heartbeats_shown (ce_json env) (ce_paths env) api s hbs"
    and cv: "cf_consumer_convergence (ce_config env) = Some cv"
  defines "s' \<equiv> snd (run_prog api (delete_superseded env True cid polls old_files) s)"
  shows "view s' q = view s q \<or> q \<in> (\<lambda>f. path_from (ce_paths env) (pf_path f)) ` set old_files \<and>
    (\<exists>p \<in> set polls. list_all (\<lambda>hb. live_heartbeat (fst p) (i64_wrap (int (as_millis (cv_staleness_ttl cv)))) hb \<longrightarrow> has_folded cid hb) hbs)"
proof -
  let ?ms = "i64_wrap (int (as_millis (cv_staleness_ttl cv)))"
  obtain passed where g: "run_prog api (convergence_gate (ce_json env) (ce_paths env) cid ?ms polls) s = (passed, s)"
    using convergence_gate_passes [OF hbs, of cid ?ms polls] by (metis prod.collapse)
  show ?thesis
  proof (cases "passed = Some True \<and> \<not> defer_deletion_to_cold_gc (cf_cold_gc_enabled (ce_config env)) (cf_keep_generations_trailing_window (ce_config env))")
    case True
    have "\<exists>p \<in> set polls. list_all (\<lambda>hb. live_heartbeat (fst p) ?ms hb \<longrightarrow> has_folded cid hb) hbs"
      using convergence_gate_passes [OF hbs, of cid ?ms polls] True by (simp add: g)
    moreover have "s' = snd (run_prog api (delete_paths (map (\<lambda>f. path_from (ce_paths env) (pf_path f)) old_files)) s)"
      using True by (simp add: s'_def delete_superseded_def cv run_prog_bind g split: prod.split)
    ultimately show ?thesis using delete_paths_view [OF store, of "map (\<lambda>f. path_from (ce_paths env) (pf_path f)) old_files" s q] by auto
  next
    case False
    then have "s' = s" by (auto simp: s'_def delete_superseded_def cv run_prog_bind g Let_def)
    then show ?thesis by simp
  qed
qed


definition demo_cenv :: "unit inventory_json \<Rightarrow> unit compaction_env" where
  "demo_cenv js = \<lparr> ce_config = demo_config\<lparr> cf_consumer_convergence := Some \<lparr> cv_staleness_ttl = 600000000 \<rparr> \<rparr>, ce_paths = plain_paths,
     ce_date_string = (\<lambda>_. ''2026-01-31/00-00''), ce_host = ''c'', ce_json = js, ce_compact = (\<lambda>_. Inr []),
     ce_encode = (\<lambda>_. Inr []), ce_catalog_sequence_number = 1 \<rparr>"

definition demo_job :: compaction_job where
  "demo_job = \<lparr> cj_database_id = 0, cj_database_name = ''d'', cj_table_id = 0, cj_table_name = ''t'', cj_source_generation = 1,
     cj_target_generation = 2, cj_files = [demo_gen1], cj_sort_key = [''time''] \<rparr>"

definition demo_manifest :: persisted_snapshot where
  "demo_manifest = compaction_manifest (demo_cenv demo_documents) 9 demo_job [demo_gen2] [demo_gen1]"

definition demo_reader :: "unit inventory_json" where
  "demo_reader = demo_documents\<lparr> read_snapshot := (\<lambda>b. if b = [1] then Inr demo_wal else Inr demo_manifest) \<rparr>"

lemma demo_manifest_env: "compaction_manifest (demo_cenv js) 9 demo_job [demo_gen2] [demo_gen1] = demo_manifest"
  by (simp add: demo_manifest_def compaction_manifest_def demo_cenv_def)


section \<open>Claims are exclusive while they are fresh\<close>

text \<open>
  Several compactors work on one claim path. A compactor without the claim tries to acquire it, one
  that has it gives it back, and the clock, an i64 of milliseconds, moves forward in between.
\<close>

record 's claim_sys =
  cs_store :: 's
  cs_holds :: "nat \<Rightarrow> int option"
  cs_now :: int

inductive claim_step ::
    "'s store_api \<Rightarrow> 'e claim_json \<Rightarrow> duration \<Rightarrow> string \<Rightarrow> 's claim_sys \<Rightarrow> 's claim_sys \<Rightarrow> bool"
  for api js claim_ttl path where
  acquire: "\<lbrakk>cs_holds st i = None; run_prog api (acquire_claim js claim_ttl (cs_now st) path) (cs_store st) = (r, s')\<rbrakk> \<Longrightarrow>
    claim_step api js claim_ttl path st
      (st\<lparr> cs_store := s', cs_holds := (if r = Inr True then (cs_holds st)(i \<mapsto> cs_now st) else cs_holds st) \<rparr>)"
| release: "\<lbrakk>cs_holds st i = Some t; run_prog api (release_claim path) (cs_store st) = (u, s')\<rbrakk> \<Longrightarrow>
    claim_step api js claim_ttl path st (st\<lparr> cs_store := s', cs_holds := (cs_holds st)(i := None) \<rparr>)"
| pass: "\<lbrakk>cs_now st \<le> now'; now' \<le> i64_max\<rbrakk> \<Longrightarrow> claim_step api js claim_ttl path st (st\<lparr> cs_now := now' \<rparr>)"

definition claims_fresh :: "duration \<Rightarrow> 's claim_sys \<Rightarrow> bool" where
  "claims_fresh claim_ttl st \<longleftrightarrow> (\<forall>i t. cs_holds st i = Some t \<longrightarrow> cs_now st - t < int (as_millis claim_ttl))"

definition fresh_claim_step ::
    "'s store_api \<Rightarrow> 'e claim_json \<Rightarrow> duration \<Rightarrow> string \<Rightarrow> 's claim_sys \<Rightarrow> 's claim_sys \<Rightarrow> bool" where
  "fresh_claim_step api js claim_ttl path st st' \<longleftrightarrow> claims_fresh claim_ttl st \<and> claim_step api js claim_ttl path st st'"

definition claim_inv :: "('s \<Rightarrow> objects) \<Rightarrow> 'e claim_json \<Rightarrow> string \<Rightarrow> 's claim_sys \<Rightarrow> bool" where
  "claim_inv view js path st \<longleftrightarrow> 0 \<le> cs_now st \<and> cs_now st \<le> i64_max \<and>
     (\<forall>i j. cs_holds st i \<noteq> None \<longrightarrow> cs_holds st j \<noteq> None \<longrightarrow> i = j) \<and>
     (\<forall>i t. cs_holds st i = Some t \<longrightarrow> 0 \<le> t \<and> t \<le> cs_now st \<and> (\<exists>b v. view (cs_store st) path = Some (b, v) \<and> read_claim js b = Inr t))"

lemma claim_put_effect:
  assumes "store_ok api view used" "api_put api path b m s = (Inr v, s')"
  shows "view s' path = Some (b, v)"
  using store_put [OF assms] by (simp add: put_law_def)

lemma claim_attempts_True:
  assumes store: "store_ok api view used" and run: "run_prog api (claim_attempts js claim_ttl now path n) s = (Inr True, s')"
  shows "\<exists>v. view s' path = Some (write_claim js now, v)"
  using run
proof (induction n arbitrary: s)
  case (Suc n)
  obtain r s1 where p: "api_put api path (write_claim js now) PutCreate s = (r, s1)" by force
  obtain r2 s2 where p2: "api_put api path (write_claim js now) PutOverwrite s1 = (r2, s2)" by force
  have effect: "view s1 path = Some (write_claim js now, v)" if "r = Inr v" for v
    using claim_put_effect [OF store p [unfolded that]] .
  have effect2: "view s2 path = Some (write_claim js now, v)" if "r2 = Inr v" for v
    using claim_put_effect [OF store p2 [unfolded that]] .
  show ?case
    using Suc.prems Suc.IH [of s1] p p2 effect effect2
    by (auto simp: Let_def split: sum.splits store_error.splits if_splits)
qed simp

lemma claim_attempts_held:
  assumes store: "store_ok api view used" "supports_create api"
    and held: "view s path = Some (b, v)" "read_claim js b = Inr t" "0 \<le> t" "t \<le> now" "now \<le> i64_max" "now - t < int (as_millis claim_ttl)"
  shows "fst (run_prog api (claim_attempts js claim_ttl now path (Suc n)) s) \<noteq> Inr True \<and>
    view (snd (run_prog api (claim_attempts js claim_ttl now path (Suc n)) s)) path = Some (b, v)"
proof -
  obtain r s1 where p: "api_put api path (write_claim js now) PutCreate s = (r, s1)" by force
  from store_put [OF store(1) p] held(1) obtain e where r: "r = Inl e" and v1: "view s1 path = Some (b, v)"
    by (cases r) (auto simp: put_law_def)
  have ns: "e \<noteq> NotSupported"
    using store(2) p r unfolding supports_create_def by (metis fst_conv)
  have age: "nat (max (i64_wrap (now - t)) 0) < as_millis claim_ttl"
  proof -
    have "i64_wrap (now - t) = now - t" using held(3-5) by (intro i64_wrap_exact) (auto simp: in_i64_def i64_min_def i64_max_def)
    with held(4,6) show ?thesis by simp
  qed
  show ?thesis
  proof (cases "e = AlreadyExists")
    case False
    with ns p r v1 show ?thesis by (cases e) (auto simp: Let_def)
  next
    case True
    have nf: "api_get api path s1 \<noteq> Inl NotFound" using store_get_none [OF store(1), of path s1] v1 by auto
    have got: "b' = b" if "api_get api path s1 = Inr b'" for b' using store_get [OF store(1) that] v1 by simp
    show ?thesis
      using True p r v1 nf got held(2) age by (cases "api_get api path s1") (auto split: store_error.split)
  qed
qed

lemma claim_inv_step:
  assumes store: "store_ok api view used" "supports_create api"
    and json: "\<And>t. read_claim js (write_claim js t) = Inr t"
    and step: "fresh_claim_step api js claim_ttl path st st'" and inv: "claim_inv view js path st"
  shows "claim_inv view js path st'"
  using step [unfolded fresh_claim_step_def, THEN conjunct2]
proof cases
  case (acquire i r s')
  note run = acquire(3)[unfolded acquire_claim_def]
  show ?thesis
  proof (cases "\<exists>j t. cs_holds st j = Some t")
    case True
    then obtain j t where j: "cs_holds st j = Some t" by auto
    with inv obtain b v where b: "view (cs_store st) path = Some (b, v)" "read_claim js b = Inr t" "0 \<le> t" "t \<le> cs_now st"
        "cs_now st \<le> i64_max" unfolding claim_inv_def by blast
    have "cs_now st - t < int (as_millis claim_ttl)"
      using step j unfolding fresh_claim_step_def claims_fresh_def by blast
    from claim_attempts_held [OF store b this, of 1] run have "r \<noteq> Inr True" "view s' path = view (cs_store st) path"
      by (simp_all add: numeral_2_eq_2 b(1) del: claim_attempts.simps)
    with acquire(1) inv show ?thesis by (simp add: claim_inv_def)
  next
    case False
    have "\<exists>v. view s' path = Some (write_claim js (cs_now st), v)" if "r = Inr True"
      using claim_attempts_True [OF store(1) run [unfolded that]] .
    with acquire(1) inv False json show ?thesis by (auto simp: claim_inv_def)
  qed
next
  case (release i t u s')
  with inv have "cs_holds st' j = None" for j unfolding claim_inv_def by (cases "j = i") auto
  with release inv show ?thesis by (simp add: claim_inv_def)
next
  case (pass now')
  with inv show ?thesis unfolding claim_inv_def by fastforce
qed


definition unary_json :: "unit claim_json" where
  "unary_json =
     \<lparr> write_claim = (\<lambda>t. (if t < 0 then 1 else 0) # replicate (nat \<bar>t\<bar>) 0),
       read_claim = (\<lambda>b. case b of [] \<Rightarrow> Inl () | c # r \<Rightarrow> Inr (if c = 1 then - int (length r) else int (length r))) \<rparr>"

lemma unary_json_reads: "read_claim unary_json (write_claim unary_json t) = Inr t"
  by (simp add: unary_json_def)

lemmas claim_eval = acquire_claim_def release_claim_def numeral_2_eq_2 unary_json_def mem_api_def mem_put_def mem_empty_def
  mem_fresh_def mem_delete_def as_millis_def i64_wrap_def

definition claim_start :: "mem_store claim_sys" where
  "claim_start = \<lparr> cs_store = mem_empty, cs_holds = (\<lambda>_. None), cs_now = 1 \<rparr>"


text \<open>
  A compactor that outlives its claim still deletes the object when it finishes: the compactor that
  had taken the claim over in the meantime loses it, and a third one acquires it beside the second.
\<close>

lemma late_release_frees_claim:
  defines "s1 \<equiv> snd (run_prog mem_api (acquire_claim unary_json 5000000 1 ''c'') mem_empty)"
  defines "s2 \<equiv> snd (run_prog mem_api (acquire_claim unary_json 5000000 7 ''c'') s1)"
  defines "s3 \<equiv> snd (run_prog mem_api (release_claim ''c'') s2)"
  shows "fst (run_prog mem_api (acquire_claim unary_json 5000000 7 ''c'') s1) = Inr True"
    and "fst (run_prog mem_api (acquire_claim unary_json 5000000 8 ''c'') s3) = Inr True"
  by (simp_all add: s1_def s2_def s3_def claim_eval)

end
