(* ===== verification/Ref_Validator.thy ===== *)
theory Ref_Validator
  imports Paths
begin

text \<open>
  The background check of the ledger against the object store
  (influxdb3_write/src/ref_validator.rs): references to parquet files whose object does not exist are
  evicted and remembered as gone. The references are read first, the evictions are applied after the
  listings, so the ledger may have changed in between. A set of paths is a list.
\<close>

section \<open>Validation\<close>

record validation_summary =
  vs_checked :: nat
  vs_evicted :: nat
  vs_skipped :: nat

definition path_prefix :: "string \<Rightarrow> string" where
  "path_prefix path = hd (split_on (CHR ''/'') path)"

definition dbs_dir :: "path_api \<Rightarrow> string \<Rightarrow> string" where
  "dbs_dir pa node = path_from pa (node @ ''/dbs'')"

text \<open>A listing that fails, at once or on the way, gives no paths for its prefix.\<close>

fun existing_paths_by_prefix :: "path_api \<Rightarrow> string list \<Rightarrow> (string \<times> string list option) list prog" where
  "existing_paths_by_prefix pa [] = Done []"
| "existing_paths_by_prefix pa (node # nodes) =
     ListPrefix (dbs_dir pa node) (\<lambda>listing.
       bind_prog (existing_paths_by_prefix pa nodes) (\<lambda>existing.
         Done ((node, case listing of Inl _ \<Rightarrow> None | Inr paths \<Rightarrow> Some paths) # existing)))"

definition ref_prefixes :: "(nat \<times> nat \<times> parquet_file list) list \<Rightarrow> string list" where
  "ref_prefixes refs =
     remdups (filter (\<lambda>p. p \<noteq> []) (map (\<lambda>f. path_prefix (pf_path f)) (concat (map (\<lambda>(_, _, fs). fs) refs))))"

definition validate_file ::
    "(string \<times> string list option) list \<Rightarrow> parquet_file list \<times> validation_summary \<Rightarrow> parquet_file \<Rightarrow>
     parquet_file list \<times> validation_summary" where
  "validate_file existing acc file =
     (case acc of (missing, summary) \<Rightarrow>
        case map_of existing (path_prefix (pf_path file)) of
          Some (Some paths) \<Rightarrow>
            (if pf_path file \<in> set paths then missing else missing @ [file],
             summary\<lparr> vs_checked := vs_checked summary + 1 \<rparr>)
        | _ \<Rightarrow> (missing, summary\<lparr> vs_skipped := vs_skipped summary + 1 \<rparr>))"

definition validate_table ::
    "(string \<times> string list option) list \<Rightarrow> validation_summary \<times> ledger \<Rightarrow> nat \<times> nat \<times> parquet_file list \<Rightarrow>
     validation_summary \<times> ledger" where
  "validate_table existing acc ref =
     (case (acc, ref) of ((summary, lg), d, t, files) \<Rightarrow>
        let (missing, summary) = foldl (validate_file existing) ([], summary) files
        in if missing = [] then (summary, lg)
           else (summary\<lparr> vs_evicted := vs_evicted summary + length missing \<rparr>,
                 tombstone_evicted (map pf_path missing) (remove_persisted_files d t missing lg)))"

definition validate_refs ::
    "(nat \<times> nat \<times> parquet_file list) list \<Rightarrow> (string \<times> string list option) list \<Rightarrow> ledger \<Rightarrow> validation_summary \<times> ledger" where
  "validate_refs refs existing lg =
     foldl (validate_table existing) (\<lparr> vs_checked = 0, vs_evicted = 0, vs_skipped = 0 \<rparr>, lg) refs"

definition validate_once :: "path_api \<Rightarrow> ledger \<Rightarrow> (validation_summary \<times> ledger) prog" where
  "validate_once pa lg =
     (let refs = ledger_snapshot_all lg in
      if refs = [] then Done (\<lparr> vs_checked = 0, vs_evicted = 0, vs_skipped = 0 \<rparr>, lg)
      else bind_prog (existing_paths_by_prefix pa (ref_prefixes refs)) (\<lambda>existing.
             Done (validate_refs refs existing lg)))"

section \<open>What a pass evicts\<close>

definition gone :: "(string \<times> string list option) list \<Rightarrow> string \<Rightarrow> bool" where
  "gone existing path \<longleftrightarrow>
     (case map_of existing (path_prefix path) of Some (Some paths) \<Rightarrow> path \<notin> set paths | _ \<Rightarrow> False)"

definition unlisted :: "(string \<times> string list option) list \<Rightarrow> string \<Rightarrow> bool" where
  "unlisted existing path \<longleftrightarrow> (\<forall>paths. map_of existing (path_prefix path) \<noteq> Some (Some paths))"

lemma validate_files:
  "foldl (validate_file existing) (missing, summary) files =
     (missing @ filter (\<lambda>f. gone existing (pf_path f)) files,
      summary\<lparr> vs_checked := vs_checked summary + length (filter (\<lambda>f. \<not> unlisted existing (pf_path f)) files),
              vs_skipped := vs_skipped summary + length (filter (\<lambda>f. unlisted existing (pf_path f)) files) \<rparr>)"
  by (induction files arbitrary: missing summary)
     (auto simp: validate_file_def gone_def unlisted_def split: option.splits)

lemma lg_files_tombstone_evicted [simp]: "lg_files (tombstone_evicted paths lg) = lg_files lg"
  by (simp add: tombstone_evicted_def Let_def split: prod.split)

lemma remove_persisted_files_at:
  assumes "files_wf (lg_files lg)"
  shows "files_wf (lg_files (remove_persisted_files d t rm lg))"
    "files_at (lg_files (remove_persisted_files d t rm lg)) d' t' =
       (if d' = d \<and> t' = t then filter (\<lambda>f. pf_path f \<notin> pf_path ` set rm) (files_at (lg_files lg) d' t')
        else files_at (lg_files lg) d' t')"
  using assms
  by (auto simp: remove_persisted_files_def Let_def files_wf_set_files files_at_set_files split: option.split prod.split)
     (auto simp: files_at_def)

lemma filter_gone_id: "filter (\<lambda>f. gone existing (pf_path f)) fs = [] \<Longrightarrow> f \<in> set fs \<Longrightarrow> \<not> gone existing (pf_path f)"
  by (simp add: filter_empty_conv)

lemma validate_table_at:
  assumes "files_wf (lg_files lg)"
  shows "files_wf (lg_files (snd (validate_table existing (summary, lg) (d, t, fs))))"
    "files_at (lg_files (snd (validate_table existing (summary, lg) (d, t, fs)))) d' t' =
       filter (\<lambda>f. \<not> (d' = d \<and> t' = t \<and> gone existing (pf_path f) \<and> pf_path f \<in> pf_path ` set fs)) (files_at (lg_files lg) d' t')"
proof -
  show "files_wf (lg_files (snd (validate_table existing (summary, lg) (d, t, fs))))"
    using assms by (simp add: validate_table_def validate_files remove_persisted_files_at)
  show "files_at (lg_files (snd (validate_table existing (summary, lg) (d, t, fs)))) d' t' =
       filter (\<lambda>f. \<not> (d' = d \<and> t' = t \<and> gone existing (pf_path f) \<and> pf_path f \<in> pf_path ` set fs)) (files_at (lg_files lg) d' t')"
  proof (cases "filter (\<lambda>f. gone existing (pf_path f)) fs = []")
    case True
    then have "\<not> (gone existing (pf_path f) \<and> pf_path f \<in> pf_path ` set fs)" for f
      using filter_gone_id [OF True] by (metis imageE)
    then show ?thesis using True by (simp add: validate_table_def validate_files) (rule filter_True [symmetric], auto)
  next
    case False
    have at: "files_at (lg_files (snd (validate_table existing (summary, lg) (d, t, fs)))) d' t' =
        (if d' = d \<and> t' = t then filter (\<lambda>f. pf_path f \<notin> pf_path ` set (filter (\<lambda>f. gone existing (pf_path f)) fs)) (files_at (lg_files lg) d' t')
         else files_at (lg_files lg) d' t')"
      using False by (simp only: validate_table_def validate_files remove_persisted_files_at [OF assms] prod.case Let_def append_Nil
          lg_files_tombstone_evicted if_False snd_conv)
    show ?thesis
    proof (cases "d' = d \<and> t' = t")
      case True
      show ?thesis unfolding at if_P [OF True] by (rule filter_cong) (use True in \<open>auto simp: image_iff\<close>)
    next
      case False
      show ?thesis unfolding at if_not_P [OF False] by (rule filter_True [symmetric]) (use False in auto)
    qed
  qed
qed

definition ref_gone :: "(string \<times> string list option) list \<Rightarrow> (nat \<times> nat \<times> parquet_file list) list \<Rightarrow> nat \<Rightarrow> nat \<Rightarrow> string \<Rightarrow> bool" where
  "ref_gone existing refs d t path \<longleftrightarrow> gone existing path \<and> (\<exists>fs. (d, t, fs) \<in> set refs \<and> path \<in> pf_path ` set fs)"

lemma validate_refs_at:
  assumes "files_wf (lg_files lg)"
  shows "files_wf (lg_files (snd (foldl (validate_table existing) (summary, lg) refs))) \<and>
    files_at (lg_files (snd (foldl (validate_table existing) (summary, lg) refs))) d t =
      filter (\<lambda>f. \<not> ref_gone existing refs d t (pf_path f)) (files_at (lg_files lg) d t)"
  using assms
proof (induction refs arbitrary: summary lg)
  case Nil
  then show ?case by (simp add: ref_gone_def)
next
  case (Cons r refs)
  obtain d1 t1 fs where r: "r = (d1, t1, fs)" by (cases r)
  obtain summary1 lg1 where step: "validate_table existing (summary, lg) r = (summary1, lg1)" by force
  note at = validate_table_at [OF Cons.prems, of existing summary d1 t1 fs, folded r, unfolded step snd_conv]
  have "ref_gone existing (r # refs) d t (pf_path f) \<longleftrightarrow>
      ref_gone existing refs d t (pf_path f) \<or> d = d1 \<and> t = t1 \<and> gone existing (pf_path f) \<and> pf_path f \<in> pf_path ` set fs" for f
    by (auto simp: ref_gone_def r)
  with Cons.IH [OF at(1), of summary1] at(2) [of d t] show ?case
    by (simp add: step) (rule filter_cong, auto)
qed

lemma drop_oldest_short: "length queue \<le> MAX_EVICTION_TOMBSTONES \<Longrightarrow> drop_oldest tombs queue = (tombs, queue)"
  by (cases queue) auto

lemma tombstone_paths:
  "map_of (fst (foldl (\<lambda>(tb, q) path. if map_of tb path \<noteq> None then (tb, q)
       else (AList.update path ObjectGone tb, q @ [path])) (tombs, queue) paths)) p \<noteq> None \<longleftrightarrow> map_of tombs p \<noteq> None \<or> p \<in> set paths"
  "length (snd (foldl (\<lambda>(tb, q) path. if map_of tb path \<noteq> None then (tb, q)
       else (AList.update path ObjectGone tb, q @ [path])) (tombs, queue) paths)) \<le> length queue + length paths"
proof -
  let ?step = "\<lambda>(tb, q) path. if map_of tb path \<noteq> None then (tb, q) else (AList.update path ObjectGone tb, q @ [path])"
  show "map_of (fst (foldl ?step (tombs, queue) paths)) p \<noteq> None \<longleftrightarrow> map_of tombs p \<noteq> None \<or> p \<in> set paths"
    by (induction paths arbitrary: tombs queue) (auto simp: update_conv')
  show "length (snd (foldl ?step (tombs, queue) paths)) \<le> length queue + length paths"
  proof (induction paths arbitrary: tombs queue)
    case (Cons a paths)
    from Cons.IH [of tombs queue] Cons.IH [of "AList.update a ObjectGone tombs" "queue @ [a]"] show ?case by simp
  qed simp
qed

lemma tombstone_evicted_suppresses:
  assumes "length (lg_eviction_tombstones lg) + length paths \<le> MAX_EVICTION_TOMBSTONES"
  shows "suppressed (lg_tombstones (tombstone_evicted paths lg)) p \<longleftrightarrow> suppressed (lg_tombstones lg) p \<or> p \<in> set paths"
    "length (lg_eviction_tombstones (tombstone_evicted paths lg)) \<le> length (lg_eviction_tombstones lg) + length paths"
proof -
  obtain tb q where f: "foldl (\<lambda>(tb, q) path. if map_of tb path \<noteq> None then (tb, q)
       else (AList.update path ObjectGone tb, q @ [path])) (lg_tombstones lg, lg_eviction_tombstones lg) paths = (tb, q)" by force
  note paths = tombstone_paths [of "lg_tombstones lg" "lg_eviction_tombstones lg" paths, unfolded f fst_conv snd_conv]
  have "drop_oldest tb q = (tb, q)" using paths(2) assms by (intro drop_oldest_short) simp
  with paths show "suppressed (lg_tombstones (tombstone_evicted paths lg)) p \<longleftrightarrow> suppressed (lg_tombstones lg) p \<or> p \<in> set paths"
    "length (lg_eviction_tombstones (tombstone_evicted paths lg)) \<le> length (lg_eviction_tombstones lg) + length paths"
    unfolding tombstone_evicted_def f by (simp_all add: suppressed_def)
qed

lemma existing_run:
  "run_prog api (existing_paths_by_prefix pa nodes) s =
     (map (\<lambda>node. (node, case api_list api (dbs_dir pa node) s of Inl _ \<Rightarrow> None | Inr paths \<Rightarrow> Some paths)) nodes, s)"
  by (induction nodes) (simp_all add: run_prog_bind)

lemma snapshot_all_mem:
  assumes "files_wf (lg_files lg)"
  shows "(\<exists>fs. (d, t, fs) \<in> set (ledger_snapshot_all lg) \<and> f \<in> set fs) \<longleftrightarrow> (d, t, f) \<in> set (each_file (lg_files lg))"
  by (fastforce simp: ledger_snapshot_all_def each_file_def each_table_file_def)

lemma ref_prefixes_mem:
  "p \<in> set (ref_prefixes refs) \<longleftrightarrow> p \<noteq> [] \<and> (\<exists>d t fs f. (d, t, fs) \<in> set refs \<and> f \<in> set fs \<and> p = path_prefix (pf_path f))"
  by (fastforce simp: ref_prefixes_def)

text \<open>
  The listing of a directory that succeeds gives the objects below it. Every reference is expected
  below the \<open>dbs\<close> directory of its first segment.
\<close>

definition lists_objects :: "'s store_api \<Rightarrow> ('s \<Rightarrow> objects) \<Rightarrow> bool" where
  "lists_objects api view \<longleftrightarrow>
     (\<forall>s dir paths. api_list api dir s = Inr paths \<longrightarrow> set paths = {p. view s p \<noteq> None \<and> prefix (dir @ ''/'') p})"

definition under_dbs :: "path_api \<Rightarrow> string \<Rightarrow> bool" where
  "under_dbs pa path \<longleftrightarrow> path_prefix path \<noteq> [] \<and> prefix (dbs_dir pa (path_prefix path) @ ''/'') path"

definition object_missing :: "path_api \<Rightarrow> 's store_api \<Rightarrow> ('s \<Rightarrow> objects) \<Rightarrow> 's \<Rightarrow> string \<Rightarrow> bool" where
  "object_missing pa api view s path \<longleftrightarrow>
     (\<exists>paths. api_list api (dbs_dir pa (path_prefix path)) s = Inr paths) \<and> view s path = None"

lemma map_of_map_key: "map_of (map (\<lambda>k. (k, g k)) ks) k = (if k \<in> set ks then Some (g k) else None)"
  by (induction ks) auto

lemma gone_missing:
  assumes api: "lists_objects api view" and f: "(d, t, fs) \<in> set refs" "f \<in> set fs" and dbs: "under_dbs pa (pf_path f)"
  shows "gone (fst (run_prog api (existing_paths_by_prefix pa (ref_prefixes refs)) s)) (pf_path f) \<longleftrightarrow>
    object_missing pa api view s (pf_path f)"
proof -
  have "path_prefix (pf_path f) \<in> set (ref_prefixes refs)" unfolding ref_prefixes_mem using f dbs by (auto simp: under_dbs_def)
  moreover have "pf_path f \<notin> set paths \<longleftrightarrow> view s (pf_path f) = None"
    if "api_list api (dbs_dir pa (path_prefix (pf_path f))) s = Inr paths" for paths
  proof -
    have "set paths = {p. view s p \<noteq> None \<and> prefix (dbs_dir pa (path_prefix (pf_path f)) @ ''/'') p}"
      using api that unfolding lists_objects_def by blast
    with dbs show ?thesis by (cases "view s (pf_path f)") (auto simp: under_dbs_def)
  qed
  ultimately show ?thesis
    by (auto simp: gone_def existing_run map_of_map_key object_missing_def split: sum.split)
qed

lemma remove_persisted_files_tombstones [simp]:
  "lg_tombstones (remove_persisted_files d t rm lg) = lg_tombstones lg"
  "lg_eviction_tombstones (remove_persisted_files d t rm lg) = lg_eviction_tombstones lg"
  by (simp_all add: remove_persisted_files_def Let_def split: option.split prod.split)

lemma validate_refs_suppresses:
  assumes "length (lg_eviction_tombstones lg) + length (concat (map (\<lambda>(_, _, fs). fs) refs)) \<le> MAX_EVICTION_TOMBSTONES"
    and "suppressed (lg_tombstones lg) p \<or> ref_gone existing refs d t p"
  shows "suppressed (lg_tombstones (snd (foldl (validate_table existing) (summary, lg) refs))) p"
  using assms
proof (induction refs arbitrary: summary lg)
  case Nil
  then show ?case by (simp add: ref_gone_def)
next
  case (Cons r refs)
  obtain d1 t1 fs where r: "r = (d1, t1, fs)" by (cases r)
  obtain summary1 lg1 where step: "validate_table existing (summary, lg) r = (summary1, lg1)" by force
  let ?m = "map pf_path (filter (\<lambda>f. gone existing (pf_path f)) fs)"
  have len: "length ?m \<le> length fs" by simp
  then have fits: "length (lg_eviction_tombstones (remove_persisted_files d1 t1 (filter (\<lambda>f. gone existing (pf_path f)) fs) lg)) + length ?m \<le> MAX_EVICTION_TOMBSTONES"
    using Cons.prems(1) by (simp only: r remove_persisted_files_tombstones list.map concat.simps prod.case length_append)
  note tomb = tombstone_evicted_suppresses [OF fits, unfolded remove_persisted_files_tombstones]
  have lg1: "lg1 = (if ?m = [] then lg else tombstone_evicted ?m (remove_persisted_files d1 t1 (filter (\<lambda>f. gone existing (pf_path f)) fs) lg))"
    using step by (simp add: r validate_table_def validate_files split: if_splits)
  have sup: "suppressed (lg_tombstones lg1) q \<longleftrightarrow> suppressed (lg_tombstones lg) q \<or> q \<in> set ?m" for q
    using tomb(1) [of q] unfolding lg1 by (cases "?m = []") (simp_all only: if_True if_False list.set empty_iff simp_thms)
  have "length (lg_eviction_tombstones lg1) \<le> length (lg_eviction_tombstones lg) + length ?m"
    using tomb(2) unfolding lg1 by (cases "?m = []") (simp_all only: if_True if_False list.size add_0_right order_refl simp_thms)
  with len Cons.prems(1) have "length (lg_eviction_tombstones lg1) + length (concat (map (\<lambda>(_, _, fs). fs) refs)) \<le> MAX_EVICTION_TOMBSTONES"
    by (simp only: r list.map concat.simps prod.case length_append)
  moreover have "suppressed (lg_tombstones lg1) p \<or> ref_gone existing refs d t p"
    using Cons.prems(2) unfolding sup by (auto simp: ref_gone_def r)
  ultimately show ?case using Cons.IH by (simp add: step)
qed


lemma mem_lists_objects: "lists_objects mem_api mem_view"
  by (fastforce simp: lists_objects_def mem_api_def mem_view_def map_of_eq_None_iff
      dest: weak_map_of_SomeI)

definition demo_refs :: ledger where
  "demo_refs = (ledger_run [])\<lparr> lg_files := [(0, [(0, [demo_file 1 ''n/dbs/a.parquet'' 0, demo_file 2 ''n/dbs/b.parquet'' 0])])] \<rparr>"

definition demo_objects :: mem_store where
  "demo_objects = \<lparr> mem_objects = [(''n/dbs/a.parquet'', [], 0)], mem_next = 1 \<rparr>"


text \<open>
  A node identifier of two segments breaks the assumption on paths: the listing of the first segment
  succeeds and is empty, and the pass evicts a file whose object exists.
\<close>

lemma nested_node_evicted:
  "let f = demo_file 1 ''rack/n/dbs/a.parquet'' 0;
       lg = (ledger_run [])\<lparr> lg_files := [(0, [(0, [f])])] \<rparr>;
       s = \<lparr> mem_objects = [(''rack/n/dbs/a.parquet'', [], 0)], mem_next = 1 \<rparr>
   in mem_view s (pf_path f) \<noteq> None \<and>
      each_file (lg_files (snd (fst (run_prog mem_api (validate_once plain_paths lg) s)))) = []"
  by (simp add: Let_def mem_view_def validate_once_def ledger_snapshot_all_def run_prog_bind existing_run ref_prefixes_def
      path_prefix_def dbs_dir_def plain_paths_def mem_api_def validate_refs_def validate_table_def validate_files gone_def
      remove_persisted_files_def set_files_def demo_file_def)

end
