(* ===== verification/Inventory_Checkpoint.thy ===== *)
theory Inventory_Checkpoint
  imports Compaction Ref_Validator
begin

text \<open>
  The checkpoint of the shared inventory the compactor writes (influxdb3_write/src/compaction.rs,
  \<open>write_inventory_checkpoint\<close>), the cycle that writes it (\<open>run_compaction_cycle\<close>) and the start of a node from it. The compactor drops dangling
  references, writes down its live files with the marks up to which they are folded and the tombstones
  a loader still needs, and sweeps replaced objects that are old enough. The marks, the time and the
  identifiers are arguments; the time an object was written is a parameter, and a listing is read as a
  whole.
\<close>

section \<open>Writing a checkpoint\<close>

definition merged_snapshot :: "'e compaction_env \<Rightarrow> nat \<Rightarrow> ledger \<Rightarrow> persisted_snapshot" where
  "merged_snapshot env next_id lg =
     foldl (\<lambda>s (d, t, files). foldl (\<lambda>s f. add_parquet_file next_id d t f s) s files)
       (persisted_snapshot_new next_id (ce_host env) 0 0 (ce_catalog_sequence_number env)) (ledger_snapshot_all lg)"

definition snapshot_paths :: "persisted_snapshot \<Rightarrow> string list" where
  "snapshot_paths s = map loc_path (each_file (ps_databases s))"

text \<open>
  Files that a manifest above the marks lists and the merged snapshot lacks, with the WAL number of
  the manifest. Those whose object is gone are suppressed for the loader.
\<close>

definition survivor_candidates :: "string list \<Rightarrow> persisted_snapshot list \<Rightarrow> (string \<times> nat) list" where
  "survivor_candidates merged_paths live_wal =
     concat (map (\<lambda>snap. map (\<lambda>path. (path, ps_wal_file_sequence_number snap))
        (filter (\<lambda>path. path \<notin> set merged_paths) (snapshot_paths snap))) live_wal)"

definition candidate_prefixes :: "string list \<Rightarrow> string list" where
  "candidate_prefixes paths = remdups (filter (\<lambda>p. p \<noteq> []) (map path_prefix paths))"

definition survivor_tombstones ::
    "(string \<times> string list option) list \<Rightarrow> (string \<times> nat) list \<Rightarrow> (string \<times> nat) list" where
  "survivor_tombstones existing candidates =
     filter (\<lambda>(path, _). case map_of existing (path_prefix path) of
        Some (Some present) \<Rightarrow> path \<notin> set present | _ \<Rightarrow> False) candidates"

definition find_survivors ::
    "'e compaction_env \<Rightarrow> (string \<times> nat) list \<Rightarrow> persisted_snapshot \<Rightarrow> (string \<times> nat) list prog" where
  "find_survivors env wal_high_water merged =
     bind_prog (load_all_wal_snapshots (ce_json env) (ce_paths env) wal_high_water) (\<lambda>r.
       let candidates = (case r of Inl _ \<Rightarrow> [] | Inr live_wal \<Rightarrow> survivor_candidates (snapshot_paths merged) live_wal)
       in if candidates = [] then Done []
          else bind_prog (existing_paths_by_prefix (ce_paths env) (candidate_prefixes (map fst candidates))) (\<lambda>existing.
                 Done (survivor_tombstones existing candidates)))"

definition cold_gc_should_delete :: "string \<Rightarrow> int \<Rightarrow> int \<Rightarrow> string list \<Rightarrow> bool" where
  "cold_gc_should_delete path last_modified_ms cutoff_ms live_paths \<longleftrightarrow>
     \<not> contains_sub ''/gen'' path \<and> last_modified_ms \<le> cutoff_ms \<and> path \<notin> set live_paths"

text \<open>The sweep of one listing gives the number of deletions and whether the bound stopped it.\<close>

primrec sweep_listing ::
    "(string \<Rightarrow> int) \<Rightarrow> int \<Rightarrow> string list \<Rightarrow> nat \<Rightarrow> string list \<Rightarrow> nat \<Rightarrow> (nat \<times> bool) prog" where
  "sweep_listing last_modified cutoff_ms live_paths max_deletes [] swept = Done (swept, False)"
| "sweep_listing last_modified cutoff_ms live_paths max_deletes (path # listing) swept =
     (if max_deletes \<le> swept then Done (swept, True)
      else if \<not> cold_gc_should_delete path (last_modified path) cutoff_ms live_paths
      then sweep_listing last_modified cutoff_ms live_paths max_deletes listing swept
      else Delete path (\<lambda>r. sweep_listing last_modified cutoff_ms live_paths max_deletes listing
             (case r of Inr _ \<Rightarrow> swept + 1 | Inl e \<Rightarrow> if e = NotFound then swept + 1 else swept)))"

primrec sweep_prefixes ::
    "path_api \<Rightarrow> (string \<Rightarrow> int) \<Rightarrow> int \<Rightarrow> string list \<Rightarrow> nat \<Rightarrow> string list \<Rightarrow> nat \<Rightarrow> nat prog" where
  "sweep_prefixes pa last_modified cutoff_ms live_paths max_deletes [] swept = Done swept"
| "sweep_prefixes pa last_modified cutoff_ms live_paths max_deletes (node # nodes) swept =
     ListPrefix (dbs_dir pa node) (\<lambda>r. case r of
        Inl _ \<Rightarrow> if max_deletes \<le> swept then Done swept
                 else sweep_prefixes pa last_modified cutoff_ms live_paths max_deletes nodes swept
      | Inr listing \<Rightarrow> bind_prog (sweep_listing last_modified cutoff_ms live_paths max_deletes listing swept) (\<lambda>(swept, stop).
          if stop then Done swept else sweep_prefixes pa last_modified cutoff_ms live_paths max_deletes nodes swept))"

definition cold_gc :: "'e compaction_env \<Rightarrow> (string \<Rightarrow> int) \<Rightarrow> int \<Rightarrow> persisted_snapshot \<Rightarrow> nat prog" where
  "cold_gc env last_modified now_ms merged =
     (let cfg = ce_config env; live_paths = snapshot_paths merged in
      if cf_cold_gc_enabled cfg \<and> cf_keep_generations_trailing_window cfg \<noteq> 0
      then sweep_prefixes (ce_paths env) last_modified
             (i64_wrap (now_ms - i64_wrap (int (as_millis (cf_keep_generations_trailing_window cfg))))) live_paths
             (cf_cold_gc_max_deletes_per_run cfg) (candidate_prefixes live_paths) 0
      else Done 0)"

definition write_inventory_checkpoint ::
    "'e compaction_env \<Rightarrow> bool \<Rightarrow> inventory_watermarks \<Rightarrow> nat \<Rightarrow> (string \<Rightarrow> int) \<Rightarrow> int \<Rightarrow> string \<Rightarrow> ledger \<Rightarrow>
     (('e inventory_error + unit) \<times> ledger) prog" where
  "write_inventory_checkpoint env has_inventory marks next_id last_modified now_ms checkpoint_id lg =
     (if \<not> has_inventory then Done (Inr (), lg) else
      bind_prog (validate_once (ce_paths env) lg) (\<lambda>(_, lg).
       let merged = merged_snapshot env next_id lg;
           lg = gc_tombstones (iw_wal marks) (iw_compaction marks) lg;
           (tombstones, compaction_tombstones) = tombstones_for_checkpoint lg
       in bind_prog (find_survivors env (iw_wal marks) merged) (\<lambda>survivors.
            bind_prog (cold_gc env last_modified now_ms merged) (\<lambda>_.
              bind_prog (write_checkpoint (ce_json env) (ce_paths env) checkpoint_id
                \<lparr> ck_wal_high_water = iw_wal marks, ck_compactions_high_water = iw_compaction marks,
                  ck_merged_snapshot = merged, ck_tombstones = tombstones @ survivors,
                  ck_compaction_tombstones = compaction_tombstones \<rparr>) (\<lambda>r.
                Done (map_sum id (\<lambda>_. ()) r, lg))))))"

text \<open>
  The groups of a cycle run one after the other. The time a claim is taken and the identifiers a job
  draws are arguments, as are those of the checkpoint.
\<close>

primrec execute_groups ::
    "'e compaction_env \<Rightarrow> 'c claim_json \<Rightarrow> (string \<Rightarrow> int) \<Rightarrow> bool \<Rightarrow> (compaction_job \<Rightarrow> nat \<times> nat \<times> string) \<Rightarrow>
     (string \<times> compaction_job list) list \<Rightarrow> nat \<Rightarrow> ledger \<Rightarrow> (nat \<times> ledger) prog" where
  "execute_groups env cjs claim_ms has_inventory ids [] completed_jobs lg = Done (completed_jobs, lg)"
| "execute_groups env cjs claim_ms has_inventory ids (g # groups) completed_jobs lg =
     (case g of (path, jobs) \<Rightarrow>
        bind_prog (execute_claim_group env cjs (claim_ms path) has_inventory path (map (\<lambda>job. (job, ids job)) jobs) lg) (\<lambda>(n, lg).
          execute_groups env cjs claim_ms has_inventory ids groups (completed_jobs + n) lg))"

definition run_compaction_cycle ::
    "'e compaction_env \<Rightarrow> 'c claim_json \<Rightarrow> (string \<Rightarrow> int) \<Rightarrow> bool \<Rightarrow> (compaction_job \<Rightarrow> nat \<times> nat \<times> string) \<Rightarrow> catalog_db list \<Rightarrow>
     inventory_watermarks \<Rightarrow> nat \<Rightarrow> (string \<Rightarrow> int) \<Rightarrow> int \<Rightarrow> string \<Rightarrow> nat \<Rightarrow> ledger \<Rightarrow>
     ((compaction_error + unit) \<times> nat \<times> ledger) prog" where
  "run_compaction_cycle env cjs claim_ms has_inventory ids dbs marks next_id last_modified now_ms checkpoint_id cycle_count lg =
     (case identify_compaction_jobs (ce_config env) dbs lg of
        Inl e \<Rightarrow> Done (Inl e, cycle_count, lg)
      | Inr jobs \<Rightarrow>
          if jobs = [] then Done (Inr (), cycle_count, lg)
          else bind_prog (execute_groups env cjs claim_ms has_inventory ids (claim_groups (ce_paths env) jobs) 0 lg) (\<lambda>(_, lg).
            let n = cf_checkpoint_every_n_cycles (ce_config env); cycle = u64_add cycle_count 1 in
            if 0 < n \<and> has_inventory
            then if cycle mod n = 0
              then bind_prog (write_inventory_checkpoint env has_inventory marks next_id last_modified now_ms checkpoint_id lg)
                (\<lambda>(_, lg). Done (Inr (), cycle, lg))
              else Done (Inr (), cycle, lg)
            else Done (Inr (), cycle_count, lg)))"

section \<open>Cold sweeps\<close>

definition cold :: "(string \<Rightarrow> int) \<Rightarrow> int \<Rightarrow> string list \<Rightarrow> string \<Rightarrow> bool" where
  "cold last_modified cutoff_ms live_paths path = cold_gc_should_delete path (last_modified path) cutoff_ms live_paths"

text \<open>A sweep leaves every object alone that it should not delete, and changes no other by more than deleting it.\<close>

definition swept_only :: "(string \<Rightarrow> bool) \<Rightarrow> objects \<Rightarrow> objects \<Rightarrow> bool" where
  "swept_only P old new \<longleftrightarrow> (\<forall>p. new p = old p \<or> P p \<and> new p = None)"

lemma swept_only_trans: "swept_only P a b \<Longrightarrow> swept_only P b c \<Longrightarrow> swept_only P a c"
  unfolding swept_only_def by metis

lemma swept_only_refl [simp]: "swept_only P a a"
  by (simp add: swept_only_def)

lemma delete_swept:
  assumes "store_ok api view used" "api_delete api p s = (r, s')" "P p"
  shows "swept_only P (view s) (view s')"
  using store_delete [OF assms(1,2)] assms(3) by (auto simp: delete_law_def swept_only_def split: sum.splits if_splits)

lemma sweep_listing_only:
  assumes store: "store_ok api view used"
  shows "swept_only (cold last_modified cutoff_ms live_paths) (view s)
    (view (snd (run_prog api (sweep_listing last_modified cutoff_ms live_paths max_deletes listing swept) s)))"
proof (induction listing arbitrary: s swept)
  case (Cons p listing)
  obtain r s' where d: "api_delete api p s = (r, s')" by force
  have "swept_only (cold last_modified cutoff_ms live_paths) (view s) (view s')" if "cold last_modified cutoff_ms live_paths p"
    using delete_swept [OF store d, of "cold last_modified cutoff_ms live_paths", OF that] .
  with Cons.IH d show ?case
    by (auto simp flip: cold_def intro: swept_only_trans)
qed simp

lemma sweep_prefixes_only:
  assumes store: "store_ok api view used"
  shows "swept_only (cold last_modified cutoff_ms live_paths) (view s)
    (view (snd (run_prog api (sweep_prefixes pa last_modified cutoff_ms live_paths max_deletes nodes swept) s)))"
proof (induction nodes arbitrary: s swept)
  case (Cons node nodes)
  show ?case
  proof (cases "api_list api (dbs_dir pa node) s")
    case (Inl e)
    with Cons.IH show ?thesis by simp
  next
    case (Inr listing)
    obtain n stop s' where r: "run_prog api (sweep_listing last_modified cutoff_ms live_paths max_deletes listing swept) s = ((n, stop), s')"
      by (metis prod.exhaust)
    have "swept_only (cold last_modified cutoff_ms live_paths) (view s) (view s')"
      using sweep_listing_only [OF store, of last_modified cutoff_ms live_paths s max_deletes listing swept] r by simp
    with Cons.IH [of s' n] r Inr show ?thesis by (auto simp: run_prog_bind intro: swept_only_trans)
  qed
qed simp

section \<open>What a checkpoint holds\<close>

lemma add_files_fold:
  "mset (each_file (ps_databases (foldl (\<lambda>s f. add_parquet_file n d t f s) s files))) =
     mset (each_file (ps_databases s)) + mset (map (\<lambda>f. (d, t, f)) files)"
  "ps_removed_files (foldl (\<lambda>s f. add_parquet_file n d t f s) s files) = ps_removed_files s"
  by (induction files arbitrary: s) (simp_all add: add_parquet_file_def mset_each_push)

lemma merged_fold:
  "mset (each_file (ps_databases (foldl (\<lambda>s (d, t, files). foldl (\<lambda>s f. add_parquet_file n d t f s) s files) s refs))) =
     mset (each_file (ps_databases s)) + mset (concat (map (\<lambda>(d, t, fs). map (\<lambda>f. (d, t, f)) fs) refs))"
  "ps_removed_files (foldl (\<lambda>s (d, t, files). foldl (\<lambda>s f. add_parquet_file n d t f s) s files) s refs) = ps_removed_files s"
  by (induction refs arbitrary: s) (auto simp: add_files_fold)

lemma snapshot_all_files:
  "concat (map (\<lambda>(d, t, fs). map (\<lambda>f. (d, t, f)) fs) (ledger_snapshot_all lg)) = each_file (lg_files lg)"
proof -
  have table: "concat (map ((\<lambda>(d, t, fs). map (\<lambda>f. (d, t, f)) fs) \<circ> Pair d) (filter (\<lambda>(_, fs). fs \<noteq> []) ts)) = each_table_file d ts"
    for d :: nat and ts :: "(nat \<times> parquet_file list) list"
    by (induction ts) (auto split: prod.split)
  show ?thesis unfolding ledger_snapshot_all_def
  proof (induction "lg_files lg" arbitrary: lg)
    case (Cons p m)
    show ?case unfolding Cons(2) [symmetric] using Cons(1) [of "lg\<lparr> lg_files := m \<rparr>"] by (cases p) (simp add: table)
  qed simp
qed

lemma merged_files:
  "mset (each_file (ps_databases (merged_snapshot env n lg))) = mset (each_file (lg_files lg))"
  "ps_removed_files (merged_snapshot env n lg) = []"
  unfolding merged_snapshot_def merged_fold snapshot_all_files by (simp_all add: persisted_snapshot_new_def)

section \<open>Tombstones through a checkpoint\<close>

abbreviation tombs_distinct :: "ledger \<Rightarrow> bool" where
  "tombs_distinct lg \<equiv> distinct (map fst (lg_tombstones lg))"

lemma set_tombstones_distinct: "distinct (map fst tb) \<Longrightarrow> distinct (map fst (foldl (set_tombstone cid present) tb fs))"
  by (induction fs arbitrary: tb) (simp_all add: set_tombstone_def distinct_update split: option.split)

lemma table_removes_distinct:
  "distinct (map fst (snd (snd st))) \<Longrightarrow> distinct (map fst (snd (snd (foldl (fold_table_removes cid d) st ts))))"
proof (induction ts arbitrary: st)
  case (Cons tf ts)
  have "distinct (map fst (snd (snd (fold_table_removes cid d st tf))))"
    using Cons.prems by (cases st; cases tf) (simp add: fold_table_removes_def Let_def set_tombstones_distinct)
  from Cons.IH [OF this] show ?case by simp
qed simp

lemma db_removes_distinct:
  "distinct (map fst (snd (snd st))) \<Longrightarrow> distinct (map fst (snd (snd (foldl (fold_db_removes cid) st m))))"
proof (induction m arbitrary: st)
  case (Cons dts m)
  have "distinct (map fst (snd (snd (fold_db_removes cid st dts))))"
    using table_removes_distinct [OF Cons.prems] by (cases dts) (simp add: fold_db_removes_def)
  from Cons.IH [OF this] show ?case by simp
qed simp

lemma ledger_run_distinct: "tombs_distinct (ledger_run ops)"
proof -
  have step: "tombs_distinct (ledger_step op lg)" if "tombs_distinct lg" for op lg
  proof (cases op)
    case (FoldManifest m cid)
    obtain dl files where add: "foldl (fold_db_adds (lg_tombstones lg)) (delta_zero, lg_files lg) (ps_databases m) = (dl, files)" by force
    obtain dl' files' tb where rem: "foldl (fold_db_removes cid) (dl, files, lg_tombstones lg) (ps_removed_files m) = (dl', files', tb)"
      by (metis prod.exhaust)
    have "distinct (map fst tb)" using db_removes_distinct [of "(dl, files, lg_tombstones lg)" cid "ps_removed_files m"] that rem by simp
    with FoldManifest add rem show ?thesis
      by (simp add: add_persisted_snapshot_def update_persisted_files_with_snapshot_def Let_def split: prod.split)
  next
    case (CollectTombstones whw chw)
    then show ?thesis using that by (simp add: gc_tombstones_def distinct_map_filter)
  qed
  have "tombs_distinct lg \<Longrightarrow> tombs_distinct (fold ledger_step ops lg)" for lg
    by (induction ops arbitrary: lg) (simp_all add: step)
  then show ?thesis by (simp add: ledger_run_def ledger_default_def)
qed

text \<open>An eviction neither adds nor drops a tombstone that is not one of its own.\<close>

lemma drop_oldest_other:
  "distinct (map fst tb) \<Longrightarrow> k \<noteq> ObjectGone \<Longrightarrow>
   distinct (map fst (fst (drop_oldest tb q))) \<and> ((p, k) \<in> set (fst (drop_oldest tb q)) \<longleftrightarrow> (p, k) \<in> set tb)"
proof (induction tb q rule: drop_oldest.induct)
  case (2 tb oldest q)
  let ?tb = "if map_of tb oldest = Some ObjectGone then AList.delete oldest tb else tb"
  have "distinct (map fst ?tb)" using 2(2) by (simp add: distinct_delete)
  moreover have "(p, k) \<in> set ?tb \<longleftrightarrow> (p, k) \<in> set tb"
  proof (cases "map_of tb oldest = Some ObjectGone")
    case True
    then have "(oldest, k) \<notin> set tb" using 2(2,3) by (metis map_of_eq_Some_iff option.inject)
    then show ?thesis by (auto simp: True AList.delete_eq)
  qed simp
  ultimately show ?case using 2 by simp
qed simp

lemma tombstone_evicted_other:
  assumes "tombs_distinct lg" "k \<noteq> ObjectGone"
  shows "tombs_distinct (tombstone_evicted paths lg) \<and>
    ((p, k) \<in> set (lg_tombstones (tombstone_evicted paths lg)) \<longleftrightarrow> (p, k) \<in> set (lg_tombstones lg))"
proof -
  let ?step = "\<lambda>(tb, q) path. if map_of tb path \<noteq> None then (tb, q) else (AList.update path ObjectGone tb, q @ [path])"
  have "distinct (map fst (fst (foldl ?step (tb, q) paths))) \<and> ((p, k) \<in> set (fst (foldl ?step (tb, q) paths)) \<longleftrightarrow> (p, k) \<in> set tb)"
    if "distinct (map fst tb)" for tb and q :: "string list"
    using that
  proof (induction paths arbitrary: tb q)
    case (Cons path paths)
    show ?case
    proof (cases "map_of tb path = None")
      case True
      then have "path \<notin> fst ` set tb" by (simp add: map_of_eq_None_iff)
      then have up: "AList.update path ObjectGone tb = tb @ [(path, ObjectGone)]"
        by (induction tb) auto
      have "distinct (map fst (AList.update path ObjectGone tb))" using Cons.prems by (rule distinct_update)
      from Cons.IH [OF this, of "q @ [path]"] True assms(2) show ?thesis by (simp add: up)
    next
      case False
      with Cons.IH [OF Cons.prems, of q] show ?thesis by auto
    qed
  qed simp
  note steps = this [OF assms(1), of "lg_eviction_tombstones lg"]
  obtain tb q where f: "foldl ?step (lg_tombstones lg, lg_eviction_tombstones lg) paths = (tb, q)" by force
  obtain tb' q' where dr: "drop_oldest tb q = (tb', q')" by force
  have "lg_tombstones (tombstone_evicted paths lg) = tb'" unfolding tombstone_evicted_def f by (simp add: dr)
  with steps drop_oldest_other [of tb k q p] f dr assms(2) show ?thesis by simp
qed

lemma validate_refs_other:
  assumes "tombs_distinct lg" "k \<noteq> ObjectGone"
  shows "tombs_distinct (snd (foldl (validate_table existing) (summary, lg) refs)) \<and>
    ((p, k) \<in> set (lg_tombstones (snd (foldl (validate_table existing) (summary, lg) refs))) \<longleftrightarrow> (p, k) \<in> set (lg_tombstones lg))"
  using assms(1)
proof (induction refs arbitrary: summary lg)
  case (Cons r refs)
  obtain d t fs where r: "r = (d, t, fs)" by (cases r)
  obtain summary1 lg1 where step: "validate_table existing (summary, lg) r = (summary1, lg1)" by force
  let ?m = "filter (\<lambda>f. gone existing (pf_path f)) fs"
  have "lg1 = (if ?m = [] then lg else tombstone_evicted (map pf_path ?m) (remove_persisted_files d t ?m lg))"
    using step by (simp add: r validate_table_def validate_files split: if_splits)
  then have "tombs_distinct lg1 \<and> ((p, k) \<in> set (lg_tombstones lg1) \<longleftrightarrow> (p, k) \<in> set (lg_tombstones lg))"
    using tombstone_evicted_other [of "remove_persisted_files d t ?m lg" k "map pf_path ?m" p] Cons.prems assms(2) by auto
  with Cons.IH [of lg1 summary1] step show ?case by simp
qed simp

lemma tombstones_for_checkpoint_sets:
  assumes "tombstones_for_checkpoint lg = (gen1, gen2)"
  shows "set gen1 = {(p, n). \<exists>node. (p, WalSeq node n) \<in> set (lg_tombstones lg)}"
    "set gen2 = {(p, i). (p, Compaction i) \<in> set (lg_tombstones lg)}"
proof -
  let ?step = "\<lambda>(gen1, compaction) (path, gc). case gc of WalSeq _ wal_seq \<Rightarrow> (gen1 @ [(path, wal_seq)], compaction)
      | Compaction removing_id \<Rightarrow> (gen1, compaction @ [(path, removing_id)]) | ObjectGone \<Rightarrow> (gen1, compaction)"
  have "set (fst (foldl ?step (g, c) tb)) = set g \<union> {(p, n). \<exists>node. (p, WalSeq node n) \<in> set tb} \<and>
      set (snd (foldl ?step (g, c) tb)) = set c \<union> {(p, i). (p, Compaction i) \<in> set tb}"
    for g :: "(string \<times> nat) list" and c :: "(string \<times> string) list" and tb
  proof (induction tb arbitrary: g c)
    case (Cons x tb)
    show ?case
    proof (cases x)
      case (Pair p k)
      show ?thesis by (cases k) (auto simp: Pair Cons.IH)
    qed
  qed simp
  from this [of "[]" "[]" "lg_tombstones lg"] assms
  show "set gen1 = {(p, n). \<exists>node. (p, WalSeq node n) \<in> set (lg_tombstones lg)}"
    "set gen2 = {(p, i). (p, Compaction i) \<in> set (lg_tombstones lg)}"
    by (simp_all add: tombstones_for_checkpoint_def)
qed

lemma seed_tombstones_suppressed:
  "suppressed (lg_tombstones (seed_tombstones gen1 gen2 lg)) p \<longleftrightarrow>
     suppressed (lg_tombstones lg) p \<or> path_prefix p \<noteq> [] \<and> p \<in> fst ` set gen1 \<or> p \<in> fst ` set gen2"
proof -
  let ?g = "\<lambda>tb (path, wal_seq). let node_id = hd (split_on (CHR ''/'') path)
      in if node_id \<noteq> [] then AList.update path (WalSeq node_id wal_seq) tb else tb"
  let ?c = "\<lambda>tb (path, removing_id). AList.update path (Compaction removing_id) tb"
  have g: "map_of (foldl ?g tb gen1) p \<noteq> None \<longleftrightarrow> map_of tb p \<noteq> None \<or> path_prefix p \<noteq> [] \<and> p \<in> fst ` set gen1"
    for tb :: "(string \<times> tombstone_gc) list"
    by (induction gen1 arbitrary: tb) (auto simp: update_conv' path_prefix_def Let_def split: if_splits)
  have c: "map_of (foldl ?c tb gen2) p \<noteq> None \<longleftrightarrow> map_of tb p \<noteq> None \<or> p \<in> fst ` set gen2"
    for tb :: "(string \<times> tombstone_gc) list"
    by (induction gen2 arbitrary: tb) (auto simp: update_conv')
  show ?thesis unfolding suppressed_def seed_tombstones_def Let_def
    using g [of "lg_tombstones lg"] c [of "foldl ?g (lg_tombstones lg) gen1"] by (simp add: Let_def)
qed

lemma seed_tombstones_files [simp]:
  "lg_files (seed_tombstones gen1 gen2 lg) = lg_files lg" "ledger_exact (seed_tombstones gen1 gen2 lg) = ledger_exact lg"
  by (simp_all add: seed_tombstones_def ledger_exact_def)

text \<open>
  What the tombstones of a checkpoint suppress, when the ledger got its tombstones from the
  manifests \<open>ops\<close>: every removed file that is still to be added, and removed files only.
\<close>

lemma checkpoint_tombstones:
  assumes run: "run_inv (gc_tombstones whw chw lg0) ops later"
    and other: "\<forall>p k. k \<noteq> ObjectGone \<longrightarrow> ((p, k) \<in> set (lg_tombstones lg) \<longleftrightarrow> (p, k) \<in> set (lg_tombstones lg0))"
    and cp: "tombstones_for_checkpoint (gc_tombstones whw chw lg) = (gen1, gen2)"
  shows "x \<in> set (ops_rems ops) \<Longrightarrow> x \<in> set (ops_adds later) \<Longrightarrow>
      suppressed (lg_tombstones (seed_tombstones (gen1 @ more_gen1) gen2 ledger_default)) (loc_path x)"
    "fst ` set gen1 \<union> fst ` set gen2 \<subseteq> loc_path ` set (ops_rems ops)"
proof -
  let ?T = "lg_tombstones (gc_tombstones whw chw lg0)"
  have origin: "\<exists>op \<in> set ops. \<exists>x \<in> set (op_rems op). loc_path x = p \<and> op_keys op p = Some k" if "(p, k) \<in> set ?T" for p k
    using run that unfolding run_inv_def tombs_from_def by blast
  have key: "k \<noteq> ObjectGone \<and> (\<forall>n i. k = WalSeq n i \<longrightarrow> path_prefix p \<noteq> [])" if k: "(p, k) \<in> set ?T" for p k
  proof -
    from origin [OF k] obtain op where "op_keys op p = Some k" by blast
    then obtain cid where cid: "tombstone_key cid p = Some k" by (cases op) auto
    then have "k \<noteq> ObjectGone" by (auto simp: tombstone_key_def split: option.splits)
    moreover have "path_prefix p \<noteq> []" if "k = WalSeq n i" for n i
      using cid that by (auto simp: tombstone_key_def parse_gen1_path_def path_prefix_def Let_def split: option.splits if_splits)
    ultimately show ?thesis by blast
  qed
  have both: "(p, k) \<in> set (lg_tombstones (gc_tombstones whw chw lg)) \<longleftrightarrow> (p, k) \<in> set ?T" if "k \<noteq> ObjectGone" for p k
    using other that by (auto simp: gc_tombstones_def)
  note sets = tombstones_for_checkpoint_sets [OF cp]
  show "fst ` set gen1 \<union> fst ` set gen2 \<subseteq> loc_path ` set (ops_rems ops)"
  proof
    fix p assume "p \<in> fst ` set gen1 \<union> fst ` set gen2"
    then obtain k where "(p, k) \<in> set ?T" unfolding sets using both by fastforce
    from origin [OF this] show "p \<in> loc_path ` set (ops_rems ops)" by (auto simp: ops_rems_def)
  qed
  assume x: "x \<in> set (ops_rems ops)" "x \<in> set (ops_adds later)"
  then have "suppressed ?T (loc_path x)" using run unfolding run_inv_def by blast
  then obtain k where k: "(loc_path x, k) \<in> set ?T" by (auto simp: suppressed_def dest: map_of_SomeD)
  with key [OF k] both have "loc_path x \<in> fst ` set gen1 \<and> path_prefix (loc_path x) \<noteq> [] \<or> loc_path x \<in> fst ` set gen2"
    unfolding sets by (cases k) (force intro: rev_image_eqI)+
  then show "suppressed (lg_tombstones (seed_tombstones (gen1 @ more_gen1) gen2 ledger_default)) (loc_path x)"
    unfolding seed_tombstones_suppressed by auto
qed

section \<open>Starting from a checkpoint\<close>

text \<open>
  A loader folds without compaction ids, so only removals of writer files leave tombstones. That is
  enough when no other removal comes before the addition of its file.
\<close>

definition removes_after :: "persisted_snapshot \<Rightarrow> persisted_snapshot \<Rightarrow> bool" where
  "removes_after m m' \<longleftrightarrow> (\<forall>x \<in> set (each_file (ps_removed_files m)) \<inter> set (each_file (ps_databases m')). parse_gen1_path (loc_path x) \<noteq> None)"

lemma fold_boot:
  assumes "ledger_inv (lg_files lg) (lg_tombstones lg) A R" "ledger_exact lg"
    and "names_paths (A @ adds_of ms) (R @ rems_of ms)" "totals_fit (A @ adds_of ms)"
    and "\<forall>x \<in> set R \<inter> set (adds_of ms). suppressed (lg_tombstones lg) (loc_path x)"
    and "sorted_wrt removes_after ms"
  shows "ledger_inv (lg_files (foldl (\<lambda>lg m. add_persisted_snapshot m None lg) lg ms))
      (lg_tombstones (foldl (\<lambda>lg m. add_persisted_snapshot m None lg) lg ms)) (A @ adds_of ms) (R @ rems_of ms)"
  using assms
proof (induction ms arbitrary: lg A R)
  case (Cons m ms)
  let ?B = "each_file (ps_databases m)" and ?S = "each_file (ps_removed_files m)" and ?lg = "add_persisted_snapshot m None lg"
  have names: "names_paths (A @ ?B @ adds_of ms) (R @ ?S @ rems_of ms)" and fit: "totals_fit (A @ ?B @ adds_of ms)"
    using Cons.prems(3,4) by simp_all
  have nm: "names_paths (A @ ?B) (R @ ?S)"
    using names names_paths_mono(1) [of "A @ ?B" "adds_of ms" "R @ ?S" "rems_of ms"] by simp
  have ft: "totals_fit (A @ ?B)" using fit by (simp add: totals_fit_def)
  have sup: "\<forall>x \<in> set ?B \<inter> set R. suppressed (lg_tombstones lg) (loc_path x)" using Cons.prems(5) by simp
  note step = add_persisted_snapshot_inv [OF Cons.prems(1) nm sup ft Cons.prems(2), of None]
  have fresh: "set (A @ ?B) \<inter> set (adds_of ms) = {}" using names_pathsD(3) [OF names] by auto
  have later: "suppressed (lg_tombstones ?lg) (loc_path x)" if x: "x \<in> set (R @ ?S)" "x \<in> set (adds_of ms)" for x
  proof (cases "x \<in> set R")
    case True
    with x(2) Cons.prems(5) have "suppressed (lg_tombstones lg) (loc_path x)" by simp
    moreover have "\<forall>p. suppressed (lg_tombstones lg) p \<longrightarrow> suppressed (lg_tombstones ?lg) p"
      using step unfolding removes_done_def by blast
    ultimately show ?thesis by blast
  next
    case False
    with x(1) have xs: "x \<in> set ?S" by simp
    from x(2) obtain m' where "m' \<in> set ms" "x \<in> set (each_file (ps_databases m'))" by (auto simp: adds_of_def)
    with Cons.prems(6) xs have "parse_gen1_path (loc_path x) \<noteq> None" by (auto simp: removes_after_def)
    then have "tombstone_key None (loc_path x) \<noteq> None" by (auto simp: tombstone_key_def)
    moreover have "\<forall>x \<in> set ?S. x \<in> set (A @ ?B) \<or> tombstone_key None (loc_path x) = None \<or> suppressed (lg_tombstones ?lg) (loc_path x)"
      using step unfolding removes_done_def by blast
    from bspec [OF this xs] have "x \<in> set (A @ ?B) \<or> tombstone_key None (loc_path x) = None \<or> suppressed (lg_tombstones ?lg) (loc_path x)" .
    moreover have "x \<notin> set (A @ ?B)" using fresh x(2) by blast
    ultimately show ?thesis by (elim disjE) simp_all
  qed
  have "ledger_inv (lg_files ?lg) (lg_tombstones ?lg) (A @ ?B) (R @ ?S)" "ledger_exact ?lg" using step by simp_all
  from Cons.IH [OF this] names fit later Cons.prems(6) show ?case by simp
qed simp

lemma names_paths_sub:
  assumes "names_paths A R" "mset A' \<subseteq># mset A" "set R' \<subseteq> set R \<union> set A"
  shows "names_paths A' R'"
proof -
  have sub: "set A' \<subseteq> set A" using set_mset_mono [OF assms(2)] by simp
  obtain B where "mset B = mset A - mset A'" using ex_mset by blast
  then have "mset (A' @ B) = mset A" using assms(2) by simp
  then have "mset (map loc_path (A' @ B)) = mset (map loc_path A)" unfolding mset_map by (rule arg_cong)
  from mset_eq_imp_distinct_iff [OF this] have "distinct (map loc_path A')" using assms(1) by (simp add: names_paths_def)
  moreover have "x = y" if x: "x \<in> set R'" and y: "y \<in> set A'" and eq: "loc_path x = loc_path y" for x y
  proof (cases "x \<in> set R")
    case True
    from names_pathsD(2) [OF assms(1) True subsetD [OF sub y] eq] show ?thesis .
  next
    case False
    with assms(3) x have "x \<in> set A" by blast
    from names_pathsD(1) [OF assms(1) this subsetD [OF sub y] eq] show ?thesis .
  qed
  ultimately show ?thesis by (auto simp: names_paths_def list_all_iff)
qed

lemma totals_fit_subset: "totals_fit A \<Longrightarrow> mset A' \<subseteq># mset A \<Longrightarrow> totals_fit A'"
  by (erule totals_fit_sub [where M = "mset A - mset A'"]) simp

lemma remove_persisted_files_subset:
  assumes "files_wf (lg_files lg)"
  shows "mset (each_file (lg_files (remove_persisted_files d t rm lg))) \<subseteq># mset (each_file (lg_files lg))"
proof -
  let ?P = "\<lambda>f. pf_path f \<notin> set (map pf_path rm)"
  have "lg_files (remove_persisted_files d t rm lg) = (case map_of (lg_files lg) d of None \<Rightarrow> lg_files lg
       | Some ts \<Rightarrow> (case map_of ts t of None \<Rightarrow> lg_files lg | Some fs \<Rightarrow> set_files d t (filter ?P fs) (lg_files lg)))"
    by (simp add: remove_persisted_files_def Let_def split: option.split prod.split)
  with keep_files_at(2) [OF assms, of d t ?P] show ?thesis by simp
qed

lemma validate_refs_subset:
  assumes "files_wf (lg_files lg)"
  shows "mset (each_file (lg_files (snd (foldl (validate_table existing) (summary, lg) refs)))) \<subseteq># mset (each_file (lg_files lg))"
  using assms
proof (induction refs arbitrary: summary lg)
  case (Cons r refs)
  obtain d t fs where r: "r = (d, t, fs)" by (cases r)
  obtain summary1 lg1 where step: "validate_table existing (summary, lg) r = (summary1, lg1)" by force
  let ?m = "filter (\<lambda>f. gone existing (pf_path f)) fs"
  have "lg1 = (if ?m = [] then lg else tombstone_evicted (map pf_path ?m) (remove_persisted_files d t ?m lg))"
    using step by (simp add: r validate_table_def validate_files split: if_splits)
  then have "mset (each_file (lg_files lg1)) \<subseteq># mset (each_file (lg_files lg))" "files_wf (lg_files lg1)"
    using remove_persisted_files_subset [OF Cons.prems] remove_persisted_files_at(1) [OF Cons.prems] Cons.prems by auto
  with Cons.IH [of lg1 summary1] step show ?case by (auto intro: subset_mset.trans)
qed simp

lemma watermarks_current:
  fixes evict :: "string \<Rightarrow> nat \<Rightarrow> 't \<Rightarrow> 't"
  shows "po_watermarks_out (poll_run js pa api evict ss (poller_new cs cc lg tail)) =
     \<lparr> iw_wal = po_wal_cursors (poll_run js pa api evict ss (poller_new cs cc lg tail)),
       iw_compaction = po_compaction_cursor (poll_run js pa api evict ss (poller_new cs cc lg tail)) \<rparr>"
proof -
  let ?P = "\<lambda>po. po_watermarks_out po = \<lparr> iw_wal = po_wal_cursors po, iw_compaction = po_compaction_cursor po \<rparr>"
  have once: "?P (fst (run_prog api (poll_once js pa evict po) s))" if "?P po" for po :: "'t poller" and s
    using that by (auto simp: poll_once_def run_prog_bind split: prod.split sum.split)
  have "?P (poll_run js pa api evict ss po)" if "?P po" for po :: "'t poller"
    using that unfolding poll_run_def by (induction ss arbitrary: po) (simp_all add: once)
  from this [of "poller_new cs cc lg tail"] show ?thesis by (simp add: poller_new_def)
qed

lemma manifests_files:
  "ops_adds (manifests (nw, nc)) = adds_of nw @ adds_of (map snd nc)"
  "ops_rems (manifests (nw, nc)) = rems_of nw @ rems_of (map snd nc)"
  by (simp_all add: manifests_def ops_adds_def ops_rems_def adds_of_def rems_of_def comp_def)

text \<open>The history of the compactor, its collection for the checkpoint and the manifests of a later view.\<close>

lemma checkpoint_ops_ok:
  assumes inv: "poll_inv f ops po" and nw: "mset nw = mset (filter (beyond (po_wal_cursors po)) W)"
    and nc: "mset nc = mset (filter (\<lambda>im. later_than (po_compaction_cursor po) (fst im)) C)" "sorted (map fst nc)"
    and ok: "inventory_ok (fold_view (W, C) f)"
  shows "ops_ok ((ops @ [CollectTombstones (po_wal_cursors po) (po_compaction_cursor po)]) @ manifests (nw, nc))"
proof -
  let ?cs = "po_wal_cursors po" and ?cc = "po_compaction_cursor po"
  let ?cs' = "foldl note_sequence ?cs nw" and ?cc' = "if nc = [] then ?cc else Some (fst (last nc))"
  let ?ops = "(ops @ [CollectTombstones ?cs ?cc]) @ manifests (nw, nc)"
  let ?po = "po\<lparr> po_files := ledger_run ?ops, po_wal_cursors := ?cs', po_compaction_cursor := ?cc' \<rparr>"
  have v: "cursors_of f ?cs ?cc" and below: "collects_below ?cs ?cc ops" "collects_fresh ops" using inv by (simp_all add: poll_inv_def)
  have eq: "beyond ?cs = newer (fst f)" "(\<lambda>im. later_than ?cc (fst im)) = newer_id (snd f)"
    using cursors_of_newer [OF v] by (auto simp: fun_eq_iff)
  have after: "list_all (op_after ?cs ?cc) (manifests (nw, nc))"
    using mset_eq_setD [OF nw] mset_eq_setD [OF nc(1)] by (auto simp: manifests_def list_all_iff)
  have manifest: "list_all is_manifest (manifests (nw, nc))" by (auto simp: manifests_def list_all_iff)
  have below': "collects_below ?cs ?cc (ops @ [CollectTombstones ?cs ?cc])" using below(1) by (simp add: collects_below_def)
  have "collects_fresh (ops @ [CollectTombstones ?cs ?cc])"
    by (rule collects_fresh_append [OF below(2) _ below(1)]) simp_all
  from collects_fresh_append [OF this collects_fresh_manifests [OF manifest] below' after]
  have "collects_fresh ?ops" .
  moreover have "collects_below ?cs' ?cc' ?ops"
    using collects_below_mono [OF below' cursors_le_fold [OF v nc(1), of nw]] manifest
    by (auto simp: collects_below_def list_all_iff is_manifest_def split: ledger_op.splits)
  moreover have "mset (filter is_manifest ?ops) = mset (manifests (fold_view (W, C) f))"
    using inv mset_manifests_cong [OF nw nc(1)] unfolding mset_manifests_fold eq by (simp add: poll_inv_def)
  ultimately have "poll_inv (fold_view (W, C) f) ?ops ?po"
    using cursors_of_fold [OF v nw nc] unfolding poll_inv_def by simp
  from poll_inv_ops_ok [OF this ok] show ?thesis .
qed

lemma manifests_removes_after:
  assumes ok: "inventory_ok v" and nw: "set nw \<subseteq> set (fst v)" and nc: "set nc \<subseteq> set (snd v)"
    and sorted: "sorted (map fst nc)" "distinct (map fst nc)" and merged: "ps_removed_files mg = []"
  shows "sorted_wrt removes_after (mg # nw @ map snd nc)"
proof -
  have writer: "removes_after m m'" if "m \<in> set nw" for m m'
    using inventory_okD(2) [OF ok, of m] nw that unfolding removes_after_def by blast
  have "sorted_wrt removes_after nw" by (rule sorted_wrt_mono_rel [of _ "\<lambda>_ _. True"]) (simp_all add: writer)
  moreover have "sorted_wrt removes_after (map snd nc)"
  proof -
    have "sorted_wrt (<) (map fst nc)" using sorted by (simp add: strict_sorted_iff)
    then have "sorted_wrt (\<lambda>im jm. fst im < fst jm) nc" by (simp add: sorted_wrt_map)
    then have "sorted_wrt (\<lambda>im jm. removes_after (snd im) (snd jm)) nc"
    proof (rule sorted_wrt_mono_rel [rotated])
      fix im jm assume in_nc: "im \<in> set nc" "jm \<in> set nc" and less: "fst im < fst jm"
      have mem: "im \<in> set (snd v)" "jm \<in> set (snd v)" using in_nc nc by blast+
      have "x \<notin> set (each_file (ps_databases (snd jm)))" if "x \<in> set (each_file (ps_removed_files (snd im)))" for x
        using inventory_okD(4) [OF ok mem(2,1), of x] that less by auto
      then show "removes_after (snd im) (snd jm)" unfolding removes_after_def by blast
    qed
    then show ?thesis by (simp add: sorted_wrt_map)
  qed
  moreover have "removes_after mg m" for m using merged by (simp add: removes_after_def)
  ultimately show ?thesis using writer by (simp add: sorted_wrt_append)
qed

lemma boot_files:
  assumes inv: "poll_inv f ops po" and nw: "mset nw = mset (filter (beyond (po_wal_cursors po)) W)"
    and nc: "mset nc = mset (filter (\<lambda>im. later_than (po_compaction_cursor po) (fst im)) C)" "sorted (map fst nc)" "distinct (map fst nc)"
    and ok: "inventory_ok (fold_view (W, C) f)"
    and live: "mset (each_file (lg_files lg)) \<subseteq># mset (each_file (lg_files (po_files po)))"
    and other: "\<forall>p k. k \<noteq> ObjectGone \<longrightarrow> ((p, k) \<in> set (lg_tombstones lg) \<longleftrightarrow> (p, k) \<in> set (lg_tombstones (po_files po)))"
    and cp: "tombstones_for_checkpoint (gc_tombstones (po_wal_cursors po) (po_compaction_cursor po) lg) = (gen1, gen2)"
    and merged: "mset (each_file (ps_databases mg)) = mset (each_file (lg_files lg))" "ps_removed_files mg = []"
    and surv: "\<forall>p \<in> fst ` set surv. path_prefix p \<noteq> [] \<and> p \<notin> loc_path ` set (each_file (lg_files lg)) \<and> p \<in> loc_path ` set (adds_of nw)"
  defines "boot \<equiv> foldl (\<lambda>lg m. add_persisted_snapshot m None lg) (seed_tombstones (gen1 @ surv) gen2 ledger_default) (mg # nw @ map snd nc)"
  shows "set (each_file (lg_files boot)) =
    (set (each_file (lg_files lg)) \<union> set (ops_adds (manifests (nw, nc)))) -
    (set (ops_rems ops) \<union> {x \<in> set (adds_of nw). loc_path x \<in> fst ` set surv} \<union> set (ops_rems (manifests (nw, nc))))"
proof -
  let ?cs = "po_wal_cursors po" and ?cc = "po_compaction_cursor po" and ?lg = "seed_tombstones (gen1 @ surv) gen2 ledger_default"
  let ?ops = "ops @ [CollectTombstones ?cs ?cc]" and ?new = "manifests (nw, nc)" and ?ms = "mg # nw @ map snd nc"
  let ?S = "filter (\<lambda>x. loc_path x \<in> fst ` set surv) (adds_of nw)" and ?M = "each_file (lg_files lg)"
  note all = checkpoint_ops_ok [OF inv nw nc(1,2) ok]
  have po: "po_files po = ledger_run ops" using inv by (simp add: poll_inv_def)
  have run: "run_inv (gc_tombstones ?cs ?cc (po_files po)) ?ops ?new"
    using run_inv_prefix [OF all] by (simp add: po ledger_run_def)
  note tombs = checkpoint_tombstones [OF run other cp]
  have names: "names_paths (ops_adds (?ops @ ?new)) (ops_rems (?ops @ ?new))" and fit: "totals_fit (ops_adds (?ops @ ?new))"
    using all by (simp_all only: ops_ok_def)
  have adds: "mset (adds_of ?ms) = mset ?M + mset (ops_adds ?new)" by (simp add: manifests_files merged(1))
  have folded: "mset (each_file (lg_files (po_files po))) = mset (live_of (ops_adds ops) (ops_rems ops))"
    using run by (simp add: run_inv_def ledger_inv_def gc_tombstones_def)
  have "mset ?M \<subseteq># mset (ops_adds ops)"
    using subset_mset.trans [OF live [unfolded folded]] by (simp add: live_of_def multiset_filter_subset)
  then have sub: "mset (adds_of ?ms) \<subseteq># mset (ops_adds (?ops @ ?new))" unfolding adds by simp
  have dead: "set ?M \<inter> set (ops_rems ops) = {}" using set_mset_mono [OF live] mset_eq_setD [OF folded] by (auto simp: live_of_def)
  have rems: "set ((ops_rems ops @ ?S) @ rems_of ?ms) \<subseteq> set (ops_rems (?ops @ ?new)) \<union> set (ops_adds (?ops @ ?new))"
    by (auto simp: manifests_files merged(2))
  have "ledger_inv (lg_files boot) (lg_tombstones boot) ([] @ adds_of ?ms) ((ops_rems ops @ ?S) @ rems_of ?ms)"
    unfolding boot_def
  proof (rule fold_boot)
    show "ledger_inv (lg_files ?lg) (lg_tombstones ?lg) [] (ops_rems ops @ ?S)"
    proof -
      have "p \<in> loc_path ` set (ops_rems ops @ ?S)" if "p \<in> fst ` set (lg_tombstones ?lg)" for p
      proof -
        have "suppressed (lg_tombstones ?lg) p" using that by (simp only: dom_keys suppressed_def) simp
        then have "p \<in> fst ` set gen1 \<union> fst ` set gen2 \<or> p \<in> fst ` set surv"
          unfolding seed_tombstones_suppressed by (auto simp: suppressed_def ledger_default_def)
        then show ?thesis
        proof
          assume "p \<in> fst ` set gen1 \<union> fst ` set gen2"
          with tombs(2) show ?thesis by auto
        next
          assume p: "p \<in> fst ` set surv"
          with surv obtain x where "x \<in> set (adds_of nw)" "p = loc_path x" by blast
          with p have "x \<in> set ?S" "p = loc_path x" by simp_all
          then show ?thesis by simp
        qed
      qed
      then show ?thesis by (auto simp: ledger_inv_def ledger_default_def)
    qed
    show "ledger_exact ?lg" using ledger_default_inv by simp
    show "names_paths ([] @ adds_of ?ms) ((ops_rems ops @ ?S) @ rems_of ?ms)"
      using names_paths_sub [OF names sub rems] by simp
    show "totals_fit ([] @ adds_of ?ms)" using totals_fit_subset [OF fit sub] by simp
    show "\<forall>x \<in> set (ops_rems ops @ ?S) \<inter> set (adds_of ?ms). suppressed (lg_tombstones ?lg) (loc_path x)"
    proof
      fix x assume x: "x \<in> set (ops_rems ops @ ?S) \<inter> set (adds_of ?ms)"
      then have "x \<in> set ?M \<or> x \<in> set (ops_adds ?new)" using mset_eq_setD [of "adds_of ?ms" "?M @ ops_adds ?new"] adds by auto
      then show "suppressed (lg_tombstones ?lg) (loc_path x)"
      proof (cases "x \<in> set ?S")
        case True
        with surv show ?thesis unfolding seed_tombstones_suppressed by auto
      next
        case False
        with x dead \<open>x \<in> set ?M \<or> x \<in> set (ops_adds ?new)\<close> have "x \<in> set (ops_rems ?ops)" "x \<in> set (ops_adds ?new)" by auto
        from tombs(1) [OF this, of surv] show ?thesis .
      qed
    qed
    show "sorted_wrt removes_after ?ms"
      using mset_eq_setD [OF nw] mset_eq_setD [OF nc(1)] cursors_of_newer [of f ?cs ?cc] inv
      by (intro manifests_removes_after [OF ok _ _ nc(2,3) merged(2)]) (auto simp: fold_view_def poll_inv_def)
  qed
  then have "mset (each_file (lg_files boot)) = mset (live_of (adds_of ?ms) ((ops_rems ops @ ?S) @ rems_of ?ms))"
    by (simp only: ledger_inv_def append_Nil)
  from mset_eq_setD [OF this] have "set (each_file (lg_files boot)) = set (adds_of ?ms) - set ((ops_rems ops @ ?S) @ rems_of ?ms)"
    by (simp only: live_of_def set_filter) blast
  also have "set (adds_of ?ms) = set ?M \<union> set (ops_adds ?new)" using mset_eq_setD [of "adds_of ?ms" "?M @ ops_adds ?new"] adds by simp
  also have "set ((ops_rems ops @ ?S) @ rems_of ?ms) = set (ops_rems ops) \<union> set ?S \<union> set (ops_rems ?new)"
    by (simp add: manifests_files merged(2) Un_assoc)
  finally show ?thesis by (simp only: set_filter)
qed

section \<open>Running the checkpoint\<close>

lemma validate_once_run:
  "run_prog api (validate_once pa lg) s =
     (validate_refs (ledger_snapshot_all lg) (fst (run_prog api (existing_paths_by_prefix pa (ref_prefixes (ledger_snapshot_all lg))) s)) lg, s)"
  by (cases "ledger_snapshot_all lg = []") (simp_all add: validate_once_def validate_refs_def run_prog_bind existing_run Let_def)

lemma survivor_gone: "survivor_tombstones existing candidates = filter (\<lambda>c. gone existing (fst c)) candidates"
  unfolding survivor_tombstones_def gone_def by (rule filter_cong) (simp_all add: case_prod_beta)

lemma survivor_candidates_mem:
  "p \<in> fst ` set (survivor_candidates paths ms) \<longleftrightarrow> p \<in> loc_path ` set (adds_of ms) \<and> p \<notin> set paths"
  by (simp add: survivor_candidates_def snapshot_paths_def adds_of_def image_UN image_image)

lemma gone_at:
  assumes api: "lists_objects api view" and dbs: "under_dbs pa p"
    and gone: "gone (fst (run_prog api (existing_paths_by_prefix pa nodes) s)) p"
  shows "view s p = None"
proof -
  from gone obtain paths where paths: "api_list api (dbs_dir pa (path_prefix p)) s = Inr paths" "p \<notin> set paths"
    by (auto simp: gone_def existing_run map_of_map_key split: option.splits if_splits sum.splits)
  have "set paths = {q. view s q \<noteq> None \<and> prefix (dbs_dir pa (path_prefix p) @ ''/'') q}"
    using api paths(1) unfolding lists_objects_def by blast
  with paths(2) dbs show ?thesis by (cases "view s p") (auto simp: under_dbs_def)
qed

definition survivors_ok :: "('s \<Rightarrow> objects) \<Rightarrow> 's \<Rightarrow> string list \<Rightarrow> persisted_snapshot list \<Rightarrow> (string \<times> nat) list \<Rightarrow> bool" where
  "survivors_ok view s paths ms surv \<longleftrightarrow>
     (\<forall>p \<in> fst ` set surv. path_prefix p \<noteq> [] \<and> p \<notin> set paths \<and> p \<in> loc_path ` set (adds_of ms) \<and> view s p = None)"

lemma find_survivors_run:
  assumes pa: "path_api_ok (ce_paths env)" and api: "lists_objects api view"
    and shown: "inventory_shows (ce_json env) (ce_paths env) api s W C" "manifest_names_ok W C"
    and dbs: "\<forall>x \<in> set (adds_of (filter (beyond whw) W)). under_dbs (ce_paths env) (loc_path x)"
  shows "\<exists>surv. run_prog api (find_survivors env whw merged) s = (surv, s) \<and>
    survivors_ok view s (snapshot_paths merged) (filter (beyond whw) W) surv"
proof -
  from load_wal_shows [OF pa shown, of whw] obtain nw where
    nw: "run_prog api (load_all_wal_snapshots (ce_json env) (ce_paths env) whw) s = (Inr nw, s)" "mset nw = mset (filter (beyond whw) W)" by blast
  let ?c = "survivor_candidates (snapshot_paths merged) nw"
  let ?ex = "fst (run_prog api (existing_paths_by_prefix (ce_paths env) (candidate_prefixes (map fst ?c))) s)"
  have run: "run_prog api (find_survivors env whw merged) s = (survivor_tombstones ?ex ?c, s)"
    by (cases "?c = []") (simp_all add: find_survivors_def run_prog_bind nw(1) existing_run Let_def survivor_tombstones_def)
  have adds: "set (adds_of nw) = set (adds_of (filter (beyond whw) W))" using mset_eq_setD [OF nw(2)] by (simp add: adds_of_def)
  have "path_prefix p \<noteq> [] \<and> p \<notin> set (snapshot_paths merged) \<and> p \<in> loc_path ` set (adds_of (filter (beyond whw) W)) \<and> view s p = None"
    if "p \<in> fst ` set (survivor_tombstones ?ex ?c)" for p
  proof -
    have c: "p \<in> fst ` set ?c" and gone: "gone ?ex p" using that by (auto simp: survivor_gone)
    from c have mem: "p \<in> loc_path ` set (adds_of (filter (beyond whw) W))" "p \<notin> set (snapshot_paths merged)"
      unfolding survivor_candidates_mem adds by blast+
    then have "under_dbs (ce_paths env) p" using dbs by blast
    with gone_at [OF api this gone] mem show ?thesis by (simp add: under_dbs_def)
  qed
  then have "survivors_ok view s (snapshot_paths merged) (filter (beyond whw) W) (survivor_tombstones ?ex ?c)"
    unfolding survivors_ok_def by (rule ballI)
  with run show ?thesis by (intro exI conjI)
qed

lemma cold_gc_only:
  assumes "store_ok api view used"
  shows "swept_only (\<lambda>p. cf_cold_gc_enabled (ce_config env) \<and> cf_keep_generations_trailing_window (ce_config env) \<noteq> 0 \<and>
      cold last_modified (i64_wrap (now_ms - i64_wrap (int (as_millis (cf_keep_generations_trailing_window (ce_config env)))))) (snapshot_paths merged) p)
    (view s) (view (snd (run_prog api (cold_gc env last_modified now_ms merged) s)))"
proof (cases "cf_cold_gc_enabled (ce_config env) \<and> cf_keep_generations_trailing_window (ce_config env) \<noteq> 0")
  case True
  then show ?thesis unfolding cold_gc_def Let_def by (simp add: sweep_prefixes_only [OF assms])
next
  case False
  then show ?thesis unfolding cold_gc_def Let_def by auto
qed

lemma write_checkpoint_stored:
  assumes "store_ok api view used" "run_prog api (write_checkpoint js pa checkpoint_id cp) s = (Inr x, s')"
  shows "\<exists>b v. write_full js cp = Inr b \<and> view s' (checkpoint_entry pa checkpoint_id) = Some (b, v)"
proof (cases "write_full js cp")
  case (Inl e)
  with assms(2) show ?thesis by (simp add: write_checkpoint_def put_document_def bind_io_run)
next
  case (Inr b)
  obtain r s1 where p: "api_put api (checkpoint_entry pa checkpoint_id) b PutOverwrite s = (r, s1)" by force
  with Inr assms(2) obtain v where "r = Inr v" "s1 = s'"
    by (cases r) (auto simp: write_checkpoint_def put_document_def bind_io_run)
  with claim_put_effect [OF assms(1)] p Inr show ?thesis by blast
qed

text \<open>The document a run wrote.\<close>

lemma checkpoint_run:
  assumes pa: "path_api_ok (ce_paths env)" and store: "store_ok api view used" and api: "lists_objects api view"
    and shown: "inventory_shows (ce_json env) (ce_paths env) api s W C" "manifest_names_ok W C"
    and dbs: "\<forall>x \<in> set (adds_of (filter (beyond (iw_wal marks)) W)). under_dbs (ce_paths env) (loc_path x)"
    and json: "inventory_json_ok (ce_json env)"
    and run: "run_prog api (write_inventory_checkpoint env True marks next_id last_modified now_ms checkpoint_id lg) s = ((Inr (), lg'), s')"
  defines "lgv \<equiv> snd (validate_refs (ledger_snapshot_all lg)
      (fst (run_prog api (existing_paths_by_prefix (ce_paths env) (ref_prefixes (ledger_snapshot_all lg))) s)) lg)"
  assumes stored: "view s' (checkpoint_entry (ce_paths env) checkpoint_id) = Some (b, v)" "read_full (ce_json env) b = Inr cp"
  shows "\<exists>gen1 gen2 surv. tombstones_for_checkpoint (gc_tombstones (iw_wal marks) (iw_compaction marks) lgv) = (gen1, gen2) \<and>
    survivors_ok view s (snapshot_paths (merged_snapshot env next_id lgv)) (filter (beyond (iw_wal marks)) W) surv \<and>
    cp = \<lparr> ck_wal_high_water = iw_wal marks, ck_compactions_high_water = iw_compaction marks,
      ck_merged_snapshot = (merged_snapshot env next_id lgv)\<lparr> ps_persisted_at := None \<rparr>,
      ck_tombstones = gen1 @ surv, ck_compaction_tombstones = gen2 \<rparr>"
proof -
  let ?mg = "merged_snapshot env next_id lgv"
  obtain gen1 gen2 where cp: "tombstones_for_checkpoint (gc_tombstones (iw_wal marks) (iw_compaction marks) lgv) = (gen1, gen2)" by force
  from find_survivors_run [OF pa api shown dbs, of ?mg] obtain surv where
    surv: "run_prog api (find_survivors env (iw_wal marks) ?mg) s = (surv, s)"
      "survivors_ok view s (snapshot_paths ?mg) (filter (beyond (iw_wal marks)) W) surv" by blast
  obtain n s1 where gc: "run_prog api (cold_gc env last_modified now_ms ?mg) s = (n, s1)" by force
  let ?cp = "\<lparr> ck_wal_high_water = iw_wal marks, ck_compactions_high_water = iw_compaction marks,
       ck_merged_snapshot = ?mg, ck_tombstones = gen1 @ surv, ck_compaction_tombstones = gen2 \<rparr>"
  obtain r s2 where w: "run_prog api (write_checkpoint (ce_json env) (ce_paths env) checkpoint_id ?cp) s1 = (r, s2)" by force
  obtain summary where vr: "run_prog api (validate_once (ce_paths env) lg) s = ((summary, lgv), s)"
    unfolding validate_once_run lgv_def by (metis prod.collapse)
  have "map_sum id (\<lambda>_. ()) r = Inr ()" "s2 = s'"
    using run by (simp_all add: write_inventory_checkpoint_def run_prog_bind vr surv(1) gc cp w Let_def)
  then obtain x where "run_prog api (write_checkpoint (ce_json env) (ce_paths env) checkpoint_id ?cp) s1 = (Inr x, s')"
    using w by (cases r) auto
  from write_checkpoint_stored [OF store this] stored(1) have "write_full (ce_json env) ?cp = Inr b" by auto
  with json stored(2) have "cp = ?cp\<lparr> ck_merged_snapshot := ?mg\<lparr> ps_persisted_at := None \<rparr> \<rparr>"
    unfolding inventory_json_ok_def by fastforce
  with cp surv(2) show ?thesis by simp
qed

lemma load_latest_state: "snd (run_prog api (load_latest_checkpoint js pa) s) = s"
  by (auto simp: load_latest_checkpoint_def split: sum.split)

lemma load_full_run:
  assumes pa: "path_api_ok pa" and latest: "fst (run_prog api (load_latest_checkpoint js pa) s) = Inr (Some cp)"
    and shown: "inventory_shows js pa api s W C" "manifest_names_ok W C"
  shows "\<exists>nw nc ld. run_prog api (load_full_state js pa) s = (Inr ld, s) \<and>
    mset nw = mset (filter (beyond (ck_wal_high_water cp)) W) \<and>
    mset nc = mset (filter (\<lambda>im. later_than (ck_compactions_high_water cp) (fst im)) C) \<and> sorted (map fst nc) \<and>
    fold_loaded ld lg = foldl (\<lambda>lg m. add_persisted_snapshot m None lg)
      (seed_tombstones (ck_tombstones cp) (ck_compaction_tombstones cp) lg) (ck_merged_snapshot cp # nw @ map snd nc) \<and>
    ld_wal_watermarks ld = foldl note_sequence (ck_wal_high_water cp) nw \<and>
    ld_compaction_watermark ld = (if nc = [] then ck_compactions_high_water cp else Some (fst (last nc)))"
proof -
  have cp: "run_prog api (load_latest_checkpoint js pa) s = (Inr (Some cp), s)"
    using latest load_latest_state [of api js pa s] by (metis prod.collapse)
  from load_wal_shows [OF pa shown, of "ck_wal_high_water cp"] obtain nw where
    nw: "run_prog api (load_all_wal_snapshots js pa (ck_wal_high_water cp)) s = (Inr nw, s)" "mset nw = mset (filter (beyond (ck_wal_high_water cp)) W)" by blast
  from load_compactions_shows [OF pa shown, of "ck_compactions_high_water cp"] obtain nc where
    nc: "run_prog api (load_all_compactions js pa (ck_compactions_high_water cp)) s = (Inr nc, s)"
      "mset nc = mset (filter (\<lambda>im. later_than (ck_compactions_high_water cp) (fst im)) C)" "sorted (map fst nc)" by blast
  let ?ld = "\<lparr> ld_checkpoint = Some cp, ld_wal_snapshots = nw, ld_compactions = map snd nc,
      ld_wal_watermarks = foldl note_sequence (ck_wal_high_water cp) nw,
      ld_compaction_watermark = (if nc = [] then ck_compactions_high_water cp else Some (fst (last nc))),
      ld_tombstones = ck_tombstones cp, ld_compaction_tombstones = ck_compaction_tombstones cp \<rparr>"
  have "run_prog api (load_full_state js pa) s = (Inr ?ld, s)"
    by (simp add: load_full_state_def bind_io_run cp nw(1) nc(1) Let_def)
  moreover have "fold_loaded ?ld lg = foldl (\<lambda>lg m. add_persisted_snapshot m None lg)
      (seed_tombstones (ck_tombstones cp) (ck_compaction_tombstones cp) lg) (ck_merged_snapshot cp # nw @ map snd nc)"
    by (simp add: fold_loaded_def inventory_flatten_def)
  ultimately show ?thesis using nw(2) nc(2,3)
    by (intro exI [of _ nw] exI [of _ nc] exI [of _ ?ld]) simp
qed

lemma validate_drops:
  assumes wf: "files_wf (lg_files lg)" and x: "x \<in> set (each_file (lg_files lg))"
    and gone: "x \<notin> set (each_file (lg_files (snd (validate_refs refs existing lg))))"
  shows "gone existing (loc_path x)"
proof -
  obtain d t f where [simp]: "x = (d, t, f)" by (cases x)
  from validate_refs_at [OF wf, of existing "\<lparr> vs_checked = 0, vs_evicted = 0, vs_skipped = 0 \<rparr>" refs d t, folded validate_refs_def]
  have "ref_gone existing refs d t (pf_path f)" using x gone by (simp add: each_file_mem wf)
  then show ?thesis by (simp add: ref_gone_def)
qed

text \<open>What a node that starts from a checkpoint has, against the fold of the manifests.\<close>

definition boots_from :: "('s \<Rightarrow> objects) \<Rightarrow> 's \<Rightarrow> inventory_view \<Rightarrow> loaded_inventory \<Rightarrow> bool" where
  "boots_from view s v ld \<longleftrightarrow>
     set (each_file (lg_files (fold_loaded ld ledger_default))) \<subseteq> set (ops_adds (manifests v)) - set (ops_rems (manifests v)) \<and>
     (\<forall>x \<in> set (ops_adds (manifests v)) - set (ops_rems (manifests v)).
        x \<in> set (each_file (lg_files (fold_loaded ld ledger_default))) \<or> view s (loc_path x) = None) \<and>
     cursors_of v (ld_wal_watermarks ld) (ld_compaction_watermark ld)"

lemma inventory_ok_part:
  assumes "inventory_ok (fold_view v f)"
  shows "inventory_ok f"
proof -
  let ?new = "manifests (filter (newer (fst f)) (fst v), filter (newer_id (snd f)) (snd v))"
  have adds: "mset (ops_adds (manifests (fold_view v f))) = mset (ops_adds (manifests f)) + mset (ops_adds ?new)"
    "set (ops_rems (manifests (fold_view v f))) = set (ops_rems (manifests f)) \<union> set (ops_rems ?new)"
    by (cases f; auto simp: fold_view_def manifests_files adds_of_def rems_of_def)+
  then have sub: "mset (ops_adds (manifests f)) \<subseteq># mset (ops_adds (manifests (fold_view v f)))" by simp
  have mem: "set (fst f) \<subseteq> set (fst (fold_view v f))" "set (snd f) \<subseteq> set (snd (fold_view v f))"
    by (auto simp: fold_view_def)
  have "names_paths (ops_adds (manifests f)) (ops_rems (manifests f))"
    using names_paths_sub [OF _ sub] assms adds(2) by (auto simp: inventory_ok_def)
  moreover have "totals_fit (ops_adds (manifests f))" using totals_fit_subset [OF _ sub] assms by (simp add: inventory_ok_def)
  ultimately show ?thesis using assms mem unfolding inventory_ok_def by blast
qed

lemma fold_view_files:
  assumes v: "cursors_of f cs cc" and nw: "mset nw = mset (filter (beyond cs) W)"
    and nc: "mset nc = mset (filter (\<lambda>im. later_than cc (fst im)) C)"
  shows "set (ops_adds (manifests (fold_view (W, C) f))) = set (ops_adds (manifests f)) \<union> set (ops_adds (manifests (nw, nc)))"
    "set (ops_rems (manifests (fold_view (W, C) f))) = set (ops_rems (manifests f)) \<union> set (ops_rems (manifests (nw, nc)))"
proof -
  have "set nw = set (filter (newer (fst f)) W)" "set nc = set (filter (newer_id (snd f)) C)"
    using mset_eq_setD [OF nw] mset_eq_setD [OF nc] cursors_of_newer [OF v] by auto
  then show "set (ops_adds (manifests (fold_view (W, C) f))) = set (ops_adds (manifests f)) \<union> set (ops_adds (manifests (nw, nc)))"
    "set (ops_rems (manifests (fold_view (W, C) f))) = set (ops_rems (manifests f)) \<union> set (ops_rems (manifests (nw, nc)))"
    by (cases f; auto simp: fold_view_def manifests_files adds_of_def rems_of_def)+
qed

text \<open>The compactor's ledger after the validation that comes first.\<close>

lemma validated_ledger:
  fixes refs existing
  assumes st: "poll_inv f ops po" and ok: "inventory_ok f"
  defines "lgv \<equiv> snd (validate_refs refs existing (po_files po))"
  shows "mset (each_file (lg_files lgv)) \<subseteq># mset (each_file (lg_files (po_files po)))"
    and "\<forall>p k. k \<noteq> ObjectGone \<longrightarrow> ((p, k) \<in> set (lg_tombstones lgv) \<longleftrightarrow> (p, k) \<in> set (lg_tombstones (po_files po)))"
    and "x \<in> set (each_file (lg_files (po_files po))) \<Longrightarrow> x \<notin> set (each_file (lg_files lgv)) \<Longrightarrow> gone existing (loc_path x)"
    and "set (ops_rems ops) = set (ops_rems (manifests f))"
proof -
  have lg: "po_files po = ledger_run ops" using st by (simp add: poll_inv_def)
  have wf: "files_wf (lg_files (po_files po))" unfolding lg by (rule ops_live(1) [OF poll_inv_ops_ok [OF st ok]])
  show "mset (each_file (lg_files lgv)) \<subseteq># mset (each_file (lg_files (po_files po)))"
    unfolding lgv_def validate_refs_def by (rule validate_refs_subset [OF wf])
  show "\<forall>p k. k \<noteq> ObjectGone \<longrightarrow> ((p, k) \<in> set (lg_tombstones lgv) \<longleftrightarrow> (p, k) \<in> set (lg_tombstones (po_files po)))"
    unfolding lgv_def validate_refs_def using validate_refs_other [of "po_files po"] ledger_run_distinct [of ops, folded lg] by blast
  show "x \<in> set (each_file (lg_files (po_files po))) \<Longrightarrow> x \<notin> set (each_file (lg_files lgv)) \<Longrightarrow> gone existing (loc_path x)"
    unfolding lgv_def by (rule validate_drops [OF wf])
  show "set (ops_rems ops) = set (ops_rems (manifests f))"
    unfolding ops_manifests(2) [of ops] using st mset_eq_setD unfolding poll_inv_def by (metis ops_rems_def set_concat set_map)
qed

lemma boot_covers:
  assumes boot: "set B = (set M \<union> set new_adds) - (set rems \<union> {x \<in> set writer_adds. loc_path x \<in> surv} \<union> set new_rems)"
    and all: "set all_adds = set adds \<union> set new_adds" "set all_rems = set rems \<union> set new_rems"
    and files: "set F = set adds - set rems" and sub: "mset M \<subseteq># mset F"
    and gone: "\<forall>x. x \<in> set F \<longrightarrow> x \<notin> set M \<longrightarrow> P x" "\<forall>x. loc_path x \<in> surv \<longrightarrow> P x"
  shows "set B \<subseteq> set all_adds - set all_rems \<and> (\<forall>x \<in> set all_adds - set all_rems. x \<in> set B \<or> P x)"
proof (intro conjI ballI)
  show "set B \<subseteq> set all_adds - set all_rems" using set_mset_mono [OF sub] files unfolding boot all by auto
  fix x assume x: "x \<in> set all_adds - set all_rems"
  consider "loc_path x \<in> surv" | "loc_path x \<notin> surv" "x \<in> set M \<union> set new_adds" | "x \<notin> set M" "x \<notin> set new_adds" by blast
  then show "x \<in> set B \<or> P x"
  proof cases
    case 1
    with gone(2) show ?thesis by blast
  next
    case 2
    with x show ?thesis unfolding boot all by simp
  next
    case 3
    with x files have "x \<in> set F" unfolding all by simp
    with gone(1) 3(1) show ?thesis by blast
  qed
qed

lemma checkpoint_boot:
  assumes pa: "path_api_ok (ce_paths env)" and store: "store_ok api view used" and api: "lists_objects api view"
    and json: "inventory_json_ok (ce_json env)" and st: "poll_inv f ops po"
    and shown0: "inventory_shows (ce_json env) (ce_paths env) api s W0 C0" "manifest_names_ok W0 C0"
    and run: "run_prog api (write_inventory_checkpoint env True \<lparr> iw_wal = po_wal_cursors po, iw_compaction = po_compaction_cursor po \<rparr>
        next_id last_modified now_ms checkpoint_id (po_files po)) s = ((Inr (), lg'), s')"
    and stored: "view s' (checkpoint_entry (ce_paths env) checkpoint_id) = Some (b, v)" "read_full (ce_json env) b = Inr cp"
    and latest: "fst (run_prog api (load_latest_checkpoint (ce_json env) (ce_paths env)) s2) = Inr (Some cp)"
    and shown: "inventory_shows (ce_json env) (ce_paths env) api s2 W C" "manifest_names_ok W C"
    and later: "set W0 \<subseteq> set W" "distinct (map fst C)"
    and ok: "inventory_ok (fold_view (W, C) f)"
    and dbs: "\<forall>x \<in> set (ops_adds (manifests (fold_view (W, C) f))). under_dbs (ce_paths env) (loc_path x)"
  shows "\<exists>ld. run_prog api (load_full_state (ce_json env) (ce_paths env)) s2 = (Inr ld, s2) \<and> boots_from view s (fold_view (W, C) f) ld"
proof -
  let ?cs = "po_wal_cursors po" and ?cc = "po_compaction_cursor po" and ?fv = "fold_view (W, C) f"
  let ?ex = "fst (run_prog api (existing_paths_by_prefix (ce_paths env) (ref_prefixes (ledger_snapshot_all (po_files po)))) s)"
  let ?lgv = "snd (validate_refs (ledger_snapshot_all (po_files po)) ?ex (po_files po))"
  let ?mg = "merged_snapshot env next_id ?lgv" and ?M = "each_file (lg_files ?lgv)"
  have v: "cursors_of f ?cs ?cc" using st by (simp add: poll_inv_def)
  note lgv = validated_ledger(1-3) [OF st inventory_ok_part [OF ok], where refs = "ledger_snapshot_all (po_files po)" and existing = ?ex]
  have adds0: "set (adds_of (filter (beyond ?cs) W0)) \<subseteq> set (adds_of (filter (beyond ?cs) W))" using later(1) by (auto simp: adds_of_def)
  then have "\<forall>x \<in> set (adds_of (filter (beyond ?cs) W0)). under_dbs (ce_paths env) (loc_path x)"
    using dbs unfolding fold_view_files(1) [OF v refl refl] manifests_files by auto
  from checkpoint_run [OF pa store api shown0 _ json run stored] this obtain gen1 gen2 surv where
    cp: "tombstones_for_checkpoint (gc_tombstones ?cs ?cc ?lgv) = (gen1, gen2)"
      "survivors_ok view s (snapshot_paths ?mg) (filter (beyond ?cs) W0) surv"
    and doc: "cp = \<lparr> ck_wal_high_water = ?cs, ck_compactions_high_water = ?cc, ck_merged_snapshot = ?mg\<lparr> ps_persisted_at := None \<rparr>,
      ck_tombstones = gen1 @ surv, ck_compaction_tombstones = gen2 \<rparr>" by auto
  from load_full_run [OF pa latest shown, of ledger_default, unfolded doc inventory_checkpoint.simps] obtain nw nc ld where
    nw: "mset nw = mset (filter (beyond ?cs) W)" and nc: "mset nc = mset (filter (\<lambda>im. later_than ?cc (fst im)) C)" "sorted (map fst nc)"
    and ld: "run_prog api (load_full_state (ce_json env) (ce_paths env)) s2 = (Inr ld, s2)"
      "fold_loaded ld ledger_default = foldl (\<lambda>lg m. add_persisted_snapshot m None lg)
         (seed_tombstones (gen1 @ surv) gen2 ledger_default) (?mg\<lparr> ps_persisted_at := None \<rparr> # nw @ map snd nc)"
      "ld_wal_watermarks ld = foldl note_sequence ?cs nw" "ld_compaction_watermark ld = (if nc = [] then ?cc else Some (fst (last nc)))"
    by (auto simp only:)
  have dist: "distinct (map fst nc)" using later(2) nc(1) by (metis distinct_map_filter mset_map mset_eq_imp_distinct_iff)
  note new = fold_view_files [OF v nw nc(1)]
  have paths: "set (snapshot_paths ?mg) = loc_path ` set ?M"
    unfolding snapshot_paths_def set_map using mset_eq_setD [OF merged_files(1), of env next_id ?lgv] by (rule arg_cong)
  have adds: "set (adds_of (filter (beyond ?cs) W0)) \<subseteq> set (adds_of nw)" using adds0 mset_eq_setD [OF nw] by (simp add: adds_of_def)
  have surv: "p \<notin> loc_path ` set ?M \<and> p \<in> loc_path ` set (adds_of nw) \<and> path_prefix p \<noteq> [] \<and> view s p = None" if "p \<in> fst ` set surv" for p
    using bspec [OF cp(2) [unfolded survivors_ok_def paths] that] image_mono [OF adds, of loc_path] by (auto simp only:)
  have boot: "set (each_file (lg_files (fold_loaded ld ledger_default))) = (set ?M \<union> set (ops_adds (manifests (nw, nc)))) -
      (set (ops_rems (manifests f)) \<union> {x \<in> set (adds_of nw). loc_path x \<in> fst ` set surv} \<union> set (ops_rems (manifests (nw, nc))))"
    unfolding ld(2) validated_ledger(4) [OF st inventory_ok_part [OF ok], symmetric]
  proof (rule boot_files [OF st nw nc dist ok lgv(1,2) cp(1)])
    show "mset (each_file (ps_databases (?mg\<lparr> ps_persisted_at := None \<rparr>))) = mset ?M" "ps_removed_files (?mg\<lparr> ps_persisted_at := None \<rparr>) = []"
      by (simp_all add: merged_files)
    show "\<forall>p \<in> fst ` set surv. path_prefix p \<noteq> [] \<and> p \<notin> loc_path ` set ?M \<and> p \<in> loc_path ` set (adds_of nw)"
      by (rule ballI) (simp only: surv simp_thms)
  qed
  have files: "set (each_file (lg_files (po_files po))) = set (ops_adds (manifests f)) - set (ops_rems (manifests f))"
    by (rule poll_inv_files [OF st inventory_ok_part [OF ok]])
  have gone: "\<forall>x. x \<in> set (each_file (lg_files (po_files po))) \<longrightarrow> x \<notin> set ?M \<longrightarrow> view s (loc_path x) = None"
  proof (intro allI impI)
    fix x assume x: "x \<in> set (each_file (lg_files (po_files po)))" "x \<notin> set ?M"
    have "under_dbs (ce_paths env) (loc_path x)" using dbs x(1) files new(1) by blast
    from gone_at [OF api this lgv(3) [OF x]] show "view s (loc_path x) = None" .
  qed
  have surv_gone: "\<forall>x. loc_path x \<in> fst ` set surv \<longrightarrow> view s (loc_path x) = None"
    by (intro allI impI) (simp only: surv simp_thms)
  note covers = boot_covers [where P = "\<lambda>x. view s (loc_path x) = None", OF boot new files lgv(1) gone surv_gone]
  have "boots_from view s ?fv ld"
    unfolding boots_from_def ld(3,4) by (intro conjI covers [THEN conjunct1] covers [THEN conjunct2] cursors_of_fold [OF v nw nc])
  with ld(1) show ?thesis by (intro exI conjI)
qed

section \<open>Properties\<close>


lemma fetch_entries_state: "snd (run_prog api (fetch_entries js entries) s) = s"
  by (induction entries) (auto simp: run_prog_bind fetch_snapshot_def split: prod.split)

lemma find_survivors_state: "snd (run_prog api (find_survivors env whw merged) s) = s"
proof -
  obtain r s1 where r: "run_prog api (load_all_wal_snapshots (ce_json env) (ce_paths env) whw) s = (r, s1)" by force
  have "snd (run_prog api (load_all_wal_snapshots (ce_json env) (ce_paths env) whw) s) = s"
    unfolding load_all_wal_snapshots_def
    by (cases "api_list api (wal_dir (ce_paths env)) s") (simp_all add: run_prog_bind fetch_entries_state split: prod.split, metis fetch_entries_state snd_conv)
  with r have "s1 = s" by simp
  with r show ?thesis by (simp add: find_survivors_def run_prog_bind existing_run Let_def)
qed

lemma write_checkpoint_other:
  assumes "store_ok api view used" "run_prog api (write_checkpoint js pa checkpoint_id cp) s = (r, s')"
    "p \<noteq> checkpoint_entry pa checkpoint_id"
  shows "view s' p = view s p"
proof (cases "write_full js cp")
  case (Inl e)
  with assms(2) show ?thesis by (auto simp: write_checkpoint_def put_document_def bind_io_run)
next
  case (Inr b)
  obtain q s1 where put: "api_put api (checkpoint_entry pa checkpoint_id) b PutOverwrite s = (q, s1)" by force
  with Inr assms(2) have "s1 = s'"
    by (cases q) (auto simp: write_checkpoint_def put_document_def bind_io_run)
  with store_put [OF assms(1) put] assms(3) show ?thesis by (auto simp: put_law_def split: sum.splits)
qed


text \<open>
  The compaction is folded before the writer's manifest is visible, so its removal is a tombstone of
  the checkpoint. The node that starts later sees the manifest that lists the removed file.
\<close>

definition demo_merged :: persisted_snapshot where
  "demo_merged = add_parquet_file 9 0 0 demo_gen2 (persisted_snapshot_new 9 ''c'' 0 0 1)"

definition demo_checkpoint :: inventory_checkpoint where
  "demo_checkpoint = \<lparr> ck_wal_high_water = [], ck_compactions_high_water = Some ''01B'', ck_merged_snapshot = demo_merged,
     ck_tombstones = [(pf_path demo_gen1, 5)], ck_compaction_tombstones = [] \<rparr>"

definition demo_boot_json :: "unit inventory_json" where
  "demo_boot_json = demo_documents\<lparr> write_full := (\<lambda>c. if c = demo_checkpoint then Inr [9] else Inl ()),
     read_full := (\<lambda>b. if b = [9] then Inr demo_checkpoint else Inl ()) \<rparr>"

definition demo_early :: mem_store where
  "demo_early = \<lparr> mem_objects = [(compaction_entry plain_paths ''01B'', [2], 1), (pf_path demo_gen2, [], 0)], mem_next = 4 \<rparr>"

definition demo_boot :: mem_store where
  "demo_boot = demo_inventory [(checkpoint_entry plain_paths ''01C'', [9], 2)]"

definition demo_compactor :: "unit poller" where
  "demo_compactor = poll_run demo_boot_json plain_paths mem_api (\<lambda>_ _ t. t) [demo_early] (poller_new [] None (ledger_run []) ())"

lemma demo_boot_json_ok: "inventory_json_ok demo_boot_json"
  by (simp add: inventory_json_ok_def demo_boot_json_def demo_documents_def demo_checkpoint_def demo_merged_def add_parquet_file_def
      persisted_snapshot_new_def)

lemma demo_early_round: "round_sees demo_boot_json plain_paths mem_api demo_early (Some ([], [(''01B'', demo_replacing)]))"
  by (simp add: demo_inventory_simps demo_boot_json_def demo_early_def demo_gen2_def demo_file_def)

lemma demo_loads:
  "run_prog mem_api (load_all_wal_snapshots demo_boot_json plain_paths []) demo_early = (Inr [], demo_early)"
  "run_prog mem_api (load_all_compactions demo_boot_json plain_paths None) demo_early = (Inr [(''01B'', demo_replacing)], demo_early)"
proof -
  have shown: "inventory_shows demo_boot_json plain_paths mem_api demo_early [] [(''01B'', demo_replacing)]"
    "manifest_names_ok [] [(''01B'', demo_replacing)]"
    using demo_early_round by (simp_all add: round_sees_def)
  from load_wal_shows [OF plain_paths_ok shown, of "[]"]
  show "run_prog mem_api (load_all_wal_snapshots demo_boot_json plain_paths []) demo_early = (Inr [], demo_early)" by simp
  from load_compactions_shows [OF plain_paths_ok shown, of None]
  show "run_prog mem_api (load_all_compactions demo_boot_json plain_paths None) demo_early = (Inr [(''01B'', demo_replacing)], demo_early)"
    by (auto simp: later_than_def)
qed

definition demo_compacted :: ledger where
  "demo_compacted = \<lparr> lg_files = [(0, [(0, [demo_gen2])])], lg_count = 1, lg_size_bytes = int (pf_size_bytes demo_gen2),
     lg_row_count = pf_row_count demo_gen2, lg_deleted_data = [], lg_tombstones = [(pf_path demo_gen1, WalSeq ''w'' 5)],
     lg_eviction_tombstones = [] \<rparr>"

lemma demo_compacted_fold:
  "gc_tombstones [] (Some ''01B'') (add_persisted_snapshot demo_replacing (Some ''01B'') (ledger_run [])) = demo_compacted"
  by (simp add: demo_ops_simps demo_replacing_def demo_compacted_def demo_snapshot_def persisted_snapshot_new_def demo_file_def
      gc_tombstones_def add_persisted_snapshot_def update_persisted_files_with_snapshot_def fold_db_adds_def fold_table_adds_def
      fold_add_file_def fold_db_removes_def fold_table_removes_def set_tombstone_def apply_delta_def delta_zero_def delta_add_def
      delta_remove_def ledger_run_def ledger_default_def files_at_def u64_add_def Let_def)
    (auto simp: set_files_def u64_max_def)

lemma demo_compactor_state:
  "po_files demo_compactor = demo_compacted" "po_watermarks_out demo_compactor = \<lparr> iw_wal = [], iw_compaction = Some ''01B'' \<rparr>"
  by (simp_all add: demo_compactor_def poll_run_def poll_once_def tick_def bind_io_run run_prog_bind poller_new_def demo_loads
      apply_manifests_def fold_compaction_def Let_def demo_compacted_fold)

definition demo_stored :: mem_store where
  "demo_stored = snd (mem_put (checkpoint_entry plain_paths ''01C'') [9] PutOverwrite demo_early)"

lemma demo_checkpoint_parts:
  "ledger_snapshot_all demo_compacted = [(0, 0, [demo_gen2])]"
  "merged_snapshot (demo_cenv demo_boot_json) 9 demo_compacted = demo_merged"
  "gc_tombstones [] (Some ''01B'') demo_compacted = demo_compacted"
  "tombstones_for_checkpoint demo_compacted = ([(pf_path demo_gen1, 5)], [])"
  by (simp_all add: demo_compacted_def ledger_snapshot_all_def merged_snapshot_def demo_merged_def demo_cenv_def gc_tombstones_def
      keeps_tombstone_def tombstones_for_checkpoint_def)

lemma demo_validated: "run_prog mem_api (validate_once plain_paths demo_compacted) demo_early = ((\<lparr> vs_checked = 1, vs_evicted = 0, vs_skipped = 0 \<rparr>, demo_compacted), demo_early)"
  by (simp add: validate_once_run demo_checkpoint_parts validate_refs_def validate_table_def validate_file_def existing_run ref_prefixes_def
      path_prefix_def dbs_dir_def demo_early_def demo_gen2_def demo_file_def demo_inventory_simps)

lemma demo_env [simp]: "ce_json (demo_cenv js) = js" "ce_paths (demo_cenv js) = plain_paths"
  by (simp_all add: demo_cenv_def)

lemma demo_checkpoint_run:
  "run_prog mem_api (write_inventory_checkpoint (demo_cenv demo_boot_json) True (po_watermarks_out demo_compactor) 9 (\<lambda>_. 0) 0 ''01C''
     (po_files demo_compactor)) demo_early = ((Inr (), demo_compacted), demo_stored)"
proof -
  have surv: "run_prog mem_api (find_survivors (demo_cenv demo_boot_json) [] demo_merged) demo_early = ([], demo_early)"
    by (simp add: find_survivors_def demo_cenv_def run_prog_bind demo_loads survivor_candidates_def)
  have gc: "run_prog mem_api (cold_gc (demo_cenv demo_boot_json) (\<lambda>_. 0) 0 demo_merged) demo_early = (0, demo_early)"
    by (simp add: cold_gc_def demo_cenv_def demo_config_def Let_def)
  have "run_prog mem_api (write_checkpoint demo_boot_json plain_paths ''01C'' demo_checkpoint) demo_early = (Inr ''01C'', demo_stored)"
    by (simp add: write_checkpoint_def put_document_def bind_io_run demo_boot_json_def mem_api_def demo_stored_def mem_put_def)
  then show ?thesis
    unfolding write_inventory_checkpoint_def demo_compactor_state
    by (simp add: run_prog_bind demo_validated demo_checkpoint_parts surv gc Let_def flip: demo_checkpoint_def)
qed


definition demo_sweep :: "unit compaction_env" where
  "demo_sweep = (demo_cenv demo_documents)\<lparr> ce_config := demo_config\<lparr> cf_cold_gc_enabled := True,
     cf_keep_generations_trailing_window := 5000000, cf_cold_gc_max_deletes_per_run := 10 \<rparr> \<rparr>"

definition demo_swept :: mem_store where
  "demo_swept = \<lparr> mem_objects = [(''n/dbs/a.parquet'', [], 0), (''n/dbs/b.parquet'', [], 1)], mem_next = 2 \<rparr>"

definition demo_live :: ledger where
  "demo_live = ledger_default\<lparr> lg_files := [(0, [(0, [demo_file 2 ''n/dbs/b.parquet'' 0])])] \<rparr>"

lemma demo_sweep_deletes:
  "mem_view (snd (run_prog mem_api (write_inventory_checkpoint demo_sweep True \<lparr> iw_wal = [], iw_compaction = None \<rparr> 9 (\<lambda>_. 3) 10 ''01C'' demo_live) demo_swept))
     ''n/dbs/a.parquet'' = None"
proof -
  have v: "run_prog mem_api (validate_once plain_paths demo_live) demo_swept = ((\<lparr> vs_checked = 1, vs_evicted = 0, vs_skipped = 0 \<rparr>, demo_live), demo_swept)"
    by (simp add: validate_once_run validate_refs_def validate_table_def validate_file_def existing_run ref_prefixes_def ledger_snapshot_all_def
        path_prefix_def dbs_dir_def demo_live_def demo_swept_def demo_file_def mem_api_def plain_paths_def)
  have env: "ce_json demo_sweep = demo_documents" "ce_paths demo_sweep = plain_paths" "cf_cold_gc_enabled (ce_config demo_sweep)"
    "cf_keep_generations_trailing_window (ce_config demo_sweep) = 5000000" "cf_cold_gc_max_deletes_per_run (ce_config demo_sweep) = 10"
    by (simp_all add: demo_sweep_def)
  have paths: "snapshot_paths (merged_snapshot demo_sweep 9 demo_live) = [''n/dbs/b.parquet'']"
    by (simp add: snapshot_paths_def merged_snapshot_def ledger_snapshot_all_def demo_live_def add_parquet_file_def persisted_snapshot_new_def
        push_file_def demo_file_def)
  have surv: "run_prog mem_api (find_survivors demo_sweep [] (merged_snapshot demo_sweep 9 demo_live)) demo_swept = ([], demo_swept)"
    by (simp add: find_survivors_def env run_prog_bind load_all_wal_snapshots_def mem_api_def demo_swept_def wal_dir_def plain_paths_def
        SHARED_INVENTORY_PREFIX_def survivor_candidates_def List.map_filter_simps)
  have gen: "\<not> contains_sub ''/gen'' ''n/dbs/a.parquet''" by (simp add: contains_sub_def find_sub.simps)
  have gc: "run_prog mem_api (cold_gc demo_sweep (\<lambda>_. 3) 10 (merged_snapshot demo_sweep 9 demo_live)) demo_swept =
      (1, \<lparr> mem_objects = [(''n/dbs/b.parquet'', [], 1)], mem_next = 2 \<rparr>)"
    by (simp add: cold_gc_def paths env gen candidate_prefixes_def path_prefix_def dbs_dir_def plain_paths_def
        mem_api_def demo_swept_def cold_gc_should_delete_def i64_wrap_def as_millis_def mem_delete_def mem_fresh_def run_prog_bind Let_def)
  show ?thesis
    by (simp add: write_inventory_checkpoint_def run_prog_bind env v surv gc write_checkpoint_def put_document_def bind_io_run demo_documents_def
        mem_view_def Let_def split: prod.split)
qed


section \<open>Deletions that never happen\<close>

text \<open>A program that never deletes one object keeps it, whatever the store answers.\<close>

primrec spares :: "string \<Rightarrow> 'a prog \<Rightarrow> bool" where
  "spares p (Done x) \<longleftrightarrow> True"
| "spares p (Put q b m k) \<longleftrightarrow> (\<forall>r. spares p (k r))"
| "spares p (Get q k) \<longleftrightarrow> (\<forall>r. spares p (k r))"
| "spares p (Head q k) \<longleftrightarrow> (\<forall>r. spares p (k r))"
| "spares p (Delete q k) \<longleftrightarrow> q \<noteq> p \<and> (\<forall>r. spares p (k r))"
| "spares p (ListPrefix q k) \<longleftrightarrow> (\<forall>r. spares p (k r))"

lemma spares_bind [intro]: "spares p m \<Longrightarrow> (\<And>x. spares p (f x)) \<Longrightarrow> spares p (bind_prog m f)"
  by (induction m) auto

lemma spares_run:
  assumes "store_ok api view used" "spares p m" "view s p \<noteq> None"
  shows "view (snd (run_prog api m s)) p \<noteq> None"
  using assms(2,3)
proof (induction m arbitrary: s)
  case (Put q b m k)
  obtain r s' where r: "api_put api q b m s = (r, s')" by force
  from store_put [OF assms(1) r] Put.prems(2) have "view s' p \<noteq> None"
    by (auto simp: put_law_def split: sum.splits)
  with Put r show ?case by simp
next
  case (Delete q k)
  obtain r s' where r: "api_delete api q s = (r, s')" by force
  from store_delete [OF assms(1) r] Delete.prems have "view s' p \<noteq> None"
    by (auto simp: delete_law_def split: sum.splits)
  with Delete r show ?case by simp
qed simp_all

lemma execute_job_spares: "spares p (execute_compaction_job env has_inventory file_id next_id compaction_id job lg)"
  by (auto simp: execute_compaction_job_def write_compacted_file_def publish_job_def persist_compaction_snapshot_def
      publish_compaction_def put_document_def Let_def split: sum.split option.split)

lemma claim_attempts_spares: "spares p (claim_attempts js ttl now_ms path n)"
  by (induction n) (auto split: sum.split store_error.split)

lemma claim_group_spares:
  assumes "path \<noteq> p"
  shows "spares p (execute_claim_group env cjs now_ms has_inventory path jobs lg)"
proof -
  have "spares p (execute_jobs env has_inventory jobs n lg)" for n lg
    by (induction jobs arbitrary: n lg) (auto intro: execute_job_spares split: prod.split)
  then show ?thesis
    using assms by (auto simp: execute_claim_group_def acquire_claim_def release_claim_def intro!: spares_bind claim_attempts_spares)
qed

lemma execute_groups_spares:
  "p \<notin> fst ` set groups \<Longrightarrow> spares p (execute_groups env cjs claim_ms has_inventory ids groups n lg)"
  by (induction groups arbitrary: n lg) (auto intro!: claim_group_spares split: prod.split)

text \<open>
  C40. Deletions that are left to a sweep which never runs. A node that runs all roles has no shared
  inventory. When the cold sweep is enabled there with a window, the deletion task of a compaction leaves
  the replaced objects to the sweep and does nothing, and no cycle sweeps: every object but the claims
  that exists before a cycle exists after it, whatever it compacted.
\<close>

theorem deferred_deletion_never_runs:
  assumes "store_ok api view used"
    and "cf_cold_gc_enabled (ce_config env)" and "cf_keep_generations_trailing_window (ce_config env) \<noteq> 0"
    and "\<forall>job. claim_path (ce_paths env) job \<noteq> p" and "view s p \<noteq> None"
  shows "view (snd (run_prog api (run_compaction_cycle env cjs claim_ms False ids dbs marks next_id last_modified now_ms
      checkpoint_id cycle_count lg) s)) p \<noteq> None \<and>
    snd (run_prog api (delete_superseded env False compaction_id polls old_files) s) = s"
proof
  have "p \<notin> fst ` set (claim_groups (ce_paths env) jobs)" for jobs
    unfolding claim_groups_def map_of_eq_None_iff [symmetric] using assms(4) by (simp add: lookup_btree_group)
  then have "spares p (run_compaction_cycle env cjs claim_ms False ids dbs marks next_id last_modified now_ms checkpoint_id cycle_count lg)"
    by (auto simp: run_compaction_cycle_def Let_def intro!: spares_bind execute_groups_spares split: sum.split)
  from spares_run [OF assms(1) this assms(5)]
  show "view (snd (run_prog api (run_compaction_cycle env cjs claim_ms False ids dbs marks next_id last_modified now_ms
      checkpoint_id cycle_count lg) s)) p \<noteq> None" .
  show "snd (run_prog api (delete_superseded env False compaction_id polls old_files) s) = s"
    using assms(2,3) by (simp add: delete_superseded_def defer_deletion_to_cold_gc_def Let_def)
qed

text \<open>The cycle of the witness merges two files: the ledger drops them, their objects stay.\<close>

definition demo_rows :: "record_batch list" where
  "demo_rows = [[(''time'', BTime [Some 0, Some 60])]]"

definition demo_sweeping :: "unit compaction_env" where
  "demo_sweeping = demo_cenv (demo_documents\<lparr> write_snapshot := (\<lambda>_. Inr [7]) \<rparr>)
     \<lparr> ce_config := demo_config\<lparr> cf_max_files_per_run := 2, cf_cold_gc_enabled := True, cf_keep_generations_trailing_window := 60,
         cf_checkpoint_every_n_cycles := 10 \<rparr>,
       ce_compact := (\<lambda>_. Inr demo_rows) \<rparr>"

definition demo_merge :: compaction_job where
  "demo_merge = demo_job\<lparr> cj_files := [demo_file 1 ''n/dbs/0/0/a.parquet'' 0, demo_file 2 ''n/dbs/0/0/b.parquet'' 60] \<rparr>"

definition demo_inputs :: mem_store where
  "demo_inputs = \<lparr> mem_objects = [(''n/dbs/0/0/a.parquet'', [1], 0)], mem_next = 1 \<rparr>"

definition demo_cycle :: "((compaction_error + unit) \<times> nat \<times> ledger) prog" where
  "demo_cycle = run_compaction_cycle demo_sweeping unary_json (\<lambda>_. 0) False (\<lambda>_. (5, 6, ''01B'')) demo_dbs
     \<lparr> iw_wal = [], iw_compaction = None \<rparr> 9 (\<lambda>_. 0) 0 ''01C'' 9 demo_generations"

lemma demo_merge_found: "identify_compaction_jobs (ce_config demo_sweeping) demo_dbs demo_generations = Inr [demo_merge]"
  by (simp add: demo_sweeping_def demo_merge_def demo_job_def identify_compaction_jobs_def compaction_table_jobs_def
      group_by_generation_def generation_jobs_def get_next_generation_def can_compact_to_generation_def chunk_files_for_jobs_def
      i64_wrap_def demo_jobs_simps)

lemma demo_merge_claimed:
  "fst (run_prog mem_api (acquire_claim unary_json ttl 0 (claim_path plain_paths demo_merge)) demo_inputs) = Inr True"
  by (simp add: claim_eval demo_inputs_def claim_path_def plain_paths_def)

lemma demo_merge_written:
  "\<exists>f. fst (run_prog mem_api (write_compacted_file demo_sweeping demo_merge demo_rows compaction_id file_id) s) = Inr (Some f)"
  by (simp add: write_compacted_file_def demo_rows_def demo_merge_def demo_job_def demo_sweeping_def demo_cenv_def num_rows_def
      demo_config_def batches_time_range_and_rows_def batch_time_range_def i64_max_def i64_min_def u64_add_def u64_max_def
      mem_api_def mem_put_def Let_def)

lemma demo_merge_executed:
  "\<exists>f. fst (run_prog mem_api (execute_compaction_job demo_sweeping False file_id next_id compaction_id demo_merge lg) s) =
     (Inr [f], apply_compaction demo_merge [f] (cj_files demo_merge) lg)"
proof -
  obtain f s' where "run_prog mem_api (write_compacted_file demo_sweeping demo_merge demo_rows compaction_id file_id) s = (Inr (Some f), s')"
    using demo_merge_written [of compaction_id file_id s] by (metis prod.collapse)
  moreover have "cj_sort_key demo_merge \<noteq> []" "ce_compact demo_sweeping demo_merge = Inr demo_rows"
    by (simp_all add: demo_merge_def demo_job_def demo_sweeping_def)
  ultimately show ?thesis
    by (simp add: execute_compaction_job_def run_prog_bind publish_job_def Let_def persist_compaction_snapshot_def
        demo_sweeping_def demo_cenv_def mem_api_def mem_put_def)
qed

lemma demo_cycle_result:
  "\<exists>f. fst (run_prog mem_api demo_cycle demo_inputs) = (Inr (), 9, apply_compaction demo_merge [f] (cj_files demo_merge) demo_generations)"
proof -
  obtain s1 where c: "run_prog mem_api (acquire_claim unary_json (cf_claim_ttl (ce_config demo_sweeping)) 0 (claim_path plain_paths demo_merge)) demo_inputs = (Inr True, s1)"
    using demo_merge_claimed by (metis prod.collapse)
  obtain f s2 where e: "run_prog mem_api (execute_compaction_job demo_sweeping False 5 6 ''01B'' demo_merge demo_generations) s1 =
     ((Inr [f], apply_compaction demo_merge [f] (cj_files demo_merge) demo_generations), s2)"
    using demo_merge_executed [of 5 6 "''01B''" demo_generations s1] by (metis prod.collapse)
  have "ce_paths demo_sweeping = plain_paths" by (simp add: demo_sweeping_def demo_cenv_def)
  then show ?thesis
    by (intro exI [of _ f]) (simp add: demo_cycle_def run_compaction_cycle_def demo_merge_found claim_groups_def btree_group_def
        execute_claim_group_def run_prog_bind c e release_claim_def split: prod.split)
qed

lemma removed_files_gone:
  assumes "f \<in> set (files_at (lg_files (remove_persisted_files d t files lg)) d t)"
  shows "pf_path f \<notin> pf_path ` set files"
proof (cases "map_of (lg_files lg) d")
  case (Some ts)
  show ?thesis
  proof (cases "map_of ts t")
    case (Some fs)
    let ?kept = "filter (\<lambda>f. pf_path f \<notin> pf_path ` set files) fs"
    have "lg_files (remove_persisted_files d t files lg) = set_files d t ?kept (lg_files lg)"
      using Some \<open>map_of (lg_files lg) d = Some ts\<close> by (simp add: remove_persisted_files_def Let_def split: prod.split)
    then have "files_at (lg_files (remove_persisted_files d t files lg)) d t = ?kept" by (simp add: files_at_set_files [OF \<open>map_of (lg_files lg) d = Some ts\<close>])
    with assms show ?thesis by simp
  qed (use assms Some in \<open>simp add: remove_persisted_files_def files_at_def\<close>)
qed (use assms in \<open>simp add: remove_persisted_files_def files_at_def\<close>)

theorem deferred_deletion_never_runs_witness:
  "\<exists>lg' s'. run_prog mem_api demo_cycle demo_inputs = ((Inr (), 9, lg'), s') \<and>
     ''n/dbs/0/0/a.parquet'' \<notin> pf_path ` set (files_at (lg_files lg') 0 0) \<and> mem_view s' ''n/dbs/0/0/a.parquet'' \<noteq> None"
proof -
  let ?p = "''n/dbs/0/0/a.parquet''"
  have on: "cf_cold_gc_enabled (ce_config demo_sweeping)" "cf_keep_generations_trailing_window (ce_config demo_sweeping) \<noteq> 0"
    "\<forall>job. claim_path (ce_paths demo_sweeping) job \<noteq> ?p" "mem_view demo_inputs ?p \<noteq> None"
    by (simp_all add: demo_sweeping_def demo_cenv_def claim_path_def plain_paths_def demo_inputs_def mem_view_def)
  have kept: "mem_view (snd (run_prog mem_api demo_cycle demo_inputs)) ?p \<noteq> None"
    using deferred_deletion_never_runs [OF mem_api_ok on(1-3), OF on(4)] unfolding demo_cycle_def by (rule conjunct1)
  obtain f where f: "fst (run_prog mem_api demo_cycle demo_inputs) = (Inr (), 9, apply_compaction demo_merge [f] (cj_files demo_merge) demo_generations)"
    using demo_cycle_result ..
  have ids: "?p \<in> pf_path ` set (cj_files demo_merge)" "cj_database_id demo_merge = 0" "cj_table_id demo_merge = 0"
    by (simp_all add: demo_merge_def demo_job_def demo_file_def)
  have "?p \<notin> pf_path ` set (files_at (lg_files (apply_compaction demo_merge [f] (cj_files demo_merge) demo_generations)) 0 0)"
  proof
    assume "?p \<in> pf_path ` set (files_at (lg_files (apply_compaction demo_merge [f] (cj_files demo_merge) demo_generations)) 0 0)"
    then obtain g where g: "?p = pf_path g" "g \<in> set (files_at (lg_files (apply_compaction demo_merge [f] (cj_files demo_merge) demo_generations)) 0 0)" ..
    from removed_files_gone [OF g(2) [unfolded apply_compaction_def ids(2,3)]] ids(1) show False unfolding g(1) ..
  qed
  moreover have "run_prog mem_api demo_cycle demo_inputs =
      ((Inr (), 9, apply_compaction demo_merge [f] (cj_files demo_merge) demo_generations), snd (run_prog mem_api demo_cycle demo_inputs))"
    unfolding f [symmetric] prod.collapse ..
  ultimately show ?thesis using kept by (intro exI conjI)
qed

text \<open>
  The sweep knows the files of the compactor only. The first file here belongs to a manifest that the
  compactor has not folded yet; older than the window, its object is deleted.
\<close>

lemma unfolded_file_swept:
  defines "env \<equiv> demo_sweeping\<lparr> ce_config := ce_config demo_sweeping\<lparr> cf_cold_gc_max_deletes_per_run := 5000 \<rparr> \<rparr>"
    and "s \<equiv> \<lparr> mem_objects = [(''n/dbs/0/0/a.parquet'', [1], 0), (''n/dbs/0/0/b.parquet'', [1], 1)], mem_next = 2 \<rparr>"
    and "folded \<equiv> demo_snapshot 1 [(0, [(0, [demo_file 2 ''n/dbs/0/0/b.parquet'' 60])])] []"
  shows "run_prog mem_api (cold_gc env (\<lambda>_. 0) 100 folded) s =
    (1, \<lparr> mem_objects = [(''n/dbs/0/0/b.parquet'', [1], 1)], mem_next = 2 \<rparr>)"
  by (simp add: env_def s_def folded_def cold_gc_def demo_sweeping_def demo_cenv_def demo_config_def snapshot_paths_def demo_snapshot_def
      persisted_snapshot_new_def demo_file_def candidate_prefixes_def path_prefix_def dbs_dir_def plain_paths_def run_prog_bind
      mem_api_def mem_delete_def cold_gc_should_delete_def contains_sub_def find_sub.simps mem_fresh_def as_millis_def i64_wrap_def Let_def)

end
