(* ===== verification/Spec2Isabelle.thy ===== *)
theory Spec2Isabelle
  imports Wal_Tail Inventory_Checkpoint
begin

text \<open>
  A verification library for the write path of this InfluxDB 3 fork: the write-ahead log, the
  in-memory buffer, the persisted file metadata and the coordination of nodes through one object
  store. Source files are named relative to src/.

  \<^bold>\<open>How the program works.\<close> A writer validates a request into a write batch and buffers it in the WAL
  (influxdb3_wal). A periodic flush writes the buffered operations as one numbered file to the object
  store, answers the waiting clients and hands the contents to the queryable buffer
  (influxdb3_write/write_buffer), which keeps the rows of every table by column in chunks of a fixed
  time width. The snapshot tracker decides when enough WAL periods have passed: the chunks below its
  marker become persist jobs, each job writes a parquet file, and a snapshot manifest records the
  files, after which the WAL files are deleted. Every node keeps a ledger of the persisted files.
  Manifests and compactions are also published to a shared inventory, from which the pollers of the
  other nodes fold them into their ledgers and report in heartbeats how far they are. The compactor
  replaces files by larger ones and deletes the replaced objects once every live reader has folded
  the replacement. Leases elect the process that compacts.

  \<^bold>\<open>The theories.\<close>
  \<^item> \<open>Reflux_Prelude\<close>, \<open>Rust_Strings\<close>: results, panics, 64-bit integers, keyed collections and the
    string functions of Rust's standard library that the code uses.
  \<^item> \<open>Gen1_Duration\<close> (influxdb3_wal/src/lib.rs, \<open>Gen1Duration\<close>): parsing of the chunk width, and the
    interface \<open>time_bucket\<close>: rounding tiles the time line.
  \<^item> \<open>Wal_Types\<close> (influxdb3_wal/src/lib.rs): rows, chunks, batches, WAL contents; merging batches
    appends and keeps exact time bounds.
  \<^item> \<open>Snapshot_Tracker\<close> (snapshot_tracker.rs): \<open>add_wal_period\<close>, \<open>snapshot\<close>; the snapshots partition
    the periods in order, and the backlog is bounded.
  \<^item> \<open>Wal_Serialize\<close> (serialize.rs): the frame of a WAL file; round trip, and each defect its error.
  \<^item> \<open>Wal_Buffer\<close>, \<open>Wal_Store\<close> (object_store.rs): \<open>WalBuffer\<close>, \<open>FlushBuffer\<close> and \<open>WalObjectStore\<close>:
    buffering, flushing with retries, replay, clean-up and listing. A flush that answers success is
    durable, replay notifies exactly the files that are not snapshotted, the listing is complete.
  \<^item> \<open>Object_Store\<close>: the interface to the \<open>object_store\<close> crate, with a model of it for witnesses.
  \<^item> \<open>Leases\<close> (influxdb3_write/src/leases.rs): acquire, refresh and release; mutual exclusion when
    operations are atomic, and what remains of it when their store calls interleave.
  \<^item> \<open>Parquet_Files\<close> (influxdb3_write/src/lib.rs, write_buffer/checkpoint.rs): file records, snapshot
    manifests and monthly checkpoints; the interface \<open>snapshot_fold\<close> shared by checkpoints and ledger.
  \<^item> \<open>Persisted_Files\<close> (write_buffer/persisted_files.rs): the ledger: folding in any order, tombstones
    and their collection, deletion and retention, query pruning.
  \<^item> \<open>Paths\<close> (paths.rs): the names of all objects; they identify what they name and list newest first
    (\<open>newest_first\<close>, \<open>layout\<close>, \<open>month_layout\<close>).
  \<^item> \<open>Shared_Inventory\<close> (shared_inventory.rs): publishing and loading of manifests, checkpoints and
    heartbeats, and the convergence gate.
  \<^item> \<open>Inventory_Poller\<close> (inventory_poller.rs): ticks over any history of rounds refine folding the views
    of the inventory; what happens to a compaction that becomes visible late.
  \<^item> \<open>Table_Buffer\<close> (write_buffer/table_buffer.rs): column builders, chunks, snapshots and record
    batches; a query sees exactly the buffered rows of its time range.
  \<^item> \<open>Queryable_Buffer\<close> (write_buffer/queryable_buffer.rs): all table buffers and the persist jobs of a
    snapshot; a snapshot persists exactly the rows below its marker.
  \<^item> \<open>Ref_Validator\<close> (ref_validator.rs): a pass that evicts references to objects that are gone; it
    never evicts one whose object is listed.
  \<^item> \<open>Wal_Tail\<close> (wal_tail.rs): the unpersisted WAL files of other writers a querier buffers; under every
    interleaving with the writer and the poller no file is missed.
  \<^item> \<open>Compaction\<close> (compaction.rs): finding the jobs, claims, executing and publishing a job, deleting what
    it replaced; the jobs cover the files, claims are exclusive, deletion waits for the readers.
  \<^item> \<open>Inventory_Checkpoint\<close> (compaction.rs, \<open>write_inventory_checkpoint\<close>): the checkpoint a compactor
    writes and the cold sweep; a node that starts from a checkpoint neither loses nor resurrects files.
    The theorem takes the checkpoint from a ledger that only the poller has folded into. A whole
    compaction cycle, and a configuration in which replaced objects are never deleted.
  \<^item> This theory composes the tracker and the queryable buffer into one node: the rows of the WAL files
    a snapshot covers are in its persist jobs, so deleting the files loses nothing.

  \<^bold>\<open>Conventions.\<close> The release profile wraps on overflow: \<open>u64\<close> and \<open>usize\<close> are naturals and \<open>i64\<close> are
  integers with the wrap-around written out where a value can leave its range, and the theorems that
  need it assume the bound. A panic is a value of \<open>panic\<close>, an error one of the component's error type.
  A \<open>HashMap\<close> is an association list whose order no theorem depends on; a \<open>BTreeMap\<close> is one sorted by
  key. An operation that holds a lock throughout is one step. A call of the object store is one step of
  an interaction program (\<open>'a prog\<close>), so a whole operation can run alone or be interleaved with others;
  the pollers read the store in one state per round. Versions the store hands out are never reused.
  Third-party code is a parameter with named hypotheses (\<open>store_ok\<close>, \<open>path_api_ok\<close>, \<open>inventory_json_ok\<close>,
  the bitcode and JSON codecs, CRC-32, chrono's date format, the catalog of a buffer), and each such
  theorem has a witness on a concrete instance. The loops are total
  functions but one: a flush gives up after a hundred failed writes, which is the measure of
  \<open>put_loop\<close>, and the listing loop advances in a finite listing. Deletes are retried without a bound,
  so \<open>delete_loop\<close> is partial, and the clean-up theorem shows that it returns when the store settles.

  \<^bold>\<open>Not modelled.\<close> The catalog, the query engine, the servers and the command line are not part of the
  library: they are built on DataFusion, Arrow Flight, gRPC and HTTP crates whose behaviour is not in
  the sources. Timers, metrics, logging and the spawning of tasks have no effect on the state that is
  modelled. The sort and deduplication a persist job or a compaction runs is DataFusion's and is a
  parameter. The processing engine runs Python. The in-memory caches of last and distinct values and of
  parquet bytes are not modelled.
\<close>

section \<open>From the WAL to parquet files\<close>

text \<open>
  A writer node: each WAL file it persists is entered in the snapshot tracker and handed to the
  buffer, together with the snapshot the tracker decides on; the jobs of a snapshot finish at any
  later point. \<open>ns_jobs\<close> collects the jobs of all snapshots.
\<close>

record node_state =
  ns_tracker :: snapshot_tracker
  ns_buffer :: queryable_buffer
  ns_manifest :: persisted_snapshot
  ns_jobs :: "persist_job list"

datatype node_event = WalFile wal_contents bool | JobDone job_end

definition notify_buffer ::
    "buffer_env \<Rightarrow> ((nat \<times> nat) \<times> int) list \<Rightarrow> wal_contents \<Rightarrow> snapshot_details option \<Rightarrow> node_state \<Rightarrow> node_state panicking" where
  "notify_buffer env retention c details s =
     (case details of
        None \<Rightarrow> bind_res (buffer_wal_contents c (ns_buffer s)) (\<lambda>qb. Inr (s\<lparr> ns_buffer := qb \<rparr>))
      | Some d \<Rightarrow> bind_res (buffer_and_plan_snapshot env 0 retention c d (ns_buffer s)) (\<lambda>(jobs, snap, qb).
          Inr (s\<lparr> ns_buffer := qb, ns_manifest := snap, ns_jobs := ns_jobs s @ jobs \<rparr>)))"

fun node_step :: "buffer_env \<Rightarrow> ((nat \<times> nat) \<times> int) list \<Rightarrow> node_event \<Rightarrow> node_state \<Rightarrow> node_state panicking" where
  "node_step env retention (WalFile c force_snapshot) s =
     bind_res (add_wal_period (period_of c) (ns_tracker s)) (\<lambda>st.
       bind_res (tracker_snapshot force_snapshot st) (\<lambda>(details, st).
         notify_buffer env retention c details (s\<lparr> ns_tracker := st \<rparr>)))"
| "node_step env retention (JobDone e) s =
     (case e of (job, file_id, size_bytes, rows, next_id) \<Rightarrow>
       (case finish_job job file_id size_bytes rows next_id (ns_buffer s, ns_manifest s) of (qb, snap) \<Rightarrow>
         Inr (s\<lparr> ns_buffer := qb, ns_manifest := snap \<rparr>)))"

definition node_new :: "nat \<Rightarrow> gen1_duration \<Rightarrow> queryable_buffer \<Rightarrow> node_state" where
  "node_new sz g qb =
     \<lparr> ns_tracker = tracker_new sz g None, ns_buffer = qb,
       ns_manifest = persisted_snapshot_new 0 [] 0 0 0, ns_jobs = [] \<rparr>"

fun wal_files :: "node_event list \<Rightarrow> wal_contents list" where
  "wal_files [] = []"
| "wal_files (WalFile c _ # evs) = c # wal_files evs"
| "wal_files (JobDone _ # evs) = wal_files evs"

definition files_rows :: "wal_contents list \<Rightarrow> node_rows" where
  "files_rows cs d t ct = concat (map (\<lambda>c. node_ops_rows (wal_ops c) d t ct) cs)"

text \<open>
  What a WAL file written by the node satisfies: its tables are in the catalog, each row is in the
  chunk of its time, no row is newer than the file says, and no time is before 1970 or so late that
  the chunk's end is not a timestamp.
\<close>

definition file_ok :: "buffer_catalog \<Rightarrow> gen1_duration \<Rightarrow> wal_contents \<Rightarrow> bool" where
  "file_ok cat g c \<longleftrightarrow> list_all (node_op_ok cat) (wal_ops c) \<and> period_safe g (period_of c) \<and> 0 \<le> wc_max_timestamp_ns c \<and>
     (\<forall>d t ct. \<forall>r \<in> set (node_ops_rows (wal_ops c) d t ct).
        ct = chunk_time_for_timestamp g (row_time r) \<and> in_i64 (row_time r) \<and> row_time r \<le> wc_max_timestamp_ns c)"

definition node_inv ::
    "buffer_catalog \<Rightarrow> gen1_duration \<Rightarrow> wal_contents list \<Rightarrow> nat \<Rightarrow> node_rows \<Rightarrow> (nat \<Rightarrow> nat \<Rightarrow> shown_rows) \<Rightarrow> node_state \<Rightarrow> bool" where
  "node_inv cat g files k P sr s \<longleftrightarrow>
     tracker_ok (ns_tracker s) \<and> st_gen1_duration (ns_tracker s) = g \<and>
     wal_periods (ns_tracker s) = map period_of (drop k files) \<and>
     state_shows cat sr (qb_buffer (ns_buffer s)) \<and>
     (\<forall>d t. jobs_hold cat (P d t) (jobs_of d t (ns_jobs s))) \<and>
     (\<forall>d t ct. \<not> skipped cat d t \<longrightarrow> P d t ct @ snd (sr d t) ct = files_rows files d t ct \<and>
        prefix (files_rows (take k files) d t ct) (P d t ct))"

lemma files_rows_append [simp]:
  "files_rows [] d t ct = []" "files_rows (cs @ ds) d t ct = files_rows cs d t ct @ files_rows ds d t ct"
  by (simp_all add: files_rows_def)

lemma wal_files_append [simp]: "wal_files (xs @ ys) = wal_files xs @ wal_files ys"
  by (induction xs rule: wal_files.induct) auto

lemma jobs_of_append [simp]: "jobs_of d t (xs @ ys) = jobs_of d t xs @ jobs_of d t ys"
  by (simp add: jobs_of_def)

lemma job_done_inv:
  assumes "node_inv cat g files k P sr s"
  shows "\<exists>s' sr'. node_step env retention (JobDone e) s = Inr s' \<and> node_inv cat g files k P sr' s'"
proof -
  obtain j i b r n where e: "e = (j, i, b, r, n)" by (cases e)
  let ?P = "\<lambda>d' t'. d' = pj_database_id j \<and> t' = pj_table_id j"
  have "state_shows cat (drop_snapshot_rows ?P sr) (clear_table_snapshots (pj_database_id j) (pj_table_id j) (qb_buffer (ns_buffer s)))"
    using assms by (intro clear_table_snapshots_shows) (simp add: node_inv_def)
  moreover have "snd (drop_snapshot_rows ?P sr d t) = snd (sr d t)" for d t by (simp add: drop_snapshot_rows_def)
  ultimately show ?thesis using assms
    by (auto simp: node_inv_def e finish_job_def Let_def intro!: exI [of _ "drop_snapshot_rows ?P sr"])
qed

lemma prefix_append_right: "prefix xs ys \<Longrightarrow> prefix xs (ys @ zs)"
  by (rule prefix_order.trans [of _ ys]) auto

text \<open>Every row of a file in the run a snapshot covers is in a chunk below the snapshot's marker.\<close>

lemma covered_files_older:
  assumes g: "gen1_valid g" and cov: "covers_periods g (map period_of cs) d"
    and ok: "list_all (file_ok cat g) cs" and ct: "\<not> ct < end_time_marker d"
  shows "files_rows cs b t ct = []"
proof -
  have "node_ops_rows (wal_ops c) b t ct = []" if c: "c \<in> set cs" for c
  proof (rule ccontr)
    assume "node_ops_rows (wal_ops c) b t ct \<noteq> []"
    then obtain r where "r \<in> set (node_ops_rows (wal_ops c) b t ct)" by (meson last_in_set)
    moreover have f: "file_ok cat g c" using ok c by (simp add: list_all_iff)
    ultimately have r: "ct = chunk_time_for_timestamp g (row_time r)" "in_i64 (row_time r)" "row_time r \<le> wp_max_time (period_of c)"
      by (auto simp: file_ok_def period_of_def)
    have "wp_max_time (period_of c) < end_time_marker d" using cov c by (auto simp: covers_periods_def list_all_iff)
    moreover have "0 \<le> wp_max_time (period_of c)" using f by (simp add: file_ok_def period_of_def)
    ultimately have "0 < end_time_marker d" by simp
    with covered_chunk_below_marker [OF g cov, of "period_of c" "row_time r"] c r ct show False by auto
  qed
  then show ?thesis by (simp add: files_rows_def)
qed

lemma tracker_step:
  assumes g: "gen1_valid g" and tr: "tracker_ok tr" "st_gen1_duration tr = g" "wal_periods tr = map period_of (drop k files)"
    and k: "k \<le> length files" and ok: "list_all (file_ok cat g) (files @ [c])"
    and sorted: "sorted_wrt (<) (map wal_file_number (files @ [c]))"
  shows "\<exists>tr1 r tr2. add_wal_period (period_of c) tr = Inr tr1 \<and> tracker_snapshot f tr1 = Inr (r, tr2) \<and>
     tracker_ok tr2 \<and> st_gen1_duration tr2 = g \<and>
     (case r of None \<Rightarrow> wal_periods tr2 = map period_of (drop k (files @ [c]))
      | Some d \<Rightarrow> \<exists>n. covers_periods g (map period_of (take n (drop k (files @ [c])))) d \<and> k + n \<le> length (files @ [c]) \<and>
          wal_periods tr2 = map period_of (drop (k + n) (files @ [c])))"
proof -
  let ?F = "files @ [c]"
  have F: "drop k ?F = drop k files @ [c]" using k by simp
  have "sorted_wrt (<) (map wal_file_number (drop k ?F))" using sorted_wrt_drop [OF sorted, of k] unfolding drop_map .
  then obtain tr1 where a: "add_wal_period (period_of c) tr = Inr tr1"
    using add_wal_period_total [of tr "period_of c"] tr(3) k by (auto simp: F period_of_def comp_def)
  have safe: "list_all (period_safe g) (map period_of ?F)" using ok by (auto simp: list_all_iff file_ok_def)
  then have "in_i64 (wp_max_time (period_of c))" by (simp add: period_safe_def)
  note tr1 = add_wal_period_ok [OF tr(1) a this]
  then have p1: "wal_periods tr1 = map period_of (drop k ?F)" unfolding F by (simp add: tr(3))
  have g1: "st_gen1_duration tr1 = g" using a tr(2) by (auto simp: add_wal_period_def split: if_splits)
  have "list_all (period_safe (st_gen1_duration tr1)) (wal_periods tr1)"
    using safe by (auto simp: p1 g1 list_all_iff dest: in_set_dropD)
  from tracker_snapshot_total [OF tr1(1) this, of f] obtain r tr2 where s: "tracker_snapshot f tr1 = Inr (r, tr2)" by blast
  note sp = tracker_snapshot_splits [OF tr1(1) s]
  show ?thesis
  proof (cases r)
    case None
    with sp a s tr1(1) p1 g1 show ?thesis by auto
  next
    case (Some d)
    with sp have so: "splits_off tr1 d tr2" by simp
    then obtain ps where ps: "wal_periods tr1 = ps @ wal_periods tr2" "covers_periods g ps d" "st_gen1_duration tr2 = g"
      by (auto simp: splits_off_def g1)
    define n where "n = length ps"
    have "ps = take n (map period_of (drop k ?F))" "wal_periods tr2 = drop n (map period_of (drop k ?F))"
      using ps(1) by (simp_all add: p1 n_def)
    moreover have "n \<le> length (drop k ?F)" using arg_cong [OF ps(1), of length] by (simp add: p1 n_def)
    ultimately show ?thesis using a s Some ps(2,3) splits_off_ok [OF tr1(1) so] k
      by (auto simp: take_map drop_map add.commute simp del: take_append drop_append intro!: exI [of _ n])
  qed
qed

lemma wal_file_inv:
  assumes g: "gen1_valid g" and inv: "node_inv (be_catalog env) g files k P sr s" and k: "k \<le> length files"
    and ok: "list_all (file_ok (be_catalog env) g) (files @ [c])"
    and sorted: "sorted_wrt (<) (map wal_file_number (files @ [c]))"
  shows "\<exists>s' k' P' sr'. node_step env retention (WalFile c f) s = Inr s' \<and> k' \<le> length (files @ [c]) \<and>
           node_inv (be_catalog env) g (files @ [c]) k' P' sr' s'"
proof -
  let ?F = "files @ [c]" and ?cat = "be_catalog env"
  let ?sr = "\<lambda>d. with_rows (sr d) (node_ops_rows (wal_ops c) d)"
  have st: "state_shows ?cat sr (qb_buffer (ns_buffer s))" and jobs: "\<And>d t. jobs_hold ?cat (P d t) (jobs_of d t (ns_jobs s))"
    and rows: "\<And>d t ct. \<not> skipped ?cat d t \<Longrightarrow> P d t ct @ snd (sr d t) ct = files_rows files d t ct"
    and pre: "\<And>d t ct. \<not> skipped ?cat d t \<Longrightarrow> prefix (files_rows (take k files) d t ct) (P d t ct)"
    using inv by (auto simp: node_inv_def)
  have rows1: "P d t ct @ snd (?sr d t) ct = files_rows ?F d t ct" if "\<not> skipped ?cat d t" for d t ct
    using rows [OF that, of ct] by (simp add: with_rows_def) (simp add: files_rows_def)
  have pre1: "prefix (files_rows (take k ?F) d t ct) (P d t ct)" if "\<not> skipped ?cat d t" for d t ct using pre [OF that] k by simp
  have ops: "list_all (node_op_ok ?cat) (wal_ops c)" using ok by (simp add: file_ok_def)
  from tracker_step [OF g _ _ _ k ok sorted, of "ns_tracker s" f] inv obtain tr1 r tr2 where
    tr: "add_wal_period (period_of c) (ns_tracker s) = Inr tr1" "tracker_snapshot f tr1 = Inr (r, tr2)" "tracker_ok tr2"
      "st_gen1_duration tr2 = g" and
    split: "case r of None \<Rightarrow> wal_periods tr2 = map period_of (drop k ?F)
      | Some d \<Rightarrow> \<exists>n. covers_periods g (map period_of (take n (drop k ?F))) d \<and> k + n \<le> length ?F \<and>
          wal_periods tr2 = map period_of (drop (k + n) ?F)" by (auto simp: node_inv_def)
  show ?thesis
  proof (cases r)
    case None
    from buffer_write_ops_shows [OF st ops] obtain st1 where
      "buffer_write_ops (wal_ops c) (qb_buffer (ns_buffer s)) = Inr st1" "state_shows ?cat ?sr st1" by blast
    with tr None split k jobs rows1 pre1 show ?thesis
      by (auto simp: notify_buffer_def buffer_wal_contents_def node_inv_def intro!: exI [of _ k] exI [of _ P] exI [of _ ?sr])
  next
    case (Some d)
    let ?m = "end_time_marker d"
    from split Some obtain n where n: "covers_periods g (map period_of (take n (drop k ?F))) d" "k + n \<le> length ?F"
      "wal_periods tr2 = map period_of (drop (k + n) ?F)" by auto
    from buffer_and_plan_snapshot_shows [OF st ops, of 0 retention d] obtain js snap qb where
      plan: "buffer_and_plan_snapshot env 0 retention c d (ns_buffer s) = Inr (js, snap, qb)"
        "state_shows ?cat (after_plan ?cat ?m ?sr) (qb_buffer qb)"
        "\<And>d t. jobs_hold ?cat (planned_rows ?cat ?m ?sr d t) (jobs_of d t js)" by blast
    let ?P = "\<lambda>d t ct. P d t ct @ planned_rows ?cat ?m ?sr d t ct"
    have "jobs_hold ?cat (?P d t) (jobs_of d t (ns_jobs s @ js))" for d t
      using jobs_hold_append [OF jobs plan(3)] by simp
    moreover have "?P b t ct @ snd (after_plan ?cat ?m ?sr b t) ct = files_rows ?F b t ct" if "\<not> skipped ?cat b t" for b t ct
      using rows1 [OF that, of ct] that by (simp add: planned_rows_def after_plan_def taken_rows_def kept_rows_def)
    moreover have "prefix (files_rows (take (k + n) ?F) b t ct) (?P b t ct)" if sk: "\<not> skipped ?cat b t" for b t ct
    proof (cases "ct < ?m")
      case True
      have "?P b t ct = files_rows (take (k + n) ?F) b t ct @ files_rows (drop (k + n) ?F) b t ct"
        using rows1 [OF sk, of ct] True sk files_rows_append(2) [of "take (k + n) ?F" "drop (k + n) ?F" b t ct]
        by (simp add: planned_rows_def taken_rows_def del: files_rows_append take_append drop_append)
      then show ?thesis by simp
    next
      case False
      have "list_all (file_ok ?cat g) (take n (drop k ?F))"
        using ok unfolding list_all_iff by (meson in_set_dropD in_set_takeD)
      from covered_files_older [OF g n(1) this False] pre1 [OF sk, of ct] show ?thesis
        by (simp add: take_add prefix_append_right del: take_append drop_append)
    qed
    ultimately show ?thesis using tr Some n(2,3) plan(1,2)
      by (auto simp: notify_buffer_def node_inv_def simp del: take_append drop_append
          intro!: exI [of _ "k + n"] exI [of _ ?P] exI [of _ "after_plan ?cat ?m ?sr"])
  qed
qed


definition wal_file :: "nat \<Rightarrow> int \<Rightarrow> (int \<times> row list) list \<Rightarrow> wal_contents" where
  "wal_file n mx tcs = (demo_write tcs)\<lparr> wal_file_number := n, wc_min_timestamp_ns := mx, wc_max_timestamp_ns := mx \<rparr>"

lemma node_ops_rows_wal_file:
  "node_ops_rows (wal_ops (wal_file n mx tcs)) d t ct =
     (if d = 1 \<and> t = 2 then concat (map (\<lambda>(ct', rows). if ct' = ct then rows else []) tcs) else [])"
proof -
  have "chunks_rows (map (\<lambda>(ct, rows). (ct, \<lparr> chunk_rows = rows \<rparr>)) tcs) ct =
      concat (map (\<lambda>(ct', rows). if ct' = ct then rows else []) tcs)"
    by (induction tcs) (auto simp: chunks_rows_def)
  then show ?thesis by (simp add: wal_file_def demo_write_def node_ops_rows_def node_op_rows_def tables_rows_def)
qed

text \<open>Chunks of ten minutes: the second file forces a snapshot, which covers both.\<close>

definition demo_events :: "node_event list" where
  "demo_events = [WalFile (wal_file 1 5 [(0, [bare_row 5])]) False,
     WalFile (wal_file 2 600000000007 [(600000000000, [demo_row 600000000007 3])]) True]"

lemma default_nanos: "gen1_as_nanos gen1_default = 600000000000"
  by (simp add: gen1_default_def gen1_as_nanos_def from_secs_def nanos_per_sec_def i64_wrap_def)

lemma demo_events_ok: "list_all (file_ok (be_catalog demo_env) gen1_default) (wal_files demo_events)"
proof -
  have "chunk_time_for_timestamp gen1_default 5 = 0" "chunk_time_for_timestamp gen1_default 600000000007 = 600000000000"
    by (simp_all add: chunk_time_for_timestamp_def default_nanos i64_wrap_def)
  moreover have "list_all (node_op_ok (be_catalog demo_env)) (wal_ops (wal_file n mx tcs))"
    if "list_all (\<lambda>(ct, rows). rows \<noteq> [] \<and> list_all (row_ok demo_td) rows) tcs" for n mx tcs
    using demo_write_ok [OF that] by (simp add: wal_file_def)
  ultimately show ?thesis
    by (auto simp: demo_events_def file_ok_def node_ops_rows_wal_file period_safe_def period_of_def default_nanos i64_defs
        split: if_splits)
     (simp_all add: wal_file_def demo_row_simps)
qed


text \<open>
  The same fails before 1970. Chunk times are truncated towards zero, so a row five nanoseconds
  before the epoch is in chunk 0, and the marker a file of such rows gets is 0 as well: the snapshot
  covers the file, no job takes its row, and the WAL no longer tracks it.
\<close>

lemma pre_epoch_row_not_persisted:
  "chunk_time_for_timestamp gen1_default (-5) = 0 \<and>
   (\<exists>s. node_step demo_env [] (WalFile (wal_file 1 (-5) [(0, [bare_row (-5)])]) False) (node_new 1 gen1_default empty_buffer) = Inr s \<and>
      wal_periods (ns_tracker s) = [] \<and> ns_jobs s = [] \<and> ps_wal_file_sequence_number (ns_manifest s) = 1)"
  by (simp add: chunk_time_for_timestamp_def default_nanos i64_wrap_def node_new_def tracker_new_def add_wal_period_def
      tracker_snapshot_def should_run_snapshot_def number_of_periods_to_snapshot_after_def u64_add_def
      snapshot_in_order_wal_periods_def period_of_def wal_file_def i64_rem_def ts_sub_def checked_i64_def
      i64_defs notify_buffer_def increment_snapshot_sequence_number_def plan_simps buffer_run_simps case_prod_beta Let_def
      persisted_snapshot_new_def)

end
